(* ===== verification/Prelude.thy ===== *)
theory Prelude
  imports Main "HOL-Library.Word" "HOL-Library.List_Lexorder" "HOL-Library.AList"
    "HOL-Library.Multiset"
begin

text \<open>
  Shared vocabulary of the development: the machine integers of the C++ sources, the ways in
  which the code stops without a normal result (failed \<open>assert\<close>, \<open>LOG(FATAL)\<close>, an access
  outside an allocation, a null or dangling pointer), the result type that carries them, byte
  buffers with bounds-checked access, little-endian encoding (the code reinterprets raw memory
  on x86), and the generic list lemmas the components share.
\<close>

section \<open>Machine integers\<close>

type_synonym byte = "8 word"
type_synonym u16 = "16 word"
type_synonym u32 = "32 word"
type_synonym u64 = "64 word"
type_synonym pgid = "64 word"
type_synonym txid = "64 word"

section \<open>Results\<close>

text \<open>
  Every way in which the modelled code leaves the normal control flow. \<open>AssertFail\<close> is a
  violated \<open>assert\<close>, \<open>LogFatal\<close> glog's \<open>LOG(FATAL)\<close> (it aborts the process), \<open>OutOfBounds\<close>
  an access outside the bytes of a buffer or the elements of a vector, \<open>NullDeref\<close> the use of
  a null pointer, \<open>UseAfterFree\<close> the use of memory that was already given back, \<open>Deadlock\<close>
  waiting for a lock that nobody will release, and \<open>Diverges\<close> a loop with no normal exit.
\<close>

datatype error = AssertFail | LogFatal | OutOfBounds | NullDeref | UseAfterFree | Deadlock | Diverges

type_synonym 'a result = "error + 'a"

fun and_then :: "'a result \<Rightarrow> ('a \<Rightarrow> 'b result) \<Rightarrow> 'b result" where
  "and_then (Inl e) f = Inl e"
| "and_then (Inr x) f = f x"

definition check :: "bool \<Rightarrow> error \<Rightarrow> unit result" where
  "check b e = (if b then Inr () else Inl e)"

text \<open>A loop over the elements of a container whose body may stop the program.\<close>

fun fold_result :: "('a \<Rightarrow> 's \<Rightarrow> 's result) \<Rightarrow> 'a list \<Rightarrow> 's \<Rightarrow> 's result" where
  "fold_result f [] s = Inr s"
| "fold_result f (x # xs) s = and_then (f x s) (fold_result f xs)"

definition of_option :: "error \<Rightarrow> 'a option \<Rightarrow> 'a result" where
  "of_option e x = (case x of None \<Rightarrow> Inl e | Some y \<Rightarrow> Inr y)"

section \<open>Runs of a labelled step relation\<close>

inductive runs :: "('s \<Rightarrow> 'a \<Rightarrow> 's \<Rightarrow> bool) \<Rightarrow> 's \<Rightarrow> 'a list \<Rightarrow> 's \<Rightarrow> bool"
  for step :: "'s \<Rightarrow> 'a \<Rightarrow> 's \<Rightarrow> bool" where
  runs_none: "runs step s [] s"
| runs_more: "step s a t \<Longrightarrow> runs step t as u \<Longrightarrow> runs step s (a # as) u"

section \<open>Byte buffers\<close>

type_synonym buffer = "byte list"

definition read_bytes :: "buffer \<Rightarrow> nat \<Rightarrow> nat \<Rightarrow> byte list result" where
  "read_bytes buf off n =
     (if off + n \<le> length buf then Inr (take n (drop off buf)) else Inl OutOfBounds)"

definition write_bytes :: "buffer \<Rightarrow> nat \<Rightarrow> byte list \<Rightarrow> buffer result" where
  "write_bytes buf off bs =
     (if off + length bs \<le> length buf
      then Inr (take off buf @ bs @ drop (off + length bs) buf) else Inl OutOfBounds)"

text \<open>Little-endian representation of a number in \<open>k\<close> bytes.\<close>

fun le_bytes :: "nat \<Rightarrow> nat \<Rightarrow> byte list" where
  "le_bytes 0 n = []"
| "le_bytes (Suc k) n = of_nat n # le_bytes k (n div 256)"

fun le_nat :: "byte list \<Rightarrow> nat" where
  "le_nat [] = 0"
| "le_nat (b # bs) = unat b + 256 * le_nat bs"

definition get_u16 :: "buffer \<Rightarrow> nat \<Rightarrow> u16 result" where
  "get_u16 buf off = map_sum id (\<lambda>bs. of_nat (le_nat bs)) (read_bytes buf off 2)"

definition get_u32 :: "buffer \<Rightarrow> nat \<Rightarrow> u32 result" where
  "get_u32 buf off = map_sum id (\<lambda>bs. of_nat (le_nat bs)) (read_bytes buf off 4)"

definition get_u64 :: "buffer \<Rightarrow> nat \<Rightarrow> u64 result" where
  "get_u64 buf off = map_sum id (\<lambda>bs. of_nat (le_nat bs)) (read_bytes buf off 8)"

definition set_u16 :: "buffer \<Rightarrow> nat \<Rightarrow> u16 \<Rightarrow> buffer result" where
  "set_u16 buf off x = write_bytes buf off (le_bytes 2 (unat x))"

definition set_u32 :: "buffer \<Rightarrow> nat \<Rightarrow> u32 \<Rightarrow> buffer result" where
  "set_u32 buf off x = write_bytes buf off (le_bytes 4 (unat x))"

definition set_u64 :: "buffer \<Rightarrow> nat \<Rightarrow> u64 \<Rightarrow> buffer result" where
  "set_u64 buf off x = write_bytes buf off (le_bytes 8 (unat x))"

section \<open>Lemma collections\<close>

named_theorems result_simps \<open>unfolding of results\<close>
named_theorems buffer_simps \<open>reads after writes\<close>

section \<open>Results: lemmas\<close>

lemma check_simps [simp, result_simps]:
  "check True e = Inr ()" "check False e = Inl e"
  by (simp_all add: check_def)

lemma and_then_Inr_iff:
  "and_then r f = Inr y \<longleftrightarrow> (\<exists>x. r = Inr x \<and> f x = Inr y)"
  by (cases r) auto

lemma and_then_Inl_iff:
  "and_then r f = Inl e \<longleftrightarrow> r = Inl e \<or> (\<exists>x. r = Inr x \<and> f x = Inl e)"
  by (cases r) auto

lemma check_Inr_iff: "check b e = Inr u \<longleftrightarrow> b"
  by (auto simp: check_def)

lemma check_Inl_iff: "check b e = Inl e' \<longleftrightarrow> \<not> b \<and> e' = e"
  by (auto simp: check_def)

lemma of_option_simps [simp, result_simps]:
  "of_option e None = Inl e" "of_option e (Some x) = Inr x"
  by (simp_all add: of_option_def)

lemma of_option_Inr_iff: "of_option e x = Inr y \<longleftrightarrow> x = Some y"
  by (cases x) auto

lemmas result_iffs = and_then_Inr_iff and_then_Inl_iff check_Inr_iff check_Inl_iff
  of_option_Inr_iff

lemma and_then_assoc: "and_then (and_then r f) g = and_then r (\<lambda>x. and_then (f x) g)"
  by (cases r) auto

lemma fold_result_append:
  "fold_result f (xs @ ys) s = and_then (fold_result f xs s) (fold_result f ys)"
  proof (induction xs arbitrary: s)
  case (Cons x xs)
  then show ?case by (cases "f x s") auto
qed simp

text \<open>A loop invariant: what the body keeps, the loop keeps.\<close>

lemma fold_result_invariant:
  assumes "fold_result f xs s = Inr t" and "P s"
    and "\<And>x u v. x \<in> set xs \<Longrightarrow> P u \<Longrightarrow> f x u = Inr v \<Longrightarrow> P v"
  shows "P t"
  using assms
proof (induction xs arbitrary: s)
  case Nil
  then show ?case by simp
next
  case (Cons x xs)
  from Cons.prems(1) obtain u where u: "f x s = Inr u" "fold_result f xs u = Inr t"
    by (auto simp: and_then_Inr_iff)
  have "P u" using Cons.prems(2,3) u(1) by auto
  then show ?case using Cons.IH [OF u(2)] Cons.prems(3) by auto
qed

section \<open>Little-endian numbers: lemmas\<close>

lemma length_le_bytes [simp]: "length (le_bytes k n) = k"
  by (induction k arbitrary: n) auto

lemma unat_byte_of_nat: "unat (of_nat n :: byte) = n mod 256"
  by (simp add: unat_of_nat)

lemma le_nat_le_bytes: "le_nat (le_bytes k n) = n mod 256 ^ k"
proof (induction k arbitrary: n)
  case 0
  then show ?case by simp
next
  case (Suc k)
  have "le_nat (le_bytes (Suc k) n) = n mod 256 + 256 * ((n div 256) mod 256 ^ k)"
    by (simp add: unat_byte_of_nat Suc.IH)
  also have "\<dots> = n mod (256 * 256 ^ k)"
    by (simp add: mod_mult2_eq)
  finally show ?case by simp
qed

lemma le_nat_le_bytes_u16 [simp]: "le_nat (le_bytes 2 (unat (x :: u16))) = unat x"
  using unsigned_less [of x, where ?'a = nat] by (simp add: le_nat_le_bytes)

lemma le_nat_le_bytes_u32 [simp]: "le_nat (le_bytes 4 (unat (x :: u32))) = unat x"
  using unsigned_less [of x, where ?'a = nat] by (simp add: le_nat_le_bytes)

lemma le_nat_le_bytes_u64 [simp]: "le_nat (le_bytes 8 (unat (x :: u64))) = unat x"
  using unsigned_less [of x, where ?'a = nat] by (simp add: le_nat_le_bytes)

section \<open>Buffers: lemmas\<close>

lemma write_bytes_Inr_iff:
  "write_bytes buf off bs = Inr buf' \<longleftrightarrow>
     off + length bs \<le> length buf \<and> buf' = take off buf @ bs @ drop (off + length bs) buf"
  by (auto simp: write_bytes_def)

lemma length_write_bytes: "write_bytes buf off bs = Inr buf' \<Longrightarrow> length buf' = length buf"
  by (auto simp: write_bytes_Inr_iff)

lemma write_bytes_ok:
  "off + length bs \<le> length buf \<Longrightarrow>
     \<exists>buf'. write_bytes buf off bs = Inr buf' \<and> length buf' = length buf"
  by (auto simp: write_bytes_def)

lemma read_write_same [buffer_simps]:
  "write_bytes buf off bs = Inr buf' \<Longrightarrow> n = length bs \<Longrightarrow> read_bytes buf' off n = Inr bs"
  by (auto simp: write_bytes_Inr_iff read_bytes_def)

lemma read_write_other [buffer_simps]:
  assumes "write_bytes buf off bs = Inr buf'" and "o' + n \<le> off \<or> off + length bs \<le> o'"
  shows "read_bytes buf' o' n = read_bytes buf o' n"
proof -
  from assms(1) have len: "length buf' = length buf"
    and buf': "buf' = take off buf @ bs @ drop (off + length bs) buf"
    and fits: "off + length bs \<le> length buf"
    by (auto simp: write_bytes_Inr_iff)
  show ?thesis
  proof (cases "o' + n \<le> length buf")
    case True
    have "take n (drop o' buf') = take n (drop o' buf)"
      using assms(2)
    proof
      assume "o' + n \<le> off"
      then show ?thesis using fits unfolding buf' by (auto simp: drop_take min_def)
    next
      assume "off + length bs \<le> o'"
      then show ?thesis using fits unfolding buf' by simp
    qed
    then show ?thesis using True len by (simp add: read_bytes_def)
  next
    case False
    then show ?thesis using len by (simp add: read_bytes_def)
  qed
qed

lemma read_bytes_zero_length [simp]: "off \<le> length buf \<Longrightarrow> read_bytes buf off 0 = Inr []"
  by (simp add: read_bytes_def)

lemma length_read_bytes: "read_bytes buf off n = Inr bs \<Longrightarrow> length bs = n"
  by (auto simp: read_bytes_def split: if_splits)

lemmas get_defs = get_u16_def get_u32_def get_u64_def
lemmas set_defs = set_u16_def set_u32_def set_u64_def

lemma set_get_same [buffer_simps]:
  "set_u16 buf off h = Inr buf' \<Longrightarrow> get_u16 buf' off = Inr h"
  "set_u32 buf off w = Inr buf' \<Longrightarrow> get_u32 buf' off = Inr w"
  "set_u64 buf off d = Inr buf' \<Longrightarrow> get_u64 buf' off = Inr d"
  by (auto simp: set_defs get_defs dest!: read_write_same [OF _ refl])

lemma length_set:
  "set_u16 buf off h = Inr buf' \<Longrightarrow> length buf' = length buf"
  "set_u32 buf off w = Inr buf' \<Longrightarrow> length buf' = length buf"
  "set_u64 buf off d = Inr buf' \<Longrightarrow> length buf' = length buf"
  by (auto simp: set_defs dest: length_write_bytes)

lemma set_ok:
  "off + 2 \<le> length buf \<Longrightarrow> \<exists>buf'. set_u16 buf off h = Inr buf' \<and> length buf' = length buf"
  "off + 4 \<le> length buf \<Longrightarrow> \<exists>buf'. set_u32 buf off w = Inr buf' \<and> length buf' = length buf"
  "off + 8 \<le> length buf \<Longrightarrow> \<exists>buf'. set_u64 buf off d = Inr buf' \<and> length buf' = length buf"
  by (auto simp: set_defs intro: write_bytes_ok)

lemma get_ok:
  "off + 2 \<le> length buf \<Longrightarrow> \<exists>x. get_u16 buf off = Inr x"
  "off + 4 \<le> length buf \<Longrightarrow> \<exists>y. get_u32 buf off = Inr y"
  "off + 8 \<le> length buf \<Longrightarrow> \<exists>z. get_u64 buf off = Inr z"
  by (auto simp: get_defs read_bytes_def)

section \<open>Words\<close>

lemma unat_ucast_u32_u64 [simp]: "unat (ucast (n :: u32) :: u64) = unat n"
proof -
  have "unat n < 2 ^ 32" using unsigned_less [of n, where ?'a = nat] by simp
  then have "unat n < 2 ^ 64" by simp
  then show ?thesis by (simp only: unsigned_ucast_eq) (simp add: take_bit_nat_eq_self)
qed

lemma unat_ucast_u16_u64 [simp]: "unat (ucast (n :: u16) :: u64) = unat n"
proof -
  have "unat n < 2 ^ 16" using unsigned_less [of n, where ?'a = nat] by simp
  then have "unat n < 2 ^ 64" by simp
  then show ?thesis by (simp only: unsigned_ucast_eq) (simp add: take_bit_nat_eq_self)
qed

lemma u32_bound: "unat (n :: u32) < 4294967296"
  using unsigned_less [of n, where ?'a = nat] by simp

lemma u64_bound: "unat (n :: u64) < 18446744073709551616"
  using unsigned_less [of n, where ?'a = nat] by simp

lemma not_max_word: "unat (p :: u64) < 2 ^ 64 - 1 \<Longrightarrow> p \<noteq> - 1"
proof
  assume "unat p < 2 ^ 64 - 1" "p = - 1"
  moreover have "unat (- 1 :: u64) = 2 ^ 64 - 1" by (simp add: unsigned_minus_1_eq_mask mask_eq_exp_minus_1)
  ultimately show False by simp
qed

lemma unat_succ: "(p :: u64) \<noteq> - 1 \<Longrightarrow> unat (p + 1) = Suc (unat p)"
  using unatSuc [of p] by (simp add: eq_neg_iff_add_eq_0 add.commute)

section \<open>Lists\<close>

lemma find_append: "find P (xs @ ys) = (case find P xs of None \<Rightarrow> find P ys | Some x \<Rightarrow> Some x)"
  by (induction xs) auto

text \<open>Strictly ascending lists: what the code keeps its page-id and key vectors to be.\<close>

abbreviation ascending :: "'a :: linorder list \<Rightarrow> bool" where
  "ascending xs \<equiv> sorted_wrt (<) xs"

lemma ascending_iff: "ascending xs \<longleftrightarrow> sorted xs \<and> distinct xs"
  by (simp add: strict_sorted_iff)

lemma AList_delete_absent: "t \<notin> fst ` set al \<Longrightarrow> AList.delete t al = al"
  by (induction al) auto

lemma sum_list_le_member: "x \<in> set xs \<Longrightarrow> (x :: nat) \<le> sum_list xs"
  by (induction xs) auto

end
