(* ===== verification/Page_Layout.thy ===== *)
theory Page_Layout
  imports Prelude
begin

unbundle bit_operations_syntax

text \<open>
  The data layer of \<open>src/src/Bolt/type.h\<close> and \<open>page.h\<close>: the string wrapper \<open>Item\<close>, the packed
  page header, and the packed leaf and branch elements that follow it, all read from and
  written to raw bytes at the offsets of the packed structs. A \<open>Page*\<close> is the buffer that
  starts at the page; an access past its end is \<open>OutOfBounds\<close>.
\<close>

section \<open>Item (type.h)\<close>

record item =
  item_data :: "byte list"
  item_length :: u32

definition Item_default :: item where
  "Item_default = \<lparr>item_data = [], item_length = 0\<rparr>"

definition Item_string :: "byte list \<Rightarrow> item" where
  "Item_string str = \<lparr>item_data = str, item_length = of_nat (length str)\<rparr>"

definition Item_size :: "nat \<Rightarrow> item" where
  "Item_size n = \<lparr>item_data = replicate n 0, item_length = of_nat n\<rparr>"

definition Item_buf :: "buffer \<Rightarrow> nat \<Rightarrow> u32 \<Rightarrow> item result" where
  "Item_buf buf off len =
     and_then (read_bytes buf off (unat len)) (\<lambda>bs. Inr \<lparr>item_data = bs, item_length = len\<rparr>)"

definition Item_eq :: "item \<Rightarrow> item \<Rightarrow> bool" where
  "Item_eq a b \<longleftrightarrow> item_data a = item_data b"

definition Item_neq :: "item \<Rightarrow> item \<Rightarrow> bool" where
  "Item_neq a b \<longleftrightarrow> item_data a \<noteq> item_data b"

definition Item_less :: "item \<Rightarrow> item \<Rightarrow> bool" where
  "Item_less a b \<longleftrightarrow> item_data a < item_data b"

definition Item_greater :: "item \<Rightarrow> item \<Rightarrow> bool" where
  "Item_greater a b \<longleftrightarrow> item_data b < item_data a"

definition Item_reset :: "item \<Rightarrow> item" where
  "Item_reset i = i\<lparr>item_data := [], item_length := 0\<rparr>"

definition Item_empty :: "item \<Rightarrow> bool" where
  "Item_empty i \<longleftrightarrow> item_length i = 0"

text \<open>What every constructor establishes: the cached length is the length of the bytes.\<close>

definition item_wf :: "item \<Rightarrow> bool" where
  "item_wf i \<longleftrightarrow> unat (item_length i) = length (item_data i)"

section \<open>Flags and sizes (type.h, page.h)\<close>

definition branchPageFlag :: u16 where "branchPageFlag = 0x01"
definition leafPageFlag :: u16 where "leafPageFlag = 0x02"
definition metaPageFlag :: u16 where "metaPageFlag = 0x04"
definition freelistPageFlag :: u16 where "freelistPageFlag = 0x10"

definition valueLeafFlag :: u32 where "valueLeafFlag = 0x00"
definition bucketLeafFlag :: u32 where "bucketLeafFlag = 0x01"

definition PAGEHEADERSIZE :: nat where "PAGEHEADERSIZE = 16"
definition MINKEYSPERPAGE :: nat where "MINKEYSPERPAGE = 2"

text \<open>\<open>sizeof\<close> of the two packed element structs.\<close>

definition leafElementSize :: nat where "leafElementSize = 16"
definition branchElementSize :: nat where "branchElementSize = 16"

section \<open>Page header (page.h)\<close>

definition page_id :: "buffer \<Rightarrow> pgid result" where
  "page_id p = get_u64 p 0"
definition page_flag :: "buffer \<Rightarrow> u16 result" where
  "page_flag p = get_u16 p 8"
definition page_count :: "buffer \<Rightarrow> u16 result" where
  "page_count p = get_u16 p 10"
definition page_overflow :: "buffer \<Rightarrow> u32 result" where
  "page_overflow p = get_u32 p 12"

definition set_page_id :: "pgid \<Rightarrow> buffer \<Rightarrow> buffer result" where
  "set_page_id x p = set_u64 p 0 x"
definition set_page_flag :: "u16 \<Rightarrow> buffer \<Rightarrow> buffer result" where
  "set_page_flag x p = set_u16 p 8 x"
definition set_page_count :: "u16 \<Rightarrow> buffer \<Rightarrow> buffer result" where
  "set_page_count x p = set_u16 p 10 x"
definition set_page_overflow :: "u32 \<Rightarrow> buffer \<Rightarrow> buffer result" where
  "set_page_overflow x p = set_u32 p 12 x"

text \<open>\<open>page->flag |= f\<close>\<close>

definition or_page_flag :: "u16 \<Rightarrow> buffer \<Rightarrow> buffer result" where
  "or_page_flag f p = and_then (page_flag p) (\<lambda>x. set_page_flag (x OR f) p)"

section \<open>Leaf elements (type.h, page.h)\<close>

record leafPageElement =
  leaf_flag :: u32
  leaf_pos :: u32
  leaf_ksize :: u32
  leaf_vsize :: u32

text \<open>Offset of element \<open>index\<close> in the page.\<close>

definition leafElementOffset :: "nat \<Rightarrow> nat" where
  "leafElementOffset index = PAGEHEADERSIZE + leafElementSize * index"

definition getLeafPageElement :: "buffer \<Rightarrow> nat \<Rightarrow> leafPageElement result" where
  "getLeafPageElement p index =
     (let e = leafElementOffset index in
      and_then (get_u32 p e) (\<lambda>fl.
      and_then (get_u32 p (e + 4)) (\<lambda>ps.
      and_then (get_u32 p (e + 8)) (\<lambda>ks.
      and_then (get_u32 p (e + 12)) (\<lambda>vs.
      Inr \<lparr>leaf_flag = fl, leaf_pos = ps, leaf_ksize = ks, leaf_vsize = vs\<rparr>)))))"

definition setLeafPageElement :: "buffer \<Rightarrow> nat \<Rightarrow> leafPageElement \<Rightarrow> buffer result" where
  "setLeafPageElement p index el =
     (let e = leafElementOffset index in
      and_then (set_u32 p (e + 4) (leaf_pos el)) (\<lambda>p.
      and_then (set_u32 p e (leaf_flag el)) (\<lambda>p.
      and_then (set_u32 p (e + 8) (leaf_ksize el)) (\<lambda>p.
      set_u32 p (e + 12) (leaf_vsize el)))))"

text \<open>\<open>leafPageElement::read\<close>: bytes at an offset from the element itself.\<close>

definition leafPageElement_read :: "buffer \<Rightarrow> nat \<Rightarrow> u32 \<Rightarrow> u32 \<Rightarrow> item result" where
  "leafPageElement_read p index ps s = Item_buf p (leafElementOffset index + unat ps) s"

definition leafPageElement_key :: "buffer \<Rightarrow> nat \<Rightarrow> item result" where
  "leafPageElement_key p index =
     and_then (getLeafPageElement p index) (\<lambda>el.
       leafPageElement_read p index (leaf_pos el) (leaf_ksize el))"

definition leafPageElement_value :: "buffer \<Rightarrow> nat \<Rightarrow> item result" where
  "leafPageElement_value p index =
     and_then (getLeafPageElement p index) (\<lambda>el.
       leafPageElement_read p index (leaf_pos el + leaf_ksize el) (leaf_vsize el))"

text \<open>\<open>leafPageElement::valuePtr\<close>: where the value's bytes start in the page.\<close>

definition leafPageElement_valuePtr :: "buffer \<Rightarrow> nat \<Rightarrow> nat result" where
  "leafPageElement_valuePtr p index =
     and_then (getLeafPageElement p index) (\<lambda>el.
       Inr (leafElementOffset index + unat (leaf_pos el + leaf_ksize el)))"

section \<open>Branch elements (type.h, page.h)\<close>

record branchPageElement =
  branch_pos :: u32
  branch_ksize :: u32
  branch_pageId :: pgid

definition branchElementOffset :: "nat \<Rightarrow> nat" where
  "branchElementOffset index = PAGEHEADERSIZE + branchElementSize * index"

definition getBranchPageElement :: "buffer \<Rightarrow> nat \<Rightarrow> branchPageElement result" where
  "getBranchPageElement p index =
     (let e = branchElementOffset index in
      and_then (get_u32 p e) (\<lambda>ps.
      and_then (get_u32 p (e + 4)) (\<lambda>ks.
      and_then (get_u64 p (e + 8)) (\<lambda>pg.
      Inr \<lparr>branch_pos = ps, branch_ksize = ks, branch_pageId = pg\<rparr>))))"

definition setBranchPageElement :: "buffer \<Rightarrow> nat \<Rightarrow> branchPageElement \<Rightarrow> buffer result" where
  "setBranchPageElement p index el =
     (let e = branchElementOffset index in
      and_then (set_u32 p e (branch_pos el)) (\<lambda>p.
      and_then (set_u32 p (e + 4) (branch_ksize el)) (\<lambda>p.
      set_u64 p (e + 8) (branch_pageId el))))"

definition branchPageElement_key :: "buffer \<Rightarrow> nat \<Rightarrow> item result" where
  "branchPageElement_key p index =
     and_then (getBranchPageElement p index) (\<lambda>el.
       Item_buf p (branchElementOffset index + unat (branch_pos el)) (branch_ksize el))"

section \<open>Item: lemmas\<close>

lemma item_wf_constructors [simp]:
  "item_wf Item_default"
  "length s < 2 ^ 32 \<Longrightarrow> item_wf (Item_string s)"
  "n < 2 ^ 32 \<Longrightarrow> item_wf (Item_size n)"
  "item_wf (Item_reset i)"
  by (simp_all add: item_wf_def Item_default_def Item_string_def Item_size_def Item_reset_def
      unat_of_nat)

lemma item_wf_Item_buf: "Item_buf buf off len = Inr i \<Longrightarrow> item_wf i"
  by (auto simp: Item_buf_def item_wf_def and_then_Inr_iff dest: length_read_bytes)

lemma item_wf_ext: "item_wf a \<Longrightarrow> item_wf b \<Longrightarrow> item_data a = item_data b \<Longrightarrow> a = b"
  by (cases a; cases b) (simp add: item_wf_def word_unat_eq_iff)

lemma item_wf_length_0: "item_wf i \<Longrightarrow> item_length i = 0 \<longleftrightarrow> item_data i = []"
  by (auto simp: item_wf_def unat_eq_zero)

text \<open>The comparison operators are a total order on the bytes.\<close>

lemma Item_trichotomy: "Item_less a b \<or> Item_eq a b \<or> Item_greater a b"
  by (auto simp: Item_less_def Item_eq_def Item_greater_def)

section \<open>Page header: lemmas\<close>

lemmas header_defs = page_id_def page_flag_def page_count_def page_overflow_def
  set_page_id_def set_page_flag_def set_page_count_def set_page_overflow_def

lemma set_get_other [buffer_simps]:
  "set_u16 p off h = Inr p' \<Longrightarrow> o' + 2 \<le> off \<or> off + 2 \<le> o' \<Longrightarrow> get_u16 p' o' = get_u16 p o'"
  "set_u16 p off h = Inr p' \<Longrightarrow> o' + 4 \<le> off \<or> off + 2 \<le> o' \<Longrightarrow> get_u32 p' o' = get_u32 p o'"
  "set_u16 p off h = Inr p' \<Longrightarrow> o' + 8 \<le> off \<or> off + 2 \<le> o' \<Longrightarrow> get_u64 p' o' = get_u64 p o'"
  "set_u32 p off w = Inr p' \<Longrightarrow> o' + 2 \<le> off \<or> off + 4 \<le> o' \<Longrightarrow> get_u16 p' o' = get_u16 p o'"
  "set_u32 p off w = Inr p' \<Longrightarrow> o' + 4 \<le> off \<or> off + 4 \<le> o' \<Longrightarrow> get_u32 p' o' = get_u32 p o'"
  "set_u32 p off w = Inr p' \<Longrightarrow> o' + 8 \<le> off \<or> off + 4 \<le> o' \<Longrightarrow> get_u64 p' o' = get_u64 p o'"
  "set_u64 p off d = Inr p' \<Longrightarrow> o' + 2 \<le> off \<or> off + 8 \<le> o' \<Longrightarrow> get_u16 p' o' = get_u16 p o'"
  "set_u64 p off d = Inr p' \<Longrightarrow> o' + 4 \<le> off \<or> off + 8 \<le> o' \<Longrightarrow> get_u32 p' o' = get_u32 p o'"
  "set_u64 p off d = Inr p' \<Longrightarrow> o' + 8 \<le> off \<or> off + 8 \<le> o' \<Longrightarrow> get_u64 p' o' = get_u64 p o'"
  unfolding set_defs get_defs by (simp_all add: read_write_other)

lemma set_read_other [buffer_simps]:
  "set_u16 p off h = Inr p' \<Longrightarrow> o' + n \<le> off \<or> off + 2 \<le> o' \<Longrightarrow> read_bytes p' o' n = read_bytes p o' n"
  "set_u32 p off w = Inr p' \<Longrightarrow> o' + n \<le> off \<or> off + 4 \<le> o' \<Longrightarrow> read_bytes p' o' n = read_bytes p o' n"
  "set_u64 p off d = Inr p' \<Longrightarrow> o' + n \<le> off \<or> off + 8 \<le> o' \<Longrightarrow> read_bytes p' o' n = read_bytes p o' n"
  unfolding set_defs by (simp_all add: read_write_other)

lemma write_get_other [buffer_simps]:
  "write_bytes p off bs = Inr p' \<Longrightarrow> o' + 2 \<le> off \<or> off + length bs \<le> o' \<Longrightarrow> get_u16 p' o' = get_u16 p o'"
  "write_bytes p off bs = Inr p' \<Longrightarrow> o' + 4 \<le> off \<or> off + length bs \<le> o' \<Longrightarrow> get_u32 p' o' = get_u32 p o'"
  "write_bytes p off bs = Inr p' \<Longrightarrow> o' + 8 \<le> off \<or> off + length bs \<le> o' \<Longrightarrow> get_u64 p' o' = get_u64 p o'"
  unfolding get_defs by (simp_all add: read_write_other)

text \<open>The header setters write exactly their own field.\<close>

lemma set_page_count_frame:
  assumes "set_page_count x p = Inr p'"
  shows "length p' = length p" and "page_count p' = Inr x" and "page_id p' = page_id p"
    and "page_flag p' = page_flag p" and "page_overflow p' = page_overflow p"
    and "16 \<le> off \<Longrightarrow> read_bytes p' off n = read_bytes p off n"
  using assms by (auto simp: header_defs buffer_simps length_set)

lemma or_page_flag_frame:
  assumes "or_page_flag f p = Inr p'"
  shows "length p' = length p" and "page_count p' = page_count p" and "page_id p' = page_id p"
    and "page_overflow p' = page_overflow p"
    and "16 \<le> off \<Longrightarrow> read_bytes p' off n = read_bytes p off n"
    and "\<exists>x. page_flag p = Inr x \<and> page_flag p' = Inr (x OR f)"
  using assms by (auto simp: or_page_flag_def and_then_Inr_iff header_defs buffer_simps length_set)

lemma or_page_flag_ok: "16 \<le> length p \<Longrightarrow> \<exists>p'. or_page_flag f p = Inr p'"
  using get_ok(1) [of 8 p] set_ok(1) [of 8 p]
  by (fastforce simp: or_page_flag_def header_defs and_then_Inr_iff)

lemma set_page_count_ok: "16 \<le> length p \<Longrightarrow> \<exists>p'. set_page_count x p = Inr p'"
  using set_ok(1) [of 10 p] by (auto simp: header_defs)

lemma or_and_absorb: "(x OR y) AND y = (y :: 'a :: len word)"
  by (rule bit_eqI) (auto simp: bit_and_iff bit_or_iff)

lemma set_page_id_frame:
  assumes "set_page_id x p = Inr p'"
  shows "length p' = length p" and "page_id p' = Inr x" and "page_flag p' = page_flag p"
    and "page_count p' = page_count p" and "page_overflow p' = page_overflow p"
    and "8 \<le> off \<Longrightarrow> read_bytes p' off n = read_bytes p off n"
  using assms by (auto simp: header_defs buffer_simps length_set)

text \<open>The header is a function of the first sixteen bytes.\<close>

lemma header_cong:
  assumes "\<And>o' n. o' + n \<le> 16 \<Longrightarrow> read_bytes p' o' n = read_bytes p o' n"
  shows "page_id p' = page_id p" and "page_flag p' = page_flag p" and "page_count p' = page_count p"
    and "page_overflow p' = page_overflow p"
  using assms [of 0 8] assms [of 8 2] assms [of 10 2] assms [of 12 4] by (simp_all add: header_defs get_defs)

section \<open>Elements: lemmas\<close>

lemma setLeafPageElement_ok:
  assumes "leafElementOffset i + 16 \<le> length p"
  shows "\<exists>p'. setLeafPageElement p i el = Inr p' \<and> length p' = length p"
proof -
  let ?e = "leafElementOffset i"
  from assms obtain p1 where 1: "set_u32 p (?e + 4) (leaf_pos el) = Inr p1" "length p1 = length p"
    using set_ok(2) [of "?e + 4" p "leaf_pos el"] by auto
  from assms 1(2) obtain p2 where 2: "set_u32 p1 ?e (leaf_flag el) = Inr p2" "length p2 = length p"
    using set_ok(2) [of ?e p1 "leaf_flag el"] by auto
  from assms 2(2) obtain p3 where
    3: "set_u32 p2 (?e + 8) (leaf_ksize el) = Inr p3" "length p3 = length p"
    using set_ok(2) [of "?e + 8" p2 "leaf_ksize el"] by auto
  from assms 3(2) obtain p4 where
    4: "set_u32 p3 (?e + 12) (leaf_vsize el) = Inr p4" "length p4 = length p"
    using set_ok(2) [of "?e + 12" p3 "leaf_vsize el"] by auto
  show ?thesis
    by (simp add: setLeafPageElement_def Let_def 1 2 3 4)
qed

lemma setLeafPageElement_frame:
  assumes "setLeafPageElement p i el = Inr p'"
  shows "length p' = length p"
    and "off + n \<le> leafElementOffset i \<or> leafElementOffset i + 16 \<le> off \<Longrightarrow>
           read_bytes p' off n = read_bytes p off n"
    and "getLeafPageElement p' i = Inr el"
  using assms
  by (auto simp: setLeafPageElement_def getLeafPageElement_def Let_def and_then_Inr_iff
      buffer_simps length_set)

lemma get_eqI:
  "(\<And>n. n \<le> 8 \<Longrightarrow> read_bytes p' off n = read_bytes p off n) \<Longrightarrow>
     get_u16 p' off = get_u16 p off \<and> get_u32 p' off = get_u32 p off \<and> get_u64 p' off = get_u64 p off"
  by (simp add: get_defs)

text \<open>An element is a function of its own sixteen bytes.\<close>

lemma getLeafPageElement_cong:
  assumes "\<And>o' n. leafElementOffset i \<le> o' \<Longrightarrow> o' + n \<le> leafElementOffset i + 16 \<Longrightarrow>
             read_bytes p' o' n = read_bytes p o' n"
  shows "getLeafPageElement p' i = getLeafPageElement p i"
proof -
  have "get_u32 p' (leafElementOffset i + k) = get_u32 p (leafElementOffset i + k)" if "k \<le> 12" for k
    using assms [of "leafElementOffset i + k" 4] that by (simp add: get_defs)
  from this [of 0] this [of 4] this [of 8] this [of 12] show ?thesis
    by (simp add: getLeafPageElement_def Let_def)
qed

lemma setBranchPageElement_frame:
  assumes "setBranchPageElement p i el = Inr p'"
  shows "length p' = length p"
    and "off + n \<le> branchElementOffset i \<or> branchElementOffset i + 16 \<le> off \<Longrightarrow>
           read_bytes p' off n = read_bytes p off n"
    and "getBranchPageElement p' i = Inr el"
  using assms
  by (auto simp: setBranchPageElement_def getBranchPageElement_def Let_def and_then_Inr_iff
      buffer_simps length_set)

lemma setBranchPageElement_ok:
  assumes "branchElementOffset i + 16 \<le> length p"
  shows "\<exists>p'. setBranchPageElement p i el = Inr p' \<and> length p' = length p"
proof -
  let ?e = "branchElementOffset i"
  from assms obtain p1 where 1: "set_u32 p ?e (branch_pos el) = Inr p1" "length p1 = length p"
    using set_ok(2) [of ?e p "branch_pos el"] by auto
  from assms 1(2) obtain p2 where
    2: "set_u32 p1 (?e + 4) (branch_ksize el) = Inr p2" "length p2 = length p"
    using set_ok(2) [of "?e + 4" p1 "branch_ksize el"] by auto
  from assms 2(2) obtain p3 where
    3: "set_u64 p2 (?e + 8) (branch_pageId el) = Inr p3" "length p3 = length p"
    using set_ok(3) [of "?e + 8" p2 "branch_pageId el"] by auto
  show ?thesis
    by (simp add: setBranchPageElement_def Let_def 1 2 3)
qed

lemma getBranchPageElement_cong:
  assumes "\<And>o' n. branchElementOffset i \<le> o' \<Longrightarrow> o' + n \<le> branchElementOffset i + 16 \<Longrightarrow>
             read_bytes p' o' n = read_bytes p o' n"
  shows "getBranchPageElement p' i = getBranchPageElement p i"
  using assms [of "branchElementOffset i" 4] assms [of "branchElementOffset i + 4" 4]
    assms [of "branchElementOffset i + 8" 8]
  by (simp add: getBranchPageElement_def Let_def get_defs)

end
