(* ===== verification/Key_Search.thy ===== *)
theory Key_Search
  imports Page_Layout
begin

text \<open>
  The contract of the three binary searches of the program (\<open>Node::binarySearch\<close>,
  \<open>Cursor::binarySearchLeaf\<close>, \<open>Cursor::binarySearchBranch\<close>): they run the same loop over
  different containers. The locale fixes a container, the keys it holds and the loop, and
  proves once what the loop computes on ascending keys. The index variables are natural
  numbers; \<open>midpoint_no_wrap\<close> shows that for at most \<open>2 ^ 31\<close> elements (a page holds at most
  65535, and \<open>Node::write\<close> refuses more) the 32-bit computation of the midpoint agrees.
\<close>

section \<open>Where a key belongs\<close>

text \<open>The number of keys below \<open>k\<close>: the index of \<open>k\<close>, or of its successor.\<close>

definition lower_bound :: "'k :: linorder list \<Rightarrow> 'k \<Rightarrow> nat" where
  "lower_bound ks k = length (takeWhile (\<lambda>x. x < k) ks)"

lemma lower_bound_le: "lower_bound ks k \<le> length ks"
  by (simp add: lower_bound_def length_takeWhile_le)

lemma lower_bound_eqI:
  assumes "i \<le> length ks" and "\<And>j. j < i \<Longrightarrow> ks ! j < k" and "i < length ks \<Longrightarrow> \<not> ks ! i < k"
  shows "lower_bound ks k = i"
proof -
  have "takeWhile (\<lambda>x. x < k) ks = take i ks"
    using assms by (intro takeWhile_eq_take_P_nth) auto
  then show ?thesis using assms(1) by (simp add: lower_bound_def)
qed

lemma lower_bound_less: "j < lower_bound ks k \<Longrightarrow> ks ! j < k"
  unfolding lower_bound_def
  by (metis (mono_tags, lifting) nth_mem set_takeWhileD takeWhile_nth)

lemma lower_bound_ge:
  assumes "ascending ks" and "lower_bound ks k \<le> j" and "j < length ks"
  shows "k \<le> ks ! j"
proof -
  let ?i = "lower_bound ks k"
  have "?i < length ks" using assms by simp
  then have "\<not> ks ! ?i < k"
    unfolding lower_bound_def by (rule nth_length_takeWhile)
  moreover have "ks ! ?i \<le> ks ! j"
    using assms by (cases "?i = j") (auto simp: sorted_wrt_iff_nth_less less_imp_le)
  ultimately show ?thesis by simp
qed

text \<open>On ascending keys the position tells whether the key is present.\<close>

lemma lower_bound_mem:
  assumes "ascending ks"
  shows "k \<in> set ks \<longleftrightarrow> lower_bound ks k < length ks \<and> ks ! lower_bound ks k = k"
proof
  assume "k \<in> set ks"
  then obtain j where j: "j < length ks" "ks ! j = k" by (auto simp: in_set_conv_nth)
  have "lower_bound ks k = j"
    using assms j by (intro lower_bound_eqI) (auto simp: sorted_wrt_iff_nth_less)
  then show "lower_bound ks k < length ks \<and> ks ! lower_bound ks k = k" using j by simp
qed (metis nth_mem)

section \<open>The midpoint at 32 bits\<close>

lemma midpoint_no_wrap:
  assumes "b < e" and "e \<le> 2 ^ 31"
  shows "unat ((of_nat b + of_nat e) div 2 :: u32) = (b + e) div 2"
proof -
  have "unat (of_nat b + of_nat e :: u32) = b + e"
    using assms by (simp add: unat_word_ariths unat_of_nat)
  then show ?thesis by (simp add: unat_div)
qed

section \<open>The contract\<close>

locale key_search =
  fixes keys :: "'c \<Rightarrow> byte list list option"
    and loop :: "'c \<Rightarrow> item \<Rightarrow> nat \<Rightarrow> nat \<Rightarrow> (nat \<times> bool) result"
  assumes loop_unfold: "keys c = Some ks \<Longrightarrow> e \<le> length ks \<Longrightarrow>
    loop c key b e =
      (if b < e then
         let mid = (b + e) div 2 in
         if item_data key < ks ! mid then loop c key b mid
         else if ks ! mid = item_data key then Inr (mid, True)
         else loop c key (mid + 1) e
       else Inr (e, False))"
begin

lemma loop_spec:
  assumes "keys c = Some ks" and "ascending ks" and "b \<le> e" and "e \<le> length ks"
    and "\<And>j. j < b \<Longrightarrow> ks ! j < item_data key"
    and "\<And>j. e \<le> j \<Longrightarrow> j < length ks \<Longrightarrow> item_data key < ks ! j"
  shows "loop c key b e = Inr (lower_bound ks (item_data key), item_data key \<in> set ks)"
  using assms
proof (induction "e - b" arbitrary: b e rule: less_induct)
  case less
  let ?k = "item_data key"
  note asc = less.prems(2)
  show ?case
  proof (cases "b < e")
    case False
    then have "lower_bound ks ?k = e"
      using less.prems(3-5) less.prems(6) [of e] by (intro lower_bound_eqI) auto
    moreover from this have "?k \<notin> set ks"
      using less.prems(6) [of e] by (auto simp: lower_bound_mem [OF asc])
    ultimately show ?thesis using False less.prems loop_unfold [OF less.prems(1,4)] by simp
  next
    case True
    let ?mid = "(b + e) div 2"
    have mid: "b \<le> ?mid" "?mid < e" "?mid < length ks" using True less.prems(4) by auto
    have lt: "ks ! i < ks ! j" if "i < j" "j < length ks" for i j
      using asc that by (simp add: sorted_wrt_iff_nth_less)
    consider "?k < ks ! ?mid" | "ks ! ?mid = ?k" | "ks ! ?mid < ?k" by fastforce
    then show ?thesis
    proof cases
      case 1
      then have "loop c key b ?mid = Inr (lower_bound ks ?k, ?k \<in> set ks)"
        using less.prems mid lt
        by (intro less.hyps) (auto simp: le_less intro: less_trans)
      then show ?thesis using 1 True loop_unfold [OF less.prems(1,4)] by (simp add: Let_def)
    next
      case 2
      have "ks ! j < ?k" if "j < ?mid" for j
        using lt [OF that mid(3)] 2 by simp
      then have "lower_bound ks ?k = ?mid"
        using mid 2 by (intro lower_bound_eqI) auto
      then show ?thesis
        using 2 True mid loop_unfold [OF less.prems(1,4)] lower_bound_mem [OF asc, of ?k]
        by (simp add: Let_def)
    next
      case 3
      have "ks ! j < ?k" if "j < ?mid + 1" for j
        using that 3 lt [of j ?mid] mid by (cases "j = ?mid") (auto intro: less_trans)
      then have "loop c key (?mid + 1) e = Inr (lower_bound ks ?k, ?k \<in> set ks)"
        using less.prems mid by (intro less.hyps) auto
      then show ?thesis using 3 True loop_unfold [OF less.prems(1,4)] by (auto simp: Let_def)
    qed
  qed
qed

text \<open>The search over the whole container.\<close>

lemma search_spec:
  "keys c = Some ks \<Longrightarrow> ascending ks \<Longrightarrow>
     loop c key 0 (length ks) = Inr (lower_bound ks (item_data key), item_data key \<in> set ks)"
  by (rule loop_spec) auto

end

end
