(* ===== verification/Node.thy ===== *)
theory Node
  imports Key_Search
begin

unbundle bit_operations_syntax

text \<open>
  The in-memory B+ tree node of \<open>src/src/Bolt/node.h\<close> and \<open>node.cc\<close>: its data, the operations on
  one node (search, insertion, deletion, sizes, split position) and its (de)serialisation.
  The operations that follow pointers to other nodes are in \<open>Node_Heap\<close>. Sizes are 32-bit
  numbers that wrap around as the code's \<open>uint32_t\<close> do.
\<close>

section \<open>Data\<close>

datatype node_ptr = NodePtr nat
datatype bucket_ptr = BucketPtr nat

record inode =
  inode_flag :: u32
  inode_pageId :: pgid
  inode_key :: item
  inode_value :: item

definition Inode_default :: inode where
  "Inode_default = \<lparr>inode_flag = 0, inode_pageId = 0, inode_key = Item_default, inode_value = Item_default\<rparr>"

record node =
  node_bucket :: bucket_ptr
  isLeaf :: bool
  unbalanced :: bool
  spilled :: bool
  node_key :: item
  node_pageId :: pgid
  parentNode :: "node_ptr option"
  children :: "node_ptr list"
  inodeList :: "inode list"

definition Node_new :: "bucket_ptr \<Rightarrow> node_ptr option \<Rightarrow> node" where
  "Node_new b parent = \<lparr>node_bucket = b, isLeaf = False, unbalanced = False, spilled = False,
     node_key = Item_default, node_pageId = 0, parentNode = parent, children = [], inodeList = []\<rparr>"

definition markLeaf :: "node \<Rightarrow> node" where
  "markLeaf n = n\<lparr>isLeaf := True\<rparr>"

definition numChildren :: "node \<Rightarrow> nat" where
  "numChildren n = length (inodeList n)"

definition getInode :: "node \<Rightarrow> nat \<Rightarrow> inode result" where
  "getInode n idx = (if idx < length (inodeList n) then Inr (inodeList n ! idx) else Inl OutOfBounds)"

definition branchPageIds :: "node \<Rightarrow> pgid list" where
  "branchPageIds n = map inode_pageId (inodeList n)"

definition minKeys :: "node \<Rightarrow> nat" where
  "minKeys n = (if isLeaf n then 1 else 2)"

section \<open>Search\<close>

function binarySearch_loop :: "inode list \<Rightarrow> item \<Rightarrow> nat \<Rightarrow> nat \<Rightarrow> nat \<times> bool" where
  "binarySearch_loop arr key b e =
     (if b < e then
        let mid = (b + e) div 2 in
        if item_data key < item_data (inode_key (arr ! mid)) then binarySearch_loop arr key b mid
        else if item_data (inode_key (arr ! mid)) = item_data key then (mid, True)
        else binarySearch_loop arr key (mid + 1) e
      else (e, False))"
  by pat_completeness auto
termination
  by (relation "measure (\<lambda>(arr, key, b, e). e - b)") auto

declare binarySearch_loop.simps [simp del]

definition binarySearch :: "inode list \<Rightarrow> item \<Rightarrow> nat \<times> bool" where
  "binarySearch arr key = binarySearch_loop arr key 0 (length arr)"

definition Node_search :: "node \<Rightarrow> item \<Rightarrow> nat \<times> bool" where
  "Node_search n key = binarySearch (inodeList n) key"

section \<open>Insertion and deletion\<close>

text \<open>
  \<open>Node::put\<close>. \<open>totalPages\<close> is what \<open>bucket_->getTotalPageNumber()\<close> returns, a 32-bit number.
\<close>

definition Node_put :: "u32 \<Rightarrow> item \<Rightarrow> item \<Rightarrow> item \<Rightarrow> pgid \<Rightarrow> u32 \<Rightarrow> node \<Rightarrow> bool \<times> node" where
  "Node_put totalPages oldKey newKey val pid flag n =
     (if ucast totalPages \<le> pid then (False, n)
      else if item_length oldKey = 0 \<or> item_length newKey = 0 then (False, n)
      else
        let (index, found) = binarySearch (inodeList n) oldKey;
            xs = (if found then inodeList n
                  else take index (inodeList n) @ [Inode_default] @ drop index (inodeList n));
            target = (xs ! index)\<lparr>inode_flag := flag, inode_key := newKey,
                        inode_value := val, inode_pageId := pid\<rparr>
        in (True, n\<lparr>inodeList := xs[index := target]\<rparr>))"

text \<open>\<open>vector::erase\<close> at an index.\<close>

definition erase_at :: "nat \<Rightarrow> 'a list \<Rightarrow> 'a list" where
  "erase_at i xs = take i xs @ drop (Suc i) xs"

definition Node_del :: "item \<Rightarrow> node \<Rightarrow> bool \<times> node" where
  "Node_del key n =
     (let (it, found) = binarySearch (inodeList n) key in
      if \<not> found then (True, n)
      else (True, n\<lparr>inodeList := erase_at it (inodeList n), unbalanced := True\<rparr>))"

definition Node_do_remove :: "item \<Rightarrow> node \<Rightarrow> node" where
  "Node_do_remove key n =
     (let (index, found) = binarySearch (inodeList n) key in
      if \<not> found then n
      else n\<lparr>inodeList := erase_at index (inodeList n), unbalanced := True\<rparr>)"

section \<open>Sizes\<close>

definition pageElementSize :: "node \<Rightarrow> nat" where
  "pageElementSize n = (if isLeaf n then leafElementSize else branchElementSize)"

definition elementSize :: "node \<Rightarrow> inode \<Rightarrow> u32" where
  "elementSize n i = of_nat (pageElementSize n) + item_length (inode_key i) + item_length (inode_value i)"

definition Node_size :: "node \<Rightarrow> u32" where
  "Node_size n = fold (\<lambda>i size. size + elementSize n i) (inodeList n) (of_nat PAGEHEADERSIZE)"

fun sizeLessThan_loop :: "node \<Rightarrow> u32 \<Rightarrow> inode list \<Rightarrow> u32 \<Rightarrow> bool" where
  "sizeLessThan_loop n s [] sz = True"
| "sizeLessThan_loop n s (i # is) sz =
     (let sz = sz + elementSize n i in if s \<le> sz then False else sizeLessThan_loop n s is sz)"

definition sizeLessThan :: "node \<Rightarrow> u32 \<Rightarrow> bool" where
  "sizeLessThan n s = sizeLessThan_loop n s (inodeList n) (of_nat PAGEHEADERSIZE)"

fun isinlineable_loop :: "u32 \<Rightarrow> inode list \<Rightarrow> u32 \<Rightarrow> bool" where
  "isinlineable_loop maxsz [] s = True"
| "isinlineable_loop maxsz (i # is) s =
     (let s = s + (of_nat leafElementSize + item_length (inode_key i) + item_length (inode_value i)) in
      if inode_flag i AND bucketLeafFlag \<noteq> 0 then False
      else if maxsz < s then False
      else isinlineable_loop maxsz is s)"

definition Node_isinlineable :: "u32 \<Rightarrow> node \<Rightarrow> bool" where
  "Node_isinlineable maxsz n = isinlineable_loop maxsz (inodeList n) (of_nat PAGEHEADERSIZE)"

section \<open>Split position\<close>

text \<open>
  \<open>Node::splitIndex\<close>: \<open>is\<close> are the inodes from index \<open>i\<close> on, cut off before the last
  \<open>MINKEYSPERPAGE\<close>. With fewer than two inodes the bound \<open>size() - MINKEYSPERPAGE\<close> wraps
  around and the loop leaves the vector.
\<close>

fun splitIndex_loop :: "node \<Rightarrow> u32 \<Rightarrow> inode list \<Rightarrow> nat \<Rightarrow> nat \<Rightarrow> u32 \<Rightarrow> nat" where
  "splitIndex_loop n threshold [] i index sz = index"
| "splitIndex_loop n threshold (x # xs) i index sz =
     (let index = i; es = elementSize n x in
      if MINKEYSPERPAGE \<le> i \<and> threshold < sz + es then index
      else splitIndex_loop n threshold xs (Suc i) index (sz + es))"

definition splitIndex :: "node \<Rightarrow> u32 \<Rightarrow> nat result" where
  "splitIndex n threshold =
     (let xs = inodeList n in
      if length xs < MINKEYSPERPAGE then Inl OutOfBounds
      else Inr (splitIndex_loop n threshold (take (length xs - MINKEYSPERPAGE) xs) 0 0 (of_nat PAGEHEADERSIZE)))"

section \<open>Serialisation\<close>

text \<open>The bytes \<open>memcpy\<close> takes from an item; \<open>data()\<close> ends with a terminating zero.\<close>

definition item_bytes :: "item \<Rightarrow> byte list result" where
  "item_bytes i = read_bytes (item_data i @ [0]) 0 (unat (item_length i))"

text \<open>
  The loop of \<open>Node::write\<close>. \<open>off\<close> is \<open>contentPtr\<close> as an offset in the page. For a branch
  the code computes \<open>contentPtr - (char *)&item\<close>, where \<open>item\<close> is the local pointer variable:
  the result depends on the page's address \<open>pageAddr\<close> and on the address \<open>itemAddr\<close> of that
  variable on the stack, which the environment chooses.
\<close>

fun write_inodes :: "u64 \<Rightarrow> u64 \<Rightarrow> bool \<Rightarrow> inode list \<Rightarrow> nat \<Rightarrow> nat \<Rightarrow> buffer \<Rightarrow> buffer result" where
  "write_inodes pageAddr itemAddr leaf [] i off p = Inr p"
| "write_inodes pageAddr itemAddr leaf (x # xs) i off p =
     and_then
       (if leaf then
          setLeafPageElement p i
            \<lparr>leaf_flag = inode_flag x, leaf_pos = of_nat (off - leafElementOffset i),
             leaf_ksize = item_length (inode_key x), leaf_vsize = item_length (inode_value x)\<rparr>
        else
          setBranchPageElement p i
            \<lparr>branch_pos = ucast (pageAddr + of_nat off - itemAddr),
             branch_ksize = item_length (inode_key x), branch_pageId = inode_pageId x\<rparr>) (\<lambda>p.
     and_then (item_bytes (inode_key x)) (\<lambda>kb.
     and_then (write_bytes p off kb) (\<lambda>p.
     and_then (item_bytes (inode_value x)) (\<lambda>vb.
     and_then (write_bytes p (off + length kb) vb) (\<lambda>p.
     write_inodes pageAddr itemAddr leaf xs (Suc i) (off + length kb + length vb) p)))))"

definition Node_write :: "u64 \<Rightarrow> u64 \<Rightarrow> node \<Rightarrow> buffer \<Rightarrow> buffer result" where
  "Node_write pageAddr itemAddr n p =
     and_then (or_page_flag (if isLeaf n then leafPageFlag else branchPageFlag) p) (\<lambda>p.
     and_then (check (length (inodeList n) \<le> 0xffff) LogFatal) (\<lambda>_.
     and_then (set_page_count (of_nat (length (inodeList n))) p) (\<lambda>p.
     if inodeList n = [] then Inr p
     else write_inodes pageAddr itemAddr (isLeaf n) (inodeList n) 0
            (PAGEHEADERSIZE + length (inodeList n) * pageElementSize n) p)))"

text \<open>\<open>Node::read\<close> updates the inodes of the resized vector in place.\<close>

definition read_inode :: "buffer \<Rightarrow> bool \<Rightarrow> nat \<Rightarrow> inode \<Rightarrow> inode result" where
  "read_inode p leaf i it =
     (if leaf then
        and_then (getLeafPageElement p i) (\<lambda>el.
        and_then (leafPageElement_key p i) (\<lambda>k.
        and_then (leafPageElement_value p i) (\<lambda>v.
        Inr (it\<lparr>inode_flag := leaf_flag el, inode_key := k, inode_value := v\<rparr>))))
      else
        and_then (getBranchPageElement p i) (\<lambda>el.
        and_then (branchPageElement_key p i) (\<lambda>k.
        Inr (it\<lparr>inode_pageId := branch_pageId el, inode_key := k\<rparr>))))"

fun read_inodes :: "buffer \<Rightarrow> bool \<Rightarrow> nat \<Rightarrow> inode list \<Rightarrow> inode list result" where
  "read_inodes p leaf i [] = Inr []"
| "read_inodes p leaf i (it # its) =
     and_then (read_inode p leaf i it) (\<lambda>x.
     and_then (read_inodes p leaf (Suc i) its) (\<lambda>xs. Inr (x # xs)))"

definition resize :: "nat \<Rightarrow> inode list \<Rightarrow> inode list" where
  "resize c xs = take c xs @ replicate (c - length xs) Inode_default"

definition Node_read :: "buffer \<Rightarrow> node \<Rightarrow> node result" where
  "Node_read p n =
     and_then (page_id p) (\<lambda>pid.
     and_then (page_flag p) (\<lambda>fl.
     and_then (page_count p) (\<lambda>cnt.
     let leaf = (fl AND leafPageFlag \<noteq> 0) in
     and_then (read_inodes p leaf 0 (resize (unat cnt) (inodeList n))) (\<lambda>xs.
     let n = n\<lparr>node_pageId := pid, isLeaf := leaf, inodeList := xs\<rparr> in
     case xs of
       [] \<Rightarrow> Inr (n\<lparr>node_key := Item_reset (node_key n)\<rparr>)
     | x # _ \<Rightarrow>
         and_then (check (\<not> Item_empty (inode_key x)) AssertFail) (\<lambda>_.
         Inr (n\<lparr>node_key := inode_key x\<rparr>))))))"

end
