(* ===== verification/Meta.thy ===== *)
theory Meta
  imports Page_Layout
begin

unbundle bit_operations_syntax

text \<open>
  The meta record of \<open>src/src/Bolt/meta.h\<close>, \<open>meta.cc\<close> and \<open>db.cc\<close> (\<open>meta::validate\<close>,
  \<open>DB::getMeta\<close>): its packed 64-byte layout, validation, the alternation between the two meta
  pages and the choice of the newest valid one.
\<close>

section \<open>Data\<close>

record bucketHeader =
  bh_root :: pgid
  bh_sequence :: u64

definition bucketHeader_reset :: "bucketHeader \<Rightarrow> bucketHeader" where
  "bucketHeader_reset h = h\<lparr>bh_root := 0, bh_sequence := 0\<rparr>"

definition BUCKETHEADERSIZE :: nat where "BUCKETHEADERSIZE = 16"

definition bucketHeader_bytes :: "bucketHeader \<Rightarrow> byte list" where
  "bucketHeader_bytes h = le_bytes 8 (unat (bh_root h)) @ le_bytes 8 (unat (bh_sequence h))"

definition read_bucketHeader :: "buffer \<Rightarrow> nat \<Rightarrow> bucketHeader result" where
  "read_bucketHeader p off =
     and_then (get_u64 p off) (\<lambda>r.
     and_then (get_u64 p (off + 8)) (\<lambda>s.
     Inr \<lparr>bh_root = r, bh_sequence = s\<rparr>))"

record meta =
  magic :: u32
  version :: u32
  meta_pageSize :: u32
  meta_flags :: u32
  meta_root :: bucketHeader
  freeListPageNumber :: pgid
  totalPageNumber :: pgid
  meta_txid :: txid
  checksum :: u64

definition MAGIC :: u32 where "MAGIC = 0xED0CDAED"
definition VERSION :: u32 where "VERSION = 1"

section \<open>Operations\<close>

definition sum64 :: "meta \<Rightarrow> u64" where
  "sum64 m = 0"

definition validate :: "meta \<Rightarrow> bool" where
  "validate m =
     (if magic m \<noteq> MAGIC \<or> version m \<noteq> VERSION then False
      else if checksum m \<noteq> 0 then checksum m = sum64 m else True)"

text \<open>The bytes of the packed struct, and reading it through \<open>Page::metaPtr\<close>.\<close>

definition meta_bytes :: "meta \<Rightarrow> byte list" where
  "meta_bytes m =
     le_bytes 4 (unat (magic m)) @ le_bytes 4 (unat (version m)) @
     le_bytes 4 (unat (meta_pageSize m)) @ le_bytes 4 (unat (meta_flags m)) @
     bucketHeader_bytes (meta_root m) @ le_bytes 8 (unat (freeListPageNumber m)) @
     le_bytes 8 (unat (totalPageNumber m)) @ le_bytes 8 (unat (meta_txid m)) @
     le_bytes 8 (unat (checksum m))"

definition metaPtr :: nat where "metaPtr = PAGEHEADERSIZE"

definition read_meta :: "buffer \<Rightarrow> meta result" where
  "read_meta p =
     and_then (get_u32 p metaPtr) (\<lambda>mg.
     and_then (get_u32 p (metaPtr + 4)) (\<lambda>ve.
     and_then (get_u32 p (metaPtr + 8)) (\<lambda>ps.
     and_then (get_u32 p (metaPtr + 12)) (\<lambda>fl.
     and_then (read_bucketHeader p (metaPtr + 16)) (\<lambda>rt.
     and_then (get_u64 p (metaPtr + 32)) (\<lambda>fp.
     and_then (get_u64 p (metaPtr + 40)) (\<lambda>tp.
     and_then (get_u64 p (metaPtr + 48)) (\<lambda>tx.
     and_then (get_u64 p (metaPtr + 56)) (\<lambda>cs.
     Inr \<lparr>magic = mg, version = ve, meta_pageSize = ps, meta_flags = fl, meta_root = rt,
          freeListPageNumber = fp, totalPageNumber = tp, meta_txid = tx, checksum = cs\<rparr>)))))))))"

definition store_meta :: "meta \<Rightarrow> buffer \<Rightarrow> buffer result" where
  "store_meta m p = write_bytes p metaPtr (meta_bytes m)"

text \<open>\<open>meta::write\<close>: the page, and the meta with its checksum cleared.\<close>

definition meta_write :: "meta \<Rightarrow> buffer \<Rightarrow> (meta \<times> buffer) result" where
  "meta_write m p =
     and_then (check (bh_root (meta_root m) < totalPageNumber m) AssertFail) (\<lambda>_.
     and_then (check (freeListPageNumber m < totalPageNumber m) AssertFail) (\<lambda>_.
     and_then (set_page_id (meta_txid m mod 2) p) (\<lambda>p.
     and_then (or_page_flag metaPageFlag p) (\<lambda>p.
     let m = m\<lparr>checksum := 0\<rparr> in
     and_then (store_meta m p) (\<lambda>p. Inr (m, p))))))"

text \<open>\<open>DB::getMeta\<close> on the metas of pages 0 and 1.\<close>

definition getMeta :: "meta \<Rightarrow> meta \<Rightarrow> meta result" where
  "getMeta meta0 meta1 =
     (let (m0, m1) = (if meta_txid meta0 < meta_txid meta1 then (meta1, meta0) else (meta0, meta1)) in
      if validate m0 then Inr m0
      else if validate m1 then Inr m1
      else Inl AssertFail)"

section \<open>Layout: lemmas\<close>

lemma read_bytes_sub:
  assumes "read_bytes p off n = Inr bs" and "k + j \<le> n"
  shows "read_bytes p (off + k) j = Inr (take j (drop k bs))"
  using assms by (auto simp: read_bytes_def drop_take add.commute min_def split: if_splits)

lemma get_sub:
  assumes "read_bytes p off n = Inr bs"
  shows "k + 4 \<le> n \<Longrightarrow> get_u32 p (off + k) = Inr (of_nat (le_nat (take 4 (drop k bs))))"
    and "k + 8 \<le> n \<Longrightarrow> get_u64 p (off + k) = Inr (of_nat (le_nat (take 8 (drop k bs))))"
  using read_bytes_sub [OF assms] by (simp_all add: get_defs)

lemma of_nat_unat_id [simp]: "(of_nat (unat x) :: 'a :: len word) = x"
  by (simp add: of_nat_unat ucast_id)

lemma length_meta_bytes [simp]: "length (meta_bytes m) = 64"
  by (simp add: meta_bytes_def bucketHeader_bytes_def)

lemma read_meta_bytes:
  assumes "read_bytes p metaPtr 64 = Inr (meta_bytes m)"
  shows "read_meta p = Inr m"
  using get_sub [OF assms, of 0] get_sub [OF assms, of 4] get_sub [OF assms, of 8]
    get_sub [OF assms, of 12] get_sub [OF assms, of 16] get_sub [OF assms, of 24]
    get_sub [OF assms, of 32] get_sub [OF assms, of 40] get_sub [OF assms, of 48] get_sub [OF assms, of 56]
  by (simp add: read_meta_def read_bucketHeader_def add.assoc meta_bytes_def bucketHeader_bytes_def)

lemma store_meta_spec:
  assumes "80 \<le> length p"
  shows "\<exists>p'. store_meta m p = Inr p' \<and> length p' = length p \<and> read_meta p' = Inr m \<and>
    (\<forall>o' n. o' + n \<le> 16 \<or> 80 \<le> o' \<longrightarrow> read_bytes p' o' n = read_bytes p o' n)"
proof -
  obtain p' where p': "store_meta m p = Inr p'" "length p' = length p"
    using write_bytes_ok [of metaPtr "meta_bytes m" p] assms
    by (auto simp: store_meta_def metaPtr_def PAGEHEADERSIZE_def)
  have w: "write_bytes p metaPtr (meta_bytes m) = Inr p'" using p'(1) by (simp add: store_meta_def)
  have "read_meta p' = Inr m"
    by (rule read_meta_bytes) (rule read_write_same [OF w], simp)
  then show ?thesis
    using p' read_write_other [OF w] by (auto simp: metaPtr_def PAGEHEADERSIZE_def)
qed

section \<open>Writing: lemmas\<close>

lemma meta_write_spec:
  assumes "bh_root (meta_root m) < totalPageNumber m" and "freeListPageNumber m < totalPageNumber m"
    and "80 \<le> length p"
  shows "\<exists>p'. meta_write m p = Inr (m\<lparr>checksum := 0\<rparr>, p') \<and> length p' = length p \<and>
    read_meta p' = Inr (m\<lparr>checksum := 0\<rparr>) \<and> page_id p' = Inr (meta_txid m mod 2) \<and>
    (\<exists>fl. page_flag p = Inr fl \<and> page_flag p' = Inr (fl OR metaPageFlag))"
proof -
  obtain a where a: "set_page_id (meta_txid m mod 2) p = Inr a"
    using set_ok(3) [of 0 p] assms(3) by (auto simp: set_page_id_def)
  note fa = set_page_id_frame [OF a]
  obtain b where b: "or_page_flag metaPageFlag a = Inr b"
    using or_page_flag_ok [of a] assms(3) fa(1) by auto
  note fb = or_page_flag_frame [OF b]
  obtain c where c: "store_meta (m\<lparr>checksum := 0\<rparr>) b = Inr c" "length c = length b"
      "read_meta c = Inr (m\<lparr>checksum := 0\<rparr>)" "\<And>o' n. o' + n \<le> 16 \<Longrightarrow> read_bytes c o' n = read_bytes b o' n"
    using store_meta_spec [of b "m\<lparr>checksum := 0\<rparr>"] assms(3) fa(1) fb(1) by auto
  show ?thesis
    using assms a b c fa fb header_cong [OF c(4)]
    by (intro exI [of _ c]) (auto simp: meta_write_def Let_def)
qed

section \<open>Properties\<close>

definition meta_ok :: "meta \<Rightarrow> bool" where
  "meta_ok m \<longleftrightarrow> magic m = MAGIC \<and> version m = VERSION \<and>
     bh_root (meta_root m) < totalPageNumber m \<and> freeListPageNumber m < totalPageNumber m"

text \<open>
  C23: \<open>meta::write\<close> of a well-formed meta into a page of at least 80 bytes succeeds; the page gets
  the id \<open>txid % 2\<close> and the meta flag, and reading the page back gives the same meta with checksum
  0, which validates.
\<close>

theorem meta_write_read:
  assumes "meta_ok m" and "80 \<le> length p"
  shows "\<exists>p' m'. meta_write m p = Inr (m', p') \<and> read_meta p' = Inr m' \<and> m' = m\<lparr>checksum := 0\<rparr> \<and>
    validate m' \<and> page_id p' = Inr (meta_txid m mod 2) \<and>
    (\<exists>fl. page_flag p' = Inr fl \<and> fl AND metaPageFlag = metaPageFlag)"
proof -
  obtain p' fl where p': "meta_write m p = Inr (m\<lparr>checksum := 0\<rparr>, p')"
      "read_meta p' = Inr (m\<lparr>checksum := 0\<rparr>)" "page_id p' = Inr (meta_txid m mod 2)"
      "page_flag p' = Inr (fl OR metaPageFlag)"
    using meta_write_spec [of m p] assms by (auto simp: meta_ok_def)
  then show ?thesis using assms(1) by (simp add: meta_ok_def validate_def or_and_absorb)
qed

definition meta_example :: meta where
  "meta_example = \<lparr>magic = MAGIC, version = VERSION, meta_pageSize = 4096, meta_flags = 0,
     meta_root = \<lparr>bh_root = 3, bh_sequence = 0\<rparr>, freeListPageNumber = 2, totalPageNumber = 4,
     meta_txid = 7, checksum = 0\<rparr>"

lemma meta_example_ok: "meta_ok meta_example"
  by (simp add: meta_example_def meta_ok_def)

theorem meta_write_read_witness:
  "\<exists>p'. meta_write meta_example (replicate 4096 0) = Inr (meta_example, p') \<and>
     read_meta p' = Inr meta_example \<and> page_id p' = Inr 1"
  using meta_write_read [OF meta_example_ok, of "replicate 4096 0"] by (auto simp: meta_example_def)

text \<open>
  \<open>meta::write\<close> stops with an assertion, before it touches the page, exactly when the root
  page or the freelist page is not below the number of pages.
\<close>

theorem meta_write_asserts:
  assumes "80 \<le> length p"
  shows "meta_write m p = Inl AssertFail \<longleftrightarrow>
    totalPageNumber m \<le> bh_root (meta_root m) \<or> totalPageNumber m \<le> freeListPageNumber m"
proof (cases "bh_root (meta_root m) < totalPageNumber m \<and> freeListPageNumber m < totalPageNumber m")
  case True
  then show ?thesis using meta_write_spec [of m p] assms by auto
next
  case False
  then show ?thesis by (auto simp: meta_write_def check_def not_less)
qed

theorem meta_write_asserts_witness:
  "meta_write (meta_example\<lparr>totalPageNumber := 3\<rparr>) (replicate 80 0) = Inl AssertFail"
  using meta_write_asserts [of "replicate 80 0" "meta_example\<lparr>totalPageNumber := 3\<rparr>"]
  by (simp add: meta_example_def)

lemma getMeta_total: "getMeta m0 m1 = Inl AssertFail \<or> (\<exists>m. getMeta m0 m1 = Inr m)"
  by (simp add: getMeta_def)

text \<open>
  C22: \<open>DB::getMeta\<close> returns one of the two metas, a valid one, with the highest transaction id
  among the valid ones; it fails exactly when neither validates.
\<close>

theorem getMeta_newest_valid:
  "(getMeta m0 m1 = Inl AssertFail \<longleftrightarrow> \<not> validate m0 \<and> \<not> validate m1) \<and>
   (\<forall>m. getMeta m0 m1 = Inr m \<longrightarrow> m \<in> {m0, m1} \<and> validate m \<and>
      (\<forall>x \<in> {m0, m1}. validate x \<longrightarrow> meta_txid x \<le> meta_txid m))"
  by (auto simp: getMeta_def)

theorem getMeta_newest_valid_witness:
  "getMeta meta_example (meta_example\<lparr>meta_txid := 8, version := 9\<rparr>) = Inr meta_example"
proof -
  let ?bad = "meta_example\<lparr>meta_txid := 8, version := 9\<rparr>"
  have v: "validate meta_example" "\<not> validate ?bad"
    by (simp_all add: validate_def meta_example_def VERSION_def)
  have "getMeta meta_example ?bad \<noteq> Inl AssertFail"
    using getMeta_newest_valid [of meta_example ?bad] v by blast
  then obtain m where m: "getMeta meta_example ?bad = Inr m"
    using getMeta_total [of meta_example ?bad] by blast
  then have "m \<in> {meta_example, ?bad}" "validate m"
    using getMeta_newest_valid [of meta_example ?bad] by blast+
  then have "m = meta_example" using v(2) by blast
  then show ?thesis using m by simp
qed

text \<open>The next transaction writes the other meta page.\<close>

lemma unat_numeral_2: "unat (2 :: u64) = 2"
  by simp

lemma getMeta_valid: "getMeta m0 m1 = Inr m \<Longrightarrow> validate m"
  by (auto simp: getMeta_def split: if_splits)

lemma slot_alternates:
  assumes "(t :: u64) \<noteq> - 1"
  shows "(t + 1) mod 2 = 0 \<longleftrightarrow> t mod 2 \<noteq> 0"
proof -
  have even: "x mod 2 = 0 \<longleftrightarrow> unat x mod 2 = 0" for x :: u64
  proof -
    have "unat (x mod 2) = unat x mod unat (2 :: u64)" by (rule unat_mod)
    moreover have "unat (2 :: u64) = 2" by (rule unat_numeral_2)
    ultimately show ?thesis using unat_eq_zero [of "x mod 2"] by presburger
  qed
  have "unat (t + 1) = Suc (unat t)" using assms by (rule unat_succ)
  then show ?thesis unfolding even by presburger
qed

text \<open>
  Validation looks at no page reference. As \<open>meta::write\<close> always stores checksum 0 and
  \<open>sum64\<close> is constant, a meta that validates still validates after any change to its root, its
  freelist page, its page count and its transaction id: a torn or corrupted meta page is accepted.
\<close>

theorem validate_ignores_content:
  "validate (m\<lparr>meta_root := r, freeListPageNumber := f, totalPageNumber := n, meta_txid := t,
     meta_pageSize := ps, meta_flags := fl\<rparr>) = validate m"
  by (simp add: validate_def sum64_def)

end
