(* ===== verification/World.thy ===== *)
theory World
  imports Complex_Main Node Meta Free_List
begin

unbundle bit_operations_syntax

text \<open>
  The memory in which the pointer-linked part of the program runs: nodes, buckets, transactions
  and page buffers live in heaps (partial maps from pointers), the database object and the file
  are fields of one record, and an operation is a function from the state to an error or to a
  result and a new state. What the operating system and the allocator decide (whether a system
  call succeeds, how many bytes a write transfers, the content of fresh memory, the addresses of
  objects) is read from the record \<open>environ\<close>, which every theorem leaves arbitrary; \<open>clock\<close> counts
  the calls.
\<close>

section \<open>Pointers\<close>

datatype tx_ptr = TxPtr nat

text \<open>
  A \<open>Page*\<close>: into the current mapping of the file (with the number of the mapping, as a remap
  invalidates it), a buffer of \<open>DB::allocate\<close>, the bytes at an offset behind another page
  pointer (the page of an inline bucket inside its parent's leaf), or the bytes of an \<open>Item\<close>
  object that has been destroyed.
\<close>

datatype page_ptr = MapPage nat pgid | HeapPage nat | InsidePage page_ptr nat | DeadItem

text \<open>Node pointers are compared by address; the address is chosen by the allocator.\<close>

section \<open>Objects\<close>

record bucket =
  bucketHeader :: bucketHeader
  bucket_tx :: tx_ptr
  buckets :: "(item \<times> bucket_ptr) list"
  bucket_page :: "page_ptr option"
  rootNode :: "node_ptr option"
  nodes :: "(pgid \<times> node_ptr) list"
  fillPercent :: rat
  bucket_parentNode :: "node_ptr option"

record tx =
  writable :: bool
  managed :: bool
  tx_db :: bool
  metaData :: "meta option"
  rootBucket :: "bucket_ptr option"
  dirtyPageTable :: "(pgid \<times> page_ptr) list"
  cursorCount :: u64
  nodeCount :: u64
  pageCount :: u64
  pageAlloc :: u64

section \<open>Environment\<close>

record environ =
  sys_ok :: "nat \<Rightarrow> bool"
  sys_pwrite :: "nat \<Rightarrow> nat \<Rightarrow> nat option"
  getpagesize :: u32
  junk :: "nat \<Rightarrow> nat \<Rightarrow> byte list"
  address :: "node_ptr \<Rightarrow> nat"
  page_address :: "nat \<Rightarrow> u64"
  stack_address :: u64

section \<open>State\<close>

record world =
  env :: environ
  clock :: nat
  nodeHeap :: "node_ptr \<Rightarrow> node option"
  bucketHeap :: "bucket_ptr \<Rightarrow> bucket option"
  txHeap :: "tx_ptr \<Rightarrow> tx option"
  pageHeap :: "nat \<Rightarrow> buffer option"
  nextPtr :: nat
  disk :: buffer
  fd :: int
  mapped :: bool
  mapGen :: nat
  datasz :: int
  filesz :: u32
  pageSize :: u32
  opened :: bool
  readOnly :: bool
  NoSync :: bool
  NoGrowSync :: bool
  AllocSize :: int
  rwtx :: "tx_ptr option"
  txs :: "tx_ptr list"
  freelist :: freeList
  rwLock :: bool
  metaLock :: bool
  mmapReaders :: nat
  mmapWriter :: bool

type_synonym 'a act = "world \<Rightarrow> ('a \<times> world) result"

section \<open>Actions\<close>

definition ret :: "'a \<Rightarrow> 'a act" where
  "ret x = (\<lambda>w. Inr (x, w))"

definition fail :: "error \<Rightarrow> 'a act" where
  "fail e = (\<lambda>w. Inl e)"

definition bnd :: "'a act \<Rightarrow> ('a \<Rightarrow> 'b act) \<Rightarrow> 'b act" where
  "bnd m f = (\<lambda>w. and_then (m w) (\<lambda>xw. f (fst xw) (snd xw)))"

definition thn :: "'a act \<Rightarrow> 'b act \<Rightarrow> 'b act" where
  "thn m n = bnd m (\<lambda>_. n)"

definition gets :: "(world \<Rightarrow> 'a) \<Rightarrow> 'a act" where
  "gets f = (\<lambda>w. Inr (f w, w))"

definition modify :: "(world \<Rightarrow> world) \<Rightarrow> unit act" where
  "modify f = (\<lambda>w. Inr ((), f w))"

definition lift :: "'a result \<Rightarrow> 'a act" where
  "lift r = (\<lambda>w. and_then r (\<lambda>x. Inr (x, w)))"

definition getsR :: "(world \<Rightarrow> 'a result) \<Rightarrow> 'a act" where
  "getsR f = (\<lambda>w. and_then (f w) (\<lambda>x. Inr (x, w)))"

definition assertA :: "bool \<Rightarrow> unit act" where
  "assertA b = (if b then ret () else fail AssertFail)"

fun iterA :: "('a \<Rightarrow> unit act) \<Rightarrow> 'a list \<Rightarrow> unit act" where
  "iterA f [] = ret ()"
| "iterA f (x # xs) = thn (f x) (iterA f xs)"

section \<open>Heaps\<close>

definition get_node :: "node_ptr \<Rightarrow> node act" where
  "get_node p = getsR (\<lambda>w. of_option NullDeref (nodeHeap w p))"

definition put_node :: "node_ptr \<Rightarrow> node \<Rightarrow> unit act" where
  "put_node p n = modify (\<lambda>w. w\<lparr>nodeHeap := (nodeHeap w)(p \<mapsto> n)\<rparr>)"

definition upd_node :: "node_ptr \<Rightarrow> (node \<Rightarrow> node) \<Rightarrow> unit act" where
  "upd_node p f = bnd (get_node p) (\<lambda>n. put_node p (f n))"

definition new_node :: "node \<Rightarrow> node_ptr act" where
  "new_node n = (\<lambda>w. let p = NodePtr (nextPtr w) in
     Inr (p, w\<lparr>nextPtr := Suc (nextPtr w), nodeHeap := (nodeHeap w)(p \<mapsto> n)\<rparr>))"

definition get_bucket :: "bucket_ptr \<Rightarrow> bucket act" where
  "get_bucket p = getsR (\<lambda>w. of_option NullDeref (bucketHeap w p))"

definition put_bucket :: "bucket_ptr \<Rightarrow> bucket \<Rightarrow> unit act" where
  "put_bucket p b = modify (\<lambda>w. w\<lparr>bucketHeap := (bucketHeap w)(p \<mapsto> b)\<rparr>)"

definition upd_bucket :: "bucket_ptr \<Rightarrow> (bucket \<Rightarrow> bucket) \<Rightarrow> unit act" where
  "upd_bucket p f = bnd (get_bucket p) (\<lambda>b. put_bucket p (f b))"

definition new_bucket :: "bucket \<Rightarrow> bucket_ptr act" where
  "new_bucket b = (\<lambda>w. let p = BucketPtr (nextPtr w) in
     Inr (p, w\<lparr>nextPtr := Suc (nextPtr w), bucketHeap := (bucketHeap w)(p \<mapsto> b)\<rparr>))"

definition get_tx :: "tx_ptr \<Rightarrow> tx act" where
  "get_tx p = getsR (\<lambda>w. of_option NullDeref (txHeap w p))"

definition put_tx :: "tx_ptr \<Rightarrow> tx \<Rightarrow> unit act" where
  "put_tx p t = modify (\<lambda>w. w\<lparr>txHeap := (txHeap w)(p \<mapsto> t)\<rparr>)"

definition upd_tx :: "tx_ptr \<Rightarrow> (tx \<Rightarrow> tx) \<Rightarrow> unit act" where
  "upd_tx p f = bnd (get_tx p) (\<lambda>t. put_tx p (f t))"

definition new_tx :: "tx \<Rightarrow> tx_ptr act" where
  "new_tx t = (\<lambda>w. let p = TxPtr (nextPtr w) in
     Inr (p, w\<lparr>nextPtr := Suc (nextPtr w), txHeap := (txHeap w)(p \<mapsto> t)\<rparr>))"

text \<open>\<open>tx->metaData_\<close>, a pointer that is null until \<open>Tx::init\<close>.\<close>

definition tx_meta :: "tx_ptr \<Rightarrow> meta act" where
  "tx_meta p = bnd (get_tx p) (\<lambda>t. lift (of_option NullDeref (metaData t)))"

definition upd_meta :: "tx_ptr \<Rightarrow> (meta \<Rightarrow> meta) \<Rightarrow> unit act" where
  "upd_meta p f = bnd (tx_meta p) (\<lambda>m. upd_tx p (\<lambda>t. t\<lparr>metaData := Some (f m)\<rparr>))"

section \<open>Pages\<close>

text \<open>
  The bytes from a page pointer to the end of what it points into. The mapping shows the file
  (\<open>MAP_SHARED\<close>): its bytes are those of the file, up to the length of the mapping; touching the
  mapping behind the end of the file faults.
\<close>

definition map_offset :: "world \<Rightarrow> pgid \<Rightarrow> nat" where
  "map_offset w pid = unat (pid * ucast (pageSize w))"

fun page_bytes :: "world \<Rightarrow> page_ptr \<Rightarrow> buffer result" where
  "page_bytes w (MapPage g pid) =
     (if mapped w \<and> g = mapGen w then Inr (drop (map_offset w pid) (take (nat (datasz w)) (disk w)))
      else Inl UseAfterFree)"
| "page_bytes w (HeapPage a) = of_option UseAfterFree (pageHeap w a)"
| "page_bytes w (InsidePage q off) = and_then (page_bytes w q) (\<lambda>b. Inr (drop off b))"
| "page_bytes w DeadItem = Inl UseAfterFree"

definition get_page :: "page_ptr \<Rightarrow> buffer act" where
  "get_page p = getsR (\<lambda>w. page_bytes w p)"

text \<open>Only buffers of \<open>DB::allocate\<close> are ever written; the mapping is read-only.\<close>

definition upd_page :: "page_ptr \<Rightarrow> (buffer \<Rightarrow> buffer result) \<Rightarrow> unit act" where
  "upd_page p f = (case p of
     HeapPage a \<Rightarrow>
       bnd (get_page p) (\<lambda>b. bnd (lift (f b)) (\<lambda>b'.
       modify (\<lambda>w. w\<lparr>pageHeap := (pageHeap w)(a \<mapsto> b')\<rparr>)))
   | _ \<Rightarrow> fail OutOfBounds)"

text \<open>\<open>new char[len]\<close>: the content is whatever the memory held.\<close>

definition new_page :: "nat \<Rightarrow> page_ptr act" where
  "new_page len = (\<lambda>w. let a = nextPtr w in
     Inr (HeapPage a, w\<lparr>nextPtr := Suc a,
       pageHeap := (pageHeap w)(a \<mapsto> take len (junk (env w) a len @ replicate len 0))\<rparr>))"

definition free_page :: "page_ptr \<Rightarrow> unit act" where
  "free_page p = (case p of
     HeapPage a \<Rightarrow> modify (\<lambda>w. w\<lparr>pageHeap := (pageHeap w)(a := None)\<rparr>)
   | _ \<Rightarrow> fail UseAfterFree)"

section \<open>System calls\<close>

definition syscall :: "bool act" where
  "syscall = (\<lambda>w. Inr (sys_ok (env w) (clock w), w\<lparr>clock := Suc (clock w)\<rparr>))"

text \<open>
  \<open>pwrite\<close>: the number of bytes written, or \<open>None\<close> for -1. Bytes past the end extend the file,
  with zeros in a gap.
\<close>

definition file_write :: "byte list \<Rightarrow> nat \<Rightarrow> buffer \<Rightarrow> buffer" where
  "file_write bs off f =
     (if bs = [] then f
      else take off (f @ replicate (off - length f) 0) @ bs @ drop (off + length bs) f)"

definition writeAt :: "byte list \<Rightarrow> nat \<Rightarrow> nat option act" where
  "writeAt bs off = (\<lambda>w.
     case sys_pwrite (env w) (clock w) (length bs) of
       None \<Rightarrow> Inr (None, w\<lparr>clock := Suc (clock w)\<rparr>)
     | Some k \<Rightarrow> Inr (Some (min k (length bs)),
         w\<lparr>clock := Suc (clock w), disk := file_write (take k bs) off (disk w)\<rparr>))"

section \<open>Lemmas\<close>

named_theorems act_simps \<open>actions applied to a state\<close>

lemma act_apply [act_simps]:
  "ret x w = Inr (x, w)" "fail e w = Inl e" "gets f w = Inr (f w, w)" "modify g w = Inr ((), g w)"
  "bnd m k w = and_then (m w) (\<lambda>xw. k (fst xw) (snd xw))" "thn m n w = and_then (m w) (\<lambda>xw. n (snd xw))"
  "lift r w = and_then r (\<lambda>x. Inr (x, w))" "getsR h w = and_then (h w) (\<lambda>x. Inr (x, w))"
  by (simp_all add: ret_def fail_def gets_def modify_def bnd_def thn_def lift_def getsR_def)

lemma assertA_apply [act_simps]: "assertA b w = (if b then Inr ((), w) else Inl AssertFail)"
  by (simp add: assertA_def act_simps)

lemma heap_apply [act_simps]:
  "get_node p w = and_then (of_option NullDeref (nodeHeap w p)) (\<lambda>n. Inr (n, w))"
  "get_bucket b w = and_then (of_option NullDeref (bucketHeap w b)) (\<lambda>n. Inr (n, w))"
  "get_tx t w = and_then (of_option NullDeref (txHeap w t)) (\<lambda>n. Inr (n, w))"
  "get_page q w = and_then (page_bytes w q) (\<lambda>b. Inr (b, w))"
  "put_node p n w = Inr ((), w\<lparr>nodeHeap := (nodeHeap w)(p \<mapsto> n)\<rparr>)"
  "put_bucket b bk w = Inr ((), w\<lparr>bucketHeap := (bucketHeap w)(b \<mapsto> bk)\<rparr>)"
  "put_tx t tt w = Inr ((), w\<lparr>txHeap := (txHeap w)(t \<mapsto> tt)\<rparr>)"
  by (simp_all add: get_node_def get_bucket_def get_tx_def get_page_def put_node_def put_bucket_def
      put_tx_def act_simps)

lemma length_file_write: "off + length bs \<le> length f \<Longrightarrow> length (file_write bs off f) = length f"
  by (simp add: file_write_def)

end
