(* ===== verification/Db.thy ===== *)
theory Db
  imports World
begin

unbundle bit_operations_syntax

text \<open>
  The database object of \<open>src/src/Bolt/db.h\<close> and \<open>db.cc\<close>: locks, the memory mapping, creation and
  opening of the file, page access and page allocation. The functions that run transactions are
  in \<open>Db_Tx\<close>.
\<close>

section \<open>Construction\<close>

text \<open>
  The constructor. The members it does not initialise (\<open>opened_\<close>, \<open>datasz_\<close>, \<open>filesz_\<close>, \<open>pageSize_\<close>,
  \<open>AllocSize_\<close>) keep what the memory \<open>garbage\<close> held; the file and the environment are part of the state.
\<close>

definition DB_new :: "world \<Rightarrow> world" where
  "DB_new garbage = garbage\<lparr>fd := 0, mapped := False, readOnly := False, NoSync := False, NoGrowSync := False,
     rwtx := None, txs := [], freelist := freeList_new, rwLock := False, metaLock := False,
     mmapReaders := 0, mmapWriter := False\<rparr>"

section \<open>Locks\<close>

text \<open>
  A lock that is not available blocks the caller; the model of a single run stops there with
  \<open>Deadlock\<close>.
\<close>

definition getMmapRLock :: "bool act" where
  "getMmapRLock = (\<lambda>w. if mmapWriter w then Inl Deadlock
     else Inr (True, w\<lparr>mmapReaders := Suc (mmapReaders w)\<rparr>))"

definition getMmapWLock :: "bool act" where
  "getMmapWLock = (\<lambda>w. if mmapWriter w \<or> 0 < mmapReaders w then Inl Deadlock
     else Inr (True, w\<lparr>mmapWriter := True\<rparr>))"

definition unlockMmapLock :: "bool act" where
  "unlockMmapLock = (\<lambda>w. Inr (True,
     if mmapWriter w then w\<lparr>mmapWriter := False\<rparr> else w\<lparr>mmapReaders := mmapReaders w - 1\<rparr>))"

definition lock_rwLock :: "unit act" where
  "lock_rwLock = (\<lambda>w. if rwLock w then Inl Deadlock else Inr ((), w\<lparr>rwLock := True\<rparr>))"

definition writerLeave :: "unit act" where
  "writerLeave = modify (\<lambda>w. w\<lparr>rwLock := False\<rparr>)"

definition lock_metaLock :: "unit act" where
  "lock_metaLock = (\<lambda>w. if metaLock w then Inl Deadlock else Inr ((), w\<lparr>metaLock := True\<rparr>))"

definition unlock_metaLock :: "unit act" where
  "unlock_metaLock = modify (\<lambda>w. w\<lparr>metaLock := False\<rparr>)"

section \<open>Mapping\<close>

definition MAXMAPSIZE :: nat where "MAXMAPSIZE = 0x7FFFFFFF"
definition DEFAULTALLOCSIZE :: int where "DEFAULTALLOCSIZE = 16 * 1024 * 1024"
definition DEFAULTPAGESIZE :: u32 where "DEFAULTPAGESIZE = 4096"

text \<open>The loop over \<open>1UL << i\<close> for \<open>i\<close> from 15 to 30.\<close>

fun getMmapSize_loop :: "u32 \<Rightarrow> nat list \<Rightarrow> u32 option" where
  "getMmapSize_loop targetSize [] = None"
| "getMmapSize_loop targetSize (i # is) =
     (if unat targetSize \<le> 2 ^ i then Some (of_nat (2 ^ i)) else getMmapSize_loop targetSize is)"

definition getMmapSize :: "u32 \<Rightarrow> (int \<times> u32) result" where
  "getMmapSize targetSize =
     (case getMmapSize_loop targetSize [15..<31] of
        Some s \<Rightarrow> Inr (0, s)
      | None \<Rightarrow> if MAXMAPSIZE < unat targetSize then Inr (- 1, targetSize) else Inl AssertFail)"

definition getPagePtr :: "pgid \<Rightarrow> page_ptr act" where
  "getPagePtr pid = gets (\<lambda>w. MapPage (mapGen w) pid)"

definition mmapDbFile :: "int \<Rightarrow> bool act" where
  "mmapDbFile targetSize =
     bnd syscall (\<lambda>ok.
     if \<not> ok then ret False
     else thn (modify (\<lambda>w. w\<lparr>mapped := True, mapGen := Suc (mapGen w), datasz := targetSize\<rparr>)) (ret True))"

definition DbMunmap :: "bool act" where
  "DbMunmap =
     bnd (gets mapped) (\<lambda>m.
     if \<not> m then ret True
     else bnd syscall (\<lambda>ok.
     if \<not> ok then ret False
     else thn (modify (\<lambda>w. w\<lparr>mapped := False, datasz := 0\<rparr>)) (ret True)))"

text \<open>\<open>meta0_\<close> and \<open>meta1_\<close> point into pages 0 and 1 of the mapping.\<close>

definition page_meta :: "pgid \<Rightarrow> meta act" where
  "page_meta i = bnd (getPagePtr i) (\<lambda>p. bnd (get_page p) (\<lambda>b. lift (read_meta b)))"

definition DB_getMeta :: "meta act" where
  "DB_getMeta = bnd (page_meta 0) (\<lambda>m0. bnd (page_meta 1) (\<lambda>m1. lift (getMeta m0 m1)))"

text \<open>
  \<open>DB::initMeta\<close>. The dereferencing of the open write transaction copies nothing (\<open>Node::dereference\<close>
  has an empty body) and is left out.
\<close>

definition initMeta :: "u32 \<Rightarrow> int act" where
  "initMeta InitialMMapSize =
     thn (bnd getMmapWLock assertA) (
     bnd (gets filesz) (\<lambda>fsz.
     bnd (gets pageSize) (\<lambda>ps.
     if fsz < ps * 2 then thn unlockMmapLock (ret (- 1))
     else bnd (lift (getMmapSize (max fsz InitialMMapSize))) (\<lambda>(rc, targetSize).
     if rc \<noteq> 0 then thn unlockMmapLock (ret (- 1))
     else bnd DbMunmap (\<lambda>ok.
     if \<not> ok then thn unlockMmapLock (ret (- 1))
     else bnd (mmapDbFile (sint targetSize)) (\<lambda>ok.
     if \<not> ok then thn unlockMmapLock (ret (- 1))
     else bnd (page_meta 0) (\<lambda>m0. bnd (page_meta 1) (\<lambda>m1.
     if \<not> validate m0 \<and> \<not> validate m1 then thn unlockMmapLock (ret (- 1))
     else thn unlockMmapLock (ret 0)))))))))"

section \<open>Creating a database file\<close>

text \<open>Working on the page that starts at byte \<open>base\<close> of a buffer.\<close>

definition on_page :: "nat \<Rightarrow> (buffer \<Rightarrow> buffer result) \<Rightarrow> buffer \<Rightarrow> buffer result" where
  "on_page base f buf = and_then (f (drop base buf)) (\<lambda>q. Inr (take base buf @ q))"

definition pageInBuffer :: "u32 \<Rightarrow> nat \<Rightarrow> pgid \<Rightarrow> nat result" where
  "pageInBuffer ps len pageId =
     (let off = unat (pageId * ucast ps) in and_then (check (off < len) AssertFail) (\<lambda>_. Inr off))"

definition init_meta_page :: "u32 \<Rightarrow> u64 \<Rightarrow> buffer \<Rightarrow> buffer result" where
  "init_meta_page ps i p =
     and_then (set_page_id i p) (\<lambda>p.
     and_then (set_page_flag metaPageFlag p) (\<lambda>p.
     and_then (read_meta p) (\<lambda>m.
     store_meta (m\<lparr>magic := MAGIC, version := VERSION, meta_pageSize := ps, freeListPageNumber := 2,
       meta_root := \<lparr>bh_root = 3, bh_sequence = 0\<rparr>, totalPageNumber := 4, meta_txid := i, checksum := 0\<rparr>) p)))"

definition init_page :: "u64 \<Rightarrow> u16 \<Rightarrow> buffer \<Rightarrow> buffer result" where
  "init_page i fl p =
     and_then (set_page_id i p) (\<lambda>p.
     and_then (set_page_count 0 p) (\<lambda>p.
     set_page_flag fl p))"

text \<open>The four pages \<open>DB::Init\<close> writes.\<close>

definition init_image :: "u32 \<Rightarrow> buffer result" where
  "init_image ps =
     (let len = unat (ps * 4); buf = replicate len 0 in
      and_then (pageInBuffer ps len 0) (\<lambda>o0. and_then (on_page o0 (init_meta_page ps 0) buf) (\<lambda>buf.
      and_then (pageInBuffer ps len 1) (\<lambda>o1. and_then (on_page o1 (init_meta_page ps 1) buf) (\<lambda>buf.
      and_then (pageInBuffer ps len 2) (\<lambda>o2. and_then (on_page o2 (init_page 2 freelistPageFlag) buf) (\<lambda>buf.
      and_then (pageInBuffer ps len 3) (\<lambda>o3. on_page o3 (init_page 3 leafPageFlag) buf))))))))"

definition DB_Init :: "int act" where
  "DB_Init =
     thn (modify (\<lambda>w. w\<lparr>pageSize := getpagesize (env w)\<rparr>)) (
     bnd (gets pageSize) (\<lambda>ps.
     bnd (lift (init_image ps)) (\<lambda>buf.
     bnd (writeAt buf 0) (\<lambda>size.
     if size \<noteq> Some (length buf) then ret (- 1)
     else thn syscall (thn (modify (\<lambda>w. w\<lparr>filesz := of_nat (length buf)\<rparr>)) (ret 0))))))"

section \<open>Opening and closing\<close>

text \<open>\<open>std::lock_guard\<close>s on \<open>rwLock_\<close> and \<open>metaLock_\<close> are released on every return.\<close>

definition DbClose :: "unit act" where
  "DbClose =
     thn lock_rwLock (thn lock_metaLock (thn getMmapRLock (
     bnd (gets opened) (\<lambda>op.
     if \<not> op then thn unlock_metaLock writerLeave
     else
       thn (modify (\<lambda>w. w\<lparr>opened := False, freelist := freeList_reset (freelist w)\<rparr>)) (
       thn (modify (\<lambda>w. if fd w \<noteq> 0 then w\<lparr>fd := - 1\<rparr> else w)) (
       thn unlockMmapLock (thn unlock_metaLock writerLeave)))))))"

record options =
  opt_NoGrowSync :: bool
  opt_ReadOnly :: bool
  opt_InitialMMapSize :: u32

text \<open>\<open>GetFileSize\<close> answers 0 when \<open>fstat\<close> fails.\<close>

definition GetFileSize :: "u32 act" where
  "GetFileSize = bnd syscall (\<lambda>ok. gets (\<lambda>w. if ok then of_nat (length (disk w)) else 0))"

text \<open>
  \<open>DB::Open\<close>. The first system call is the file lock (\<open>FlockUtil::lock\<close>), the second \<open>open\<close>;
  \<open>pread\<close> copies at most 4096 bytes into a zeroed buffer.
\<close>

definition DB_Open :: "options \<Rightarrow> int act" where
  "DB_Open opts =
     bnd (gets fd) (\<lambda>f.
     if 0 < f then ret 0
     else bnd syscall (\<lambda>locked.
     if \<not> locked then ret (- 1)
     else
       thn (modify (\<lambda>w. w\<lparr>opened := True, NoGrowSync := opt_NoGrowSync opts, AllocSize := DEFAULTALLOCSIZE\<rparr>)) (
       thn (modify (\<lambda>w. if opt_ReadOnly opts then w\<lparr>readOnly := True\<rparr> else w)) (
       bnd syscall (\<lambda>ok.
       thn (modify (\<lambda>w. w\<lparr>fd := (if ok then 3 else - 1)\<rparr>)) (
       if \<not> ok then ret (- 1)
       else
         bnd GetFileSize (\<lambda>sz.
         thn (modify (\<lambda>w. w\<lparr>filesz := sz\<rparr>)) (
         bnd (if sz = 0 then DB_Init else ret 0) (\<lambda>rc.
         if rc \<noteq> 0 then thn DbClose (ret (- 1))
         else bnd syscall (\<lambda>ok.
         if \<not> ok then thn DbClose (ret (- 1))
         else
           bnd (gets (\<lambda>w. take 4096 (disk w @ replicate 4096 0))) (\<lambda>buf.
           bnd (lift (read_meta buf)) (\<lambda>m.
           thn (modify (\<lambda>w. w\<lparr>pageSize := (if validate m then DEFAULTPAGESIZE else meta_pageSize m)\<rparr>)) (
           bnd (initMeta (opt_InitialMMapSize opts)) (\<lambda>rc.
           if rc = - 1 then thn DbClose (ret (- 1))
           else
             bnd DB_getMeta (\<lambda>m.
             bnd (getPagePtr (freeListPageNumber m)) (\<lambda>p.
             bnd (get_page p) (\<lambda>b.
             bnd (gets freelist) (\<lambda>fl.
             bnd (lift (freeList_read b fl)) (\<lambda>fl'.
             thn (modify (\<lambda>w. w\<lparr>freelist := fl'\<rparr>)) (ret 0))))))))))))))))))))"

section \<open>Allocation\<close>

text \<open>The conversion of a 64-bit number to \<open>int\<close>.\<close>

definition to_int :: "u64 \<Rightarrow> int" where
  "to_int x = sint (ucast x :: u32)"

definition DB_allocate :: "u32 \<Rightarrow> page_ptr option act" where
  "DB_allocate numPages =
     bnd (gets pageSize) (\<lambda>ps.
     thn (assertA (numPages < 0x1000)) (
     bnd (new_page (unat (numPages * ps))) (\<lambda>p.
     thn (upd_page p (set_page_overflow (numPages - 1))) (
     bnd (gets freelist) (\<lambda>fl.
     bnd (lift (freeList_allocate numPages fl)) (\<lambda>(pg, fl').
     thn (modify (\<lambda>w. w\<lparr>freelist := fl'\<rparr>)) (
     if pg \<noteq> 0 then thn (upd_page p (set_page_id pg)) (ret (Some p))
     else
       bnd (getsR (\<lambda>w. of_option NullDeref (rwtx w))) (\<lambda>t.
       bnd (tx_meta t) (\<lambda>m.
       thn (upd_page p (set_page_id (totalPageNumber m))) (
       bnd (gets datasz) (\<lambda>dsz.
       let minLen = to_int ((totalPageNumber m + ucast numPages + 1) * ucast ps) in
       bnd (if dsz < minLen then
              bnd syscall (\<lambda>ok.
              if \<not> ok then fail LogFatal
              else bnd (initMeta (word_of_int minLen)) (\<lambda>rc. ret (rc = 0)))
            else ret True) (\<lambda>ok.
       if \<not> ok then thn (free_page p) (ret None)
       else thn (upd_meta t (\<lambda>m. m\<lparr>totalPageNumber := totalPageNumber m + ucast numPages\<rparr>)) (ret (Some p))))))))))))))"

section \<open>Growing the file\<close>

text \<open>\<open>ftruncate\<close> to a size: cut off, or extended with zeros.\<close>

definition truncate_disk :: "nat \<Rightarrow> buffer \<Rightarrow> buffer" where
  "truncate_disk n f = take n (f @ replicate (n - length f) 0)"

definition DB_grow :: "u32 \<Rightarrow> int act" where
  "DB_grow sz =
     bnd (gets (\<lambda>w. w)) (\<lambda>w.
     if sz \<le> filesz w then ret 0
     else
       let sz = (if datasz w \<le> AllocSize w then word_of_int (datasz w) else sz + word_of_int (AllocSize w)) in
       if \<not> NoGrowSync w \<and> \<not> readOnly w then
         bnd syscall (\<lambda>ok.
         if \<not> ok then ret (- 1)
         else thn (modify (\<lambda>w. w\<lparr>disk := truncate_disk (unat sz) (disk w)\<rparr>)) (
              bnd syscall (\<lambda>ok.
              if \<not> ok then ret (- 1)
              else thn (modify (\<lambda>w. w\<lparr>filesz := sz\<rparr>)) (ret 0))))
       else thn (modify (\<lambda>w. w\<lparr>filesz := sz\<rparr>)) (ret 0))"

end
