(* ===== verification/Tx.thy ===== *)
theory Tx
  imports Db
begin

unbundle bit_operations_syntax

text \<open>
  The page side of a transaction (\<open>src/src/Bolt/tx.h\<close>, \<open>tx.cc\<close>): its construction, the dirty
  page table, page lookup, allocation and release, writing the dirty pages and the meta page.
  Committing and rolling back are in \<open>Tx_Commit\<close>, as they run the buckets.
\<close>

section \<open>Construction and access\<close>

definition Tx_new :: tx where
  "Tx_new = \<lparr>writable = False, managed = False, tx_db = False, metaData = None, rootBucket = None,
     dirtyPageTable = [], cursorCount = 0, nodeCount = 0, pageCount = 0, pageAlloc = 0\<rparr>"

definition setWriteable :: "tx_ptr \<Rightarrow> bool \<Rightarrow> unit act" where
  "setWriteable t b = upd_tx t (\<lambda>x. x\<lparr>writable := b\<rparr>)"

definition isWritable :: "tx_ptr \<Rightarrow> bool act" where
  "isWritable t = bnd (get_tx t) (\<lambda>x. ret (writable x))"

definition increaseCurserCount :: "tx_ptr \<Rightarrow> unit act" where
  "increaseCurserCount t = upd_tx t (\<lambda>x. x\<lparr>cursorCount := cursorCount x + 1\<rparr>)"

definition increaseNodeCount :: "tx_ptr \<Rightarrow> unit act" where
  "increaseNodeCount t = upd_tx t (\<lambda>x. x\<lparr>nodeCount := nodeCount x + 1\<rparr>)"

definition getTxId :: "tx_ptr \<Rightarrow> txid act" where
  "getTxId t = bnd (tx_meta t) (\<lambda>m. ret (meta_txid m))"

text \<open>The page count is cut to 32 bits on its way out.\<close>

definition getTotalPageNumber :: "tx_ptr \<Rightarrow> u32 act" where
  "getTotalPageNumber t = bnd (tx_meta t) (\<lambda>m. ret (ucast (totalPageNumber m)))"

section \<open>Pages\<close>

definition Tx_getPage :: "tx_ptr \<Rightarrow> pgid \<Rightarrow> page_ptr option act" where
  "Tx_getPage t pageId =
     bnd (tx_meta t) (\<lambda>m.
     if totalPageNumber m \<le> pageId then ret None
     else bnd (get_tx t) (\<lambda>x.
     case map_of (dirtyPageTable x) pageId of
       Some p \<Rightarrow> ret (Some p)
     | None \<Rightarrow>
         if \<not> tx_db x then fail NullDeref
         else bnd (getPagePtr pageId) (\<lambda>p. ret (Some p))))"

definition Tx_allocate :: "tx_ptr \<Rightarrow> u32 \<Rightarrow> page_ptr option act" where
  "Tx_allocate t cnt =
     bnd (get_tx t) (\<lambda>x.
     if \<not> tx_db x then fail NullDeref
     else bnd (DB_allocate cnt) (\<lambda>r.
     case r of
       None \<Rightarrow> ret None
     | Some p \<Rightarrow>
         bnd (get_page p) (\<lambda>b. bnd (lift (page_id b)) (\<lambda>pid.
         bnd (gets pageSize) (\<lambda>ps.
         thn (upd_tx t (\<lambda>x. x\<lparr>dirtyPageTable := AList.update pid p (dirtyPageTable x),
                pageCount := pageCount x + 1, pageAlloc := pageAlloc x + ucast (cnt * ps)\<rparr>))
             (ret (Some p)))))))"

text \<open>\<open>Tx::free\<close>: the page header gives the first page and the number of pages.\<close>

definition Tx_free :: "tx_ptr \<Rightarrow> txid \<Rightarrow> page_ptr option \<Rightarrow> unit act" where
  "Tx_free t tid page =
     bnd (get_tx t) (\<lambda>x.
     if \<not> tx_db x then fail NullDeref
     else case page of
       None \<Rightarrow> fail NullDeref
     | Some p \<Rightarrow>
         bnd (get_page p) (\<lambda>b.
         bnd (lift (page_id b)) (\<lambda>pid. bnd (lift (page_overflow b)) (\<lambda>ov.
         bnd (gets freelist) (\<lambda>fl.
         bnd (lift (freeList_free tid pid ov fl)) (\<lambda>fl'.
         modify (\<lambda>w. w\<lparr>freelist := fl'\<rparr>)))))))"

text \<open>
  \<open>Tx::for_each_page\<close> visits a page and, for a branch page, recursively the pages it refers to.
  The recursion follows page ids read from the file; \<open>fuel\<close> bounds its depth. The result is the
  sequence of calls of \<open>fn\<close>.
\<close>

fun Tx_for_each_page :: "nat \<Rightarrow> tx_ptr \<Rightarrow> pgid \<Rightarrow> nat \<Rightarrow> (page_ptr option \<times> nat) list act" where
  "Tx_for_each_page 0 t pageId depth = fail Diverges"
| "Tx_for_each_page (Suc fuel) t pageId depth =
     bnd (Tx_getPage t pageId) (\<lambda>p.
     case p of
       None \<Rightarrow> fail NullDeref
     | Some q \<Rightarrow>
         bnd (get_page q) (\<lambda>b.
         bnd (lift (page_flag b)) (\<lambda>fl.
         if fl AND branchPageFlag \<noteq> 0 then
           bnd (lift (page_count b)) (\<lambda>cnt.
           foldr (\<lambda>i k. \<lambda>acc.
               bnd (lift (getBranchPageElement b i)) (\<lambda>el.
               bnd (Tx_for_each_page fuel t (branch_pageId el) (depth + 1)) (\<lambda>xs. k (acc @ xs))))
             [0..<unat cnt] ret [(Some q, depth)])
         else ret [(Some q, depth)])))"

section \<open>Writing\<close>

text \<open>
  The loop of \<open>Tx::write\<close> over the dirty pages (sorted by address; here in table order sorted by
  \<open>page_address\<close>). \<open>length\<close> and the first factor of \<open>offset\<close> are computed at the width of the code.
\<close>

fun write_pages :: "page_ptr list \<Rightarrow> bool act" where
  "write_pages [] = ret True"
| "write_pages (p # ps) =
     bnd (get_page p) (\<lambda>b.
     bnd (lift (page_overflow b)) (\<lambda>ov. bnd (lift (page_id b)) (\<lambda>pid.
     bnd (gets pageSize) (\<lambda>psz.
     let len = unat ((ov + 1) * psz); off = unat (pid * ucast psz) in
     bnd (lift (read_bytes b 0 len)) (\<lambda>bs.
     bnd (writeAt bs off) (\<lambda>r.
     if r \<noteq> Some len then ret False else write_pages ps))))))"

definition page_order :: "world \<Rightarrow> page_ptr \<Rightarrow> nat" where
  "page_order w p = (case p of HeapPage a \<Rightarrow> unat (page_address (env w) a) | _ \<Rightarrow> 0)"

definition Tx_write :: "tx_ptr \<Rightarrow> int act" where
  "Tx_write t =
     bnd (get_tx t) (\<lambda>x.
     bnd (gets (\<lambda>w. sort_key (page_order w) (map snd (dirtyPageTable x)))) (\<lambda>pages.
     thn (upd_tx t (\<lambda>x. x\<lparr>dirtyPageTable := []\<rparr>)) (
     bnd (write_pages pages) (\<lambda>ok.
     if \<not> ok then ret (- 1)
     else bnd (gets NoSync) (\<lambda>ns.
     if ns then ret 0
     else bnd syscall (\<lambda>ok. ret (if ok then 0 else - 1)))))))"

definition Tx_writeMeta :: "tx_ptr \<Rightarrow> int act" where
  "Tx_writeMeta t =
     bnd (tx_meta t) (\<lambda>m.
     bnd (lift (meta_write m (replicate 4096 0))) (\<lambda>(m', b).
     thn (upd_meta t (\<lambda>_. m')) (
     bnd (lift (page_id b)) (\<lambda>pid.
     bnd (writeAt b (unat (pid * 4096))) (\<lambda>r.
     if r \<noteq> Some 4096 then ret (- 1)
     else bnd (gets NoSync) (\<lambda>ns.
     if ns then ret 0
     else bnd syscall (\<lambda>ok. ret (if ok then 0 else - 1))))))))"

end
