(* ===== verification/Bucket_Node.thy ===== *)
theory Bucket_Node
  imports Tx
begin

unbundle bit_operations_syntax

text \<open>
  How a bucket turns page ids into nodes and pages (\<open>src/src/Bolt/bucket.h\<close>, \<open>bucket.cc\<close>): the
  node cache, \<open>getNode\<close>, \<open>getPageNode\<close>, and the steps of \<open>Node\<close> that go through them.
\<close>

section \<open>Buckets\<close>

definition MAXKEYSIZE :: u32 where "MAXKEYSIZE = 32768"
definition MAXVALUESIZE :: u32 where "MAXVALUESIZE = 0x7FFFFFFE"
definition MINFILLPERCENT :: rat where "MINFILLPERCENT = 1 / 10"
definition MAXFILLPERCENT :: rat where "MAXFILLPERCENT = 1"
definition DEFAULTFILLPERCENT :: rat where "DEFAULTFILLPERCENT = 1 / 2"

definition Bucket_new :: "tx_ptr \<Rightarrow> bucket" where
  "Bucket_new t = \<lparr>bucketHeader = \<lparr>bh_root = 0, bh_sequence = 0\<rparr>, bucket_tx = t, buckets = [],
     bucket_page = None, rootNode = None, nodes = [], fillPercent = DEFAULTFILLPERCENT,
     bucket_parentNode = None\<rparr>"

definition setBucketHeader :: "bucket_ptr \<Rightarrow> bucketHeader \<Rightarrow> unit act" where
  "setBucketHeader b h = upd_bucket b (\<lambda>x. x\<lparr>bucketHeader := h\<rparr>)"

definition setTx :: "bucket_ptr \<Rightarrow> tx_ptr \<Rightarrow> unit act" where
  "setTx b t = upd_bucket b (\<lambda>x. x\<lparr>bucket_tx := t\<rparr>)"

definition getRootPage :: "bucket_ptr \<Rightarrow> pgid act" where
  "getRootPage b = bnd (get_bucket b) (\<lambda>x. ret (bh_root (bucketHeader x)))"

definition newBucket :: "tx_ptr \<Rightarrow> bucket_ptr act" where
  "newBucket t = new_bucket (Bucket_new t)"

definition getCachedNode :: "bucket_ptr \<Rightarrow> pgid \<Rightarrow> node_ptr option act" where
  "getCachedNode b pid = bnd (get_bucket b) (\<lambda>x. ret (map_of (nodes x) pid))"

definition eraseCachedNode :: "bucket_ptr \<Rightarrow> pgid \<Rightarrow> unit act" where
  "eraseCachedNode b pid = upd_bucket b (\<lambda>x. x\<lparr>nodes := AList.delete pid (nodes x)\<rparr>)"

definition Bucket_getTotalPageNumber :: "bucket_ptr \<Rightarrow> u32 act" where
  "Bucket_getTotalPageNumber b = bnd (get_bucket b) (\<lambda>x. getTotalPageNumber (bucket_tx x))"

definition Bucket_isWritable :: "bucket_ptr \<Rightarrow> bool act" where
  "Bucket_isWritable b = bnd (get_bucket b) (\<lambda>x. isWritable (bucket_tx x))"

section \<open>Nodes\<close>

definition setBucket :: "node_ptr \<Rightarrow> bucket_ptr \<Rightarrow> unit act" where
  "setBucket n b = upd_node n (\<lambda>x. x\<lparr>node_bucket := b\<rparr>)"

definition setParentNode :: "node_ptr \<Rightarrow> node_ptr option \<Rightarrow> unit act" where
  "setParentNode n p = upd_node n (\<lambda>x. x\<lparr>parentNode := p\<rparr>)"

definition addChild :: "node_ptr \<Rightarrow> node_ptr \<Rightarrow> unit act" where
  "addChild n c = upd_node n (\<lambda>x. x\<lparr>children := children x @ [c]\<rparr>)"

definition read_node :: "node_ptr \<Rightarrow> page_ptr option \<Rightarrow> unit act" where
  "read_node n page = (case page of
     None \<Rightarrow> fail LogFatal
   | Some p \<Rightarrow>
       bnd (get_page p) (\<lambda>bytes. bnd (get_node n) (\<lambda>x.
       bnd (lift (Node_read bytes x)) (\<lambda>x'. put_node n x'))))"

text \<open>
  \<open>Bucket::getNode\<close>. The parameter \<open>parentNode\<close> is not used: the body names the member
  \<open>parentNode_\<close>, which is always null.
\<close>

definition Bucket_getNode :: "bucket_ptr \<Rightarrow> pgid \<Rightarrow> node_ptr option \<Rightarrow> node_ptr act" where
  "Bucket_getNode b pid parent =
     bnd (get_bucket b) (\<lambda>x.
     case map_of (nodes x) pid of
       Some n \<Rightarrow> ret n
     | None \<Rightarrow>
         bnd (new_node (Node_new b (bucket_parentNode x))) (\<lambda>n.
         thn (case bucket_parentNode x of
                None \<Rightarrow> upd_bucket b (\<lambda>x. x\<lparr>rootNode := Some n\<rparr>)
              | Some q \<Rightarrow> addChild q n) (
         thn (if bucket_page x = None
              then bnd (Tx_getPage (bucket_tx x) pid) (\<lambda>p. upd_bucket b (\<lambda>x. x\<lparr>bucket_page := p\<rparr>))
              else ret ()) (
         bnd (get_bucket b) (\<lambda>x.
         thn (read_node n (bucket_page x)) (
         thn (upd_bucket b (\<lambda>x. x\<lparr>nodes := AList.update pid n (nodes x)\<rparr>)) (ret n)))))))"

definition getPageNode :: "bucket_ptr \<Rightarrow> pgid \<Rightarrow> (node_ptr option \<times> page_ptr option) act" where
  "getPageNode b pageId =
     bnd (get_bucket b) (\<lambda>x.
     if bh_root (bucketHeader x) = 0 then
       (case rootNode x of
          Some n \<Rightarrow> ret (Some n, None)
        | None \<Rightarrow> ret (None, bucket_page x))
     else case map_of (nodes x) pageId of
       Some n \<Rightarrow> ret (Some n, None)
     | None \<Rightarrow> bnd (Tx_getPage (bucket_tx x) pageId) (\<lambda>p. ret (None, p)))"

text \<open>\<open>Node::childAt\<close>; the null result of a leaf is \<open>None\<close>.\<close>

definition childAt :: "node_ptr \<Rightarrow> nat \<Rightarrow> node_ptr option act" where
  "childAt n index =
     bnd (get_node n) (\<lambda>x.
     if isLeaf x then ret None
     else bnd (lift (getInode x index)) (\<lambda>i.
     bnd (Bucket_getNode (node_bucket x) (inode_pageId i) (Some n)) (\<lambda>c. ret (Some c))))"

text \<open>\<open>Node::put\<close>, \<open>Node::del\<close> and \<open>Node::free\<close> on the heap.\<close>

definition put_in_node :: "node_ptr \<Rightarrow> item \<Rightarrow> item \<Rightarrow> item \<Rightarrow> pgid \<Rightarrow> u32 \<Rightarrow> bool act" where
  "put_in_node n oldKey newKey val pid flag =
     bnd (get_node n) (\<lambda>x.
     bnd (Bucket_getTotalPageNumber (node_bucket x)) (\<lambda>tp.
     let (ok, x') = Node_put tp oldKey newKey val pid flag x in
     thn (put_node n x') (ret ok)))"

definition del_in_node :: "node_ptr \<Rightarrow> item \<Rightarrow> bool act" where
  "del_in_node n key =
     bnd (get_node n) (\<lambda>x. let (ok, x') = Node_del key x in thn (put_node n x') (ret ok))"

definition Node_free :: "node_ptr \<Rightarrow> unit act" where
  "Node_free n =
     bnd (get_node n) (\<lambda>x.
     if node_pageId x = 0 then ret ()
     else bnd (get_bucket (node_bucket x)) (\<lambda>b.
     bnd (getTxId (bucket_tx b)) (\<lambda>tid.
     bnd (Tx_getPage (bucket_tx b) (node_pageId x)) (\<lambda>p.
     thn (Tx_free (bucket_tx b) tid p) (
     upd_node n (\<lambda>x. x\<lparr>node_pageId := 0\<rparr>))))))"

end
