(* ===== verification/Cursor.thy ===== *)
theory Cursor
  imports Bucket_Node
begin

unbundle bit_operations_syntax

text \<open>
  The cursor of \<open>src/src/Bolt/cursor.h\<close> and \<open>cursor.cc\<close>. Its stack of positions is a list whose
  head is the top. A position refers to a cached node or to a page. The descent follows page ids
  found in pages and nodes; \<open>fuel\<close> bounds its depth.
\<close>

section \<open>Data\<close>

record elementRef =
  er_page :: "page_ptr option"
  er_node :: "node_ptr option"
  er_index :: u64

definition ElementRef :: "page_ptr option \<Rightarrow> node_ptr option \<Rightarrow> elementRef" where
  "ElementRef p n = \<lparr>er_page = p, er_node = n, er_index = 0\<rparr>"

record cursor =
  cur_bucket :: bucket_ptr
  elements :: "elementRef list"

definition Cursor_new :: "bucket_ptr \<Rightarrow> cursor" where
  "Cursor_new b = \<lparr>cur_bucket = b, elements = []\<rparr>"

text \<open>The bytes of the position's page; \<open>assert(page_)\<close>.\<close>

definition ref_page :: "elementRef \<Rightarrow> buffer act" where
  "ref_page r = (case er_page r of None \<Rightarrow> fail AssertFail | Some p \<Rightarrow> get_page p)"

definition ElementRef_isLeaf :: "elementRef \<Rightarrow> bool act" where
  "ElementRef_isLeaf r = (case er_node r of
     Some n \<Rightarrow> bnd (get_node n) (\<lambda>x. ret (isLeaf x))
   | None \<Rightarrow> bnd (ref_page r) (\<lambda>b. bnd (lift (page_flag b)) (\<lambda>fl. ret (fl AND leafPageFlag \<noteq> 0))))"

definition ElementRef_count :: "elementRef \<Rightarrow> u64 act" where
  "ElementRef_count r = (case er_node r of
     Some n \<Rightarrow> bnd (get_node n) (\<lambda>x. ret (of_nat (length (inodeList x))))
   | None \<Rightarrow> bnd (ref_page r) (\<lambda>b. bnd (lift (page_count b)) (\<lambda>c. ret (ucast c))))"

definition clearElements :: "cursor \<Rightarrow> cursor" where
  "clearElements c = c\<lparr>elements := []\<rparr>"

definition push :: "elementRef \<Rightarrow> cursor \<Rightarrow> cursor" where
  "push r c = c\<lparr>elements := r # elements c\<rparr>"

definition top_ref :: "cursor \<Rightarrow> elementRef act" where
  "top_ref c = (case elements c of [] \<Rightarrow> fail AssertFail | r # _ \<Rightarrow> ret r)"

definition set_top_index :: "u64 \<Rightarrow> cursor \<Rightarrow> cursor" where
  "set_top_index i c = (case elements c of
     [] \<Rightarrow> c
   | r # rs \<Rightarrow> c\<lparr>elements := r\<lparr>er_index := i\<rparr> # rs\<rparr>)"

section \<open>Binary search in pages\<close>

function binarySearchLeaf_loop :: "buffer \<Rightarrow> item \<Rightarrow> nat \<Rightarrow> nat \<Rightarrow> (nat \<times> bool) result" where
  "binarySearchLeaf_loop p key b e =
     (if b < e then
        let mid = (b + e) div 2 in
        case leafPageElement_key p mid of
          Inl err \<Rightarrow> Inl err
        | Inr k \<Rightarrow>
            if Item_greater k key then binarySearchLeaf_loop p key b mid
            else if Item_eq k key then Inr (mid, True)
            else binarySearchLeaf_loop p key (mid + 1) e
      else Inr (e, False))"
  by pat_completeness auto
termination
  by (relation "measure (\<lambda>(p, key, b, e). e - b)") auto

function binarySearchBranch_loop :: "buffer \<Rightarrow> item \<Rightarrow> nat \<Rightarrow> nat \<Rightarrow> (nat \<times> bool) result" where
  "binarySearchBranch_loop p key b e =
     (if b < e then
        let mid = (b + e) div 2 in
        case branchPageElement_key p mid of
          Inl err \<Rightarrow> Inl err
        | Inr k \<Rightarrow>
            if item_data key < item_data k then binarySearchBranch_loop p key b mid
            else if item_data k = item_data key then Inr (mid, True)
            else binarySearchBranch_loop p key (mid + 1) e
      else Inr (e, False))"
  by pat_completeness auto
termination
  by (relation "measure (\<lambda>(p, key, b, e). e - b)") auto

declare binarySearchLeaf_loop.simps [simp del]
declare binarySearchBranch_loop.simps [simp del]

definition binarySearchLeaf :: "buffer \<Rightarrow> item \<Rightarrow> nat \<Rightarrow> (nat \<times> bool) result" where
  "binarySearchLeaf p key cnt = binarySearchLeaf_loop p key 0 cnt"

definition binarySearchBranch :: "buffer \<Rightarrow> item \<Rightarrow> nat \<Rightarrow> (nat \<times> bool) result" where
  "binarySearchBranch p key cnt = binarySearchBranch_loop p key 0 cnt"

section \<open>Descent\<close>

definition searchLeaf :: "item \<Rightarrow> cursor \<Rightarrow> cursor act" where
  "searchLeaf key c =
     bnd (top_ref c) (\<lambda>r.
     case er_node r of
       Some n \<Rightarrow> bnd (get_node n) (\<lambda>x. ret (set_top_index (of_nat (fst (Node_search x key))) c))
     | None \<Rightarrow>
         bnd (ref_page r) (\<lambda>b. bnd (lift (page_count b)) (\<lambda>cnt.
         bnd (lift (binarySearchLeaf b key (unat cnt))) (\<lambda>(i, found).
         ret (set_top_index (of_nat i) c)))))"

text \<open>The index of the child to descend into: that of the key, or the one before its place.\<close>

definition branch_index :: "nat \<times> bool \<Rightarrow> nat" where
  "branch_index r = (if \<not> snd r \<and> 0 < fst r then fst r - 1 else fst r)"

fun Cursor_search :: "nat \<Rightarrow> item \<Rightarrow> pgid \<Rightarrow> cursor \<Rightarrow> cursor act" where
  "Cursor_search 0 key pid c = fail Diverges"
| "Cursor_search (Suc fuel) key pid c =
     bnd (getPageNode (cur_bucket c) pid) (\<lambda>(node, page).
     thn (case page of
            None \<Rightarrow> ret ()
          | Some p \<Rightarrow> bnd (get_page p) (\<lambda>b. bnd (lift (page_flag b)) (\<lambda>fl.
              if fl AND (branchPageFlag OR leafPageFlag) = 0 then fail LogFatal else ret ()))) (
     let ref = ElementRef page node; c = push ref c in
     bnd (ElementRef_isLeaf ref) (\<lambda>leaf.
     if leaf then searchLeaf key c
     else case node of
       Some n \<Rightarrow>
         bnd (get_node n) (\<lambda>x.
         let index = branch_index (Node_search x key); c = set_top_index (of_nat index) c in
         bnd (lift (getInode x index)) (\<lambda>i. Cursor_search fuel key (inode_pageId i) c))
     | None \<Rightarrow>
         bnd (ref_page ref) (\<lambda>b. bnd (lift (page_count b)) (\<lambda>cnt.
         bnd (lift (binarySearchBranch b key (unat cnt))) (\<lambda>r.
         let index = branch_index r; c = set_top_index (of_nat index) c in
         bnd (lift (getBranchPageElement b index)) (\<lambda>el.
         Cursor_search fuel key (branch_pageId el) c)))))))"

text \<open>
  What a cursor shows: the pointer to the element in its page (null for an element of a node), the
  key, the value and the flag.
\<close>

record shown =
  sh_ptr :: "(page_ptr \<times> nat) option"
  sh_key :: item
  sh_value :: item
  sh_flag :: u32

definition shown_reset :: shown where
  "shown_reset = \<lparr>sh_ptr = None, sh_key = Item_default, sh_value = Item_default, sh_flag = 0\<rparr>"

text \<open>\<open>Cursor::keyValue\<close>; \<open>s\<close> holds what the reference parameters held before.\<close>

definition keyValue :: "cursor \<Rightarrow> shown \<Rightarrow> shown act" where
  "keyValue c s = (case elements c of
     [] \<Rightarrow> ret shown_reset
   | r # _ \<Rightarrow>
       bnd (ElementRef_count r) (\<lambda>cnt.
       if cnt = 0 \<or> cnt \<le> er_index r then ret (s\<lparr>sh_ptr := None\<rparr>)
       else case er_node r of
         Some n \<Rightarrow>
           bnd (get_node n) (\<lambda>x. bnd (lift (getInode x (unat (er_index r)))) (\<lambda>i.
           ret \<lparr>sh_ptr = None, sh_key = inode_key i, sh_value = inode_value i, sh_flag = inode_flag i\<rparr>))
       | None \<Rightarrow>
           bnd (ref_page r) (\<lambda>b.
           let j = unat (er_index r) in
           bnd (lift (getLeafPageElement b j)) (\<lambda>el.
           bnd (lift (leafPageElement_key b j)) (\<lambda>k. bnd (lift (leafPageElement_value b j)) (\<lambda>v.
           ret \<lparr>sh_ptr = map_option (\<lambda>p. (p, j)) (er_page r), sh_key = k, sh_value = v,
                sh_flag = leaf_flag el\<rparr>))))))"

definition do_seek :: "nat \<Rightarrow> item \<Rightarrow> cursor \<Rightarrow> (shown \<times> cursor) act" where
  "do_seek fuel searchKey c =
     bnd (getRootPage (cur_bucket c)) (\<lambda>rootPage.
     bnd (Cursor_search fuel searchKey rootPage (clearElements c)) (\<lambda>c.
     bnd (top_ref c) (\<lambda>r. bnd (ElementRef_count r) (\<lambda>cnt.
     if cnt \<le> er_index r then ret (shown_reset, c)
     else bnd (keyValue c shown_reset) (\<lambda>s. ret (s, c))))))"

definition seek :: "nat \<Rightarrow> item \<Rightarrow> cursor \<Rightarrow> (shown \<times> cursor) act" where
  "seek fuel searchKey c = do_seek fuel searchKey c"

section \<open>The node under the cursor\<close>

text \<open>The loop of \<open>Cursor::getNode\<close> over all positions but the last.\<close>

fun descend_nodes :: "elementRef list \<Rightarrow> node_ptr \<Rightarrow> node_ptr act" where
  "descend_nodes [] n = ret n"
| "descend_nodes [r] n = ret n"
| "descend_nodes (r # r' # rs) n =
     bnd (get_node n) (\<lambda>x.
     thn (assertA (\<not> isLeaf x)) (
     bnd (childAt n (unat (er_index r))) (\<lambda>c.
     case c of None \<Rightarrow> fail NullDeref | Some m \<Rightarrow> descend_nodes (r' # rs) m)))"

text \<open>
  \<open>Cursor::getNode\<close>. The stack is popped into a vector, reversed, and pushed back from the end, which
  turns it upside down.
\<close>

definition Cursor_getNode :: "cursor \<Rightarrow> (node_ptr \<times> cursor) act" where
  "Cursor_getNode c =
     bnd (case elements c of
            [] \<Rightarrow> ret None
          | r # _ \<Rightarrow> (case er_node r of
              None \<Rightarrow> ret None
            | Some n \<Rightarrow> bnd (ElementRef_isLeaf r) (\<lambda>leaf. ret (if leaf then Some n else None)))) (\<lambda>quick.
     case quick of
       Some n \<Rightarrow> ret (n, c)
     | None \<Rightarrow>
         let v = rev (elements c); c = c\<lparr>elements := v\<rparr> in
         (case v of
            [] \<Rightarrow> fail OutOfBounds
          | r # _ \<Rightarrow>
              bnd (case er_node r of
                     Some n \<Rightarrow> ret n
                   | None \<Rightarrow>
                       (case er_page r of
                          None \<Rightarrow> fail NullDeref
                        | Some p \<Rightarrow> bnd (get_page p) (\<lambda>b. bnd (lift (page_id b)) (\<lambda>pid.
                            Bucket_getNode (cur_bucket c) pid None)))) (\<lambda>n.
              bnd (descend_nodes v n) (\<lambda>n.
              bnd (get_node n) (\<lambda>x.
              thn (assertA (isLeaf x)) (ret (n, c)))))))"

section \<open>Iteration\<close>

text \<open>The page id under a position of a branch.\<close>

definition ref_child :: "elementRef \<Rightarrow> pgid act" where
  "ref_child r = (case er_node r of
     Some n \<Rightarrow> bnd (get_node n) (\<lambda>x. bnd (lift (getInode x (unat (er_index r)))) (\<lambda>i. ret (inode_pageId i)))
   | None \<Rightarrow> bnd (ref_page r) (\<lambda>b. bnd (lift (getBranchPageElement b (unat (er_index r)))) (\<lambda>el.
       ret (branch_pageId el))))"

fun do_first :: "nat \<Rightarrow> cursor \<Rightarrow> cursor act" where
  "do_first 0 c = fail Diverges"
| "do_first (Suc fuel) c =
     bnd (top_ref c) (\<lambda>r.
     bnd (ElementRef_isLeaf r) (\<lambda>leaf.
     if leaf then ret c
     else bnd (ref_child r) (\<lambda>pid.
     bnd (getPageNode (cur_bucket c) pid) (\<lambda>(node, page).
     do_first fuel (push (ElementRef page node) c)))))"

text \<open>\<open>element.count() - 1\<close> wraps around for an empty page.\<close>

definition last_ref :: "page_ptr option \<Rightarrow> node_ptr option \<Rightarrow> elementRef act" where
  "last_ref page node =
     (let r = ElementRef page node in
      bnd (ElementRef_count r) (\<lambda>cnt. ret (r\<lparr>er_index := cnt - 1\<rparr>)))"

fun do_last :: "nat \<Rightarrow> cursor \<Rightarrow> cursor act" where
  "do_last 0 c = fail Diverges"
| "do_last (Suc fuel) c =
     bnd (top_ref c) (\<lambda>r.
     bnd (ElementRef_isLeaf r) (\<lambda>leaf.
     if leaf then ret c
     else bnd (ref_child r) (\<lambda>pid.
     bnd (getPageNode (cur_bucket c) pid) (\<lambda>(node, page).
     bnd (last_ref page node) (\<lambda>e.
     do_last fuel (push e c))))))"

text \<open>The inner loop of \<open>do_next\<close>: pop the positions that are exhausted, advance the first that is not.\<close>

fun advance :: "elementRef list \<Rightarrow> elementRef list act" where
  "advance [] = ret []"
| "advance (r # rs) =
     bnd (ElementRef_count r) (\<lambda>cnt.
     if er_index r + 1 < cnt then ret (r\<lparr>er_index := er_index r + 1\<rparr> # rs) else advance rs)"

fun do_next :: "nat \<Rightarrow> cursor \<Rightarrow> shown \<Rightarrow> (shown \<times> cursor) act" where
  "do_next 0 c s = fail Diverges"
| "do_next (Suc fuel) c s =
     bnd (advance (elements c)) (\<lambda>es.
     let c = c\<lparr>elements := es\<rparr> in
     if es = [] then ret (shown_reset, c)
     else bnd (do_first fuel c) (\<lambda>c.
     bnd (top_ref c) (\<lambda>r. bnd (ElementRef_count r) (\<lambda>cnt.
     if cnt = 0 then do_next fuel c s
     else bnd (keyValue c s) (\<lambda>s. ret (s, c))))))"

definition Cursor_next :: "nat \<Rightarrow> cursor \<Rightarrow> (shown \<times> cursor) act" where
  "Cursor_next fuel c = do_next fuel c shown_reset"

text \<open>The loop of \<open>prev\<close>: pop until a position can step back.\<close>

fun retreat :: "elementRef list \<Rightarrow> elementRef list" where
  "retreat [] = []"
| "retreat (r # rs) =
     (if 0 < er_index r then r\<lparr>er_index := er_index r - 1\<rparr> # rs else retreat rs)"

definition Cursor_prev :: "nat \<Rightarrow> cursor \<Rightarrow> (shown \<times> cursor) act" where
  "Cursor_prev fuel c =
     (let c = c\<lparr>elements := retreat (elements c)\<rparr> in
      if elements c = [] then ret (shown_reset, c)
      else bnd (do_last fuel c) (\<lambda>c. bnd (keyValue c shown_reset) (\<lambda>s. ret (s, c))))"

definition Cursor_first :: "nat \<Rightarrow> cursor \<Rightarrow> (shown \<times> cursor) act" where
  "Cursor_first fuel c =
     (let c = clearElements c in
      bnd (getRootPage (cur_bucket c)) (\<lambda>rootPage.
      bnd (getPageNode (cur_bucket c) rootPage) (\<lambda>(node, page).
      bnd (do_first fuel (push (ElementRef page node) c)) (\<lambda>c.
      bnd (top_ref c) (\<lambda>r. bnd (ElementRef_count r) (\<lambda>cnt.
      bnd (if cnt = 0 then do_next fuel c shown_reset else ret (shown_reset, c)) (\<lambda>(s, c).
      bnd (keyValue c s) (\<lambda>s. ret (s, c)))))))))"

definition Cursor_last :: "nat \<Rightarrow> cursor \<Rightarrow> (shown \<times> cursor) act" where
  "Cursor_last fuel c =
     (let c = clearElements c in
      bnd (getRootPage (cur_bucket c)) (\<lambda>rootPage.
      bnd (getPageNode (cur_bucket c) rootPage) (\<lambda>(node, page).
      bnd (last_ref page node) (\<lambda>e.
      bnd (do_last fuel (push e c)) (\<lambda>c.
      bnd (keyValue c shown_reset) (\<lambda>s. ret (s, c)))))))"

text \<open>
  \<open>Cursor::remove\<close>. \<open>flag\<close> is not initialised: \<open>garbage\<close> is what it holds when \<open>keyValue\<close> returns
  without writing to it.
\<close>

definition Cursor_remove :: "u32 \<Rightarrow> cursor \<Rightarrow> (int \<times> cursor) act" where
  "Cursor_remove garbage c =
     bnd (get_bucket (cur_bucket c)) (\<lambda>b.
     bnd (get_tx (bucket_tx b)) (\<lambda>t.
     if \<not> tx_db t then ret (- 1, c)
     else if \<not> writable t then ret (- 1, c)
     else bnd (keyValue c (shown_reset\<lparr>sh_flag := garbage\<rparr>)) (\<lambda>s.
     if sh_flag s AND bucketLeafFlag \<noteq> 0 then ret (- 1, c)
     else bnd (Cursor_getNode c) (\<lambda>(n, c).
     thn (del_in_node n (sh_key s)) (ret (0, c))))))"

end
