(* ===== verification/Bucket.thy ===== *)
theory Bucket
  imports Cursor
begin

unbundle bit_operations_syntax

text \<open>
  The operations of \<open>src/src/Bolt/bucket.h\<close> and \<open>bucket.cc\<close> on keys and sub-buckets. Recursion over
  pages and sub-buckets is bounded by \<open>fuel\<close>. Rebalancing and spilling are in \<open>Node_Heap\<close> and
  \<open>Tx_Commit\<close>.
\<close>

section \<open>Cursors\<close>

definition createCursor :: "bucket_ptr \<Rightarrow> cursor act" where
  "createCursor b = bnd (get_bucket b) (\<lambda>x. thn (increaseCurserCount (bucket_tx x)) (ret (Cursor_new b)))"

section \<open>Keys\<close>

definition Bucket_get :: "nat \<Rightarrow> bucket_ptr \<Rightarrow> item \<Rightarrow> item act" where
  "Bucket_get fuel b key =
     bnd (createCursor b) (\<lambda>c.
     bnd (seek fuel key c) (\<lambda>(s, c).
     ret (if sh_flag s AND bucketLeafFlag \<noteq> 0 \<or> Item_neq (sh_key s) key then Item_default else sh_value s)))"

definition Bucket_put :: "nat \<Rightarrow> bucket_ptr \<Rightarrow> item \<Rightarrow> item \<Rightarrow> int act" where
  "Bucket_put fuel b key val =
     bnd (get_bucket b) (\<lambda>x. bnd (get_tx (bucket_tx x)) (\<lambda>t.
     if \<not> tx_db t \<or> \<not> writable t \<or> item_length key = 0 \<or> MAXKEYSIZE < item_length key \<or>
        MAXVALUESIZE < item_length val
     then ret (- 1)
     else
       bnd (createCursor b) (\<lambda>c.
       bnd (seek fuel key c) (\<lambda>(s, c).
       if Item_eq (sh_key s) key \<and> sh_flag s AND bucketLeafFlag \<noteq> 0 then fail LogFatal
       else bnd (Cursor_getNode c) (\<lambda>(n, c).
       thn (put_in_node n key key val 0 0) (ret 0))))))"

definition Bucket_remove :: "nat \<Rightarrow> bucket_ptr \<Rightarrow> item \<Rightarrow> int act" where
  "Bucket_remove fuel b key =
     bnd (get_bucket b) (\<lambda>x. bnd (get_tx (bucket_tx x)) (\<lambda>t.
     if \<not> tx_db t \<or> \<not> writable t \<or> item_length key = 0 then ret (- 1)
     else
       bnd (createCursor b) (\<lambda>c.
       bnd (seek fuel key c) (\<lambda>(s, c).
       if sh_flag s AND bucketLeafFlag \<noteq> 0 then fail LogFatal
       else bnd (Cursor_getNode c) (\<lambda>(n, c).
       thn (del_in_node n key) (ret 0))))))"

text \<open>
  \<open>Bucket::for_each\<close> calls \<open>fn\<close> on every entry until it returns a non-zero value. \<open>steps\<close> bounds the
  number of entries.
\<close>

fun for_each_loop :: "nat \<Rightarrow> nat \<Rightarrow> (item \<Rightarrow> item \<Rightarrow> int act) \<Rightarrow> shown \<Rightarrow> cursor \<Rightarrow> int act" where
  "for_each_loop 0 fuel fn s c = fail Diverges"
| "for_each_loop (Suc steps) fuel fn s c =
     (if item_length (sh_key s) = 0 then ret 0
      else bnd (fn (sh_key s) (sh_value s)) (\<lambda>rc.
      if rc \<noteq> 0 then ret rc
      else bnd (Cursor_next fuel c) (\<lambda>(s, c). for_each_loop steps fuel fn s c)))"

definition for_each :: "nat \<Rightarrow> nat \<Rightarrow> bucket_ptr \<Rightarrow> (item \<Rightarrow> item \<Rightarrow> int act) \<Rightarrow> int act" where
  "for_each steps fuel b fn =
     bnd (get_bucket b) (\<lambda>x. bnd (get_tx (bucket_tx x)) (\<lambda>t.
     if \<not> tx_db t then ret (- 1)
     else bnd (createCursor b) (\<lambda>c.
     bnd (Cursor_first fuel c) (\<lambda>(s, c). for_each_loop steps fuel fn s c))))"

section \<open>Pages of a bucket\<close>

definition Bucket_for_each_page :: "nat \<Rightarrow> bucket_ptr \<Rightarrow> (page_ptr option \<times> nat) list act" where
  "Bucket_for_each_page fuel b =
     bnd (get_bucket b) (\<lambda>x.
     case bucket_page x of
       Some p \<Rightarrow> ret [(Some p, 0)]
     | None \<Rightarrow> Tx_for_each_page fuel (bucket_tx x) (bh_root (bucketHeader x)) 0)"

fun for_each_page_node_impl :: "nat \<Rightarrow> bucket_ptr \<Rightarrow> pgid \<Rightarrow> nat \<Rightarrow>
    (page_ptr option \<Rightarrow> node_ptr option \<Rightarrow> nat \<Rightarrow> unit act) \<Rightarrow> unit act" where
  "for_each_page_node_impl 0 b pid depth fn = fail Diverges"
| "for_each_page_node_impl (Suc fuel) b pid depth fn =
     bnd (getPageNode b pid) (\<lambda>(node, page).
     thn (fn page node depth) (
     case page of
       Some p \<Rightarrow>
         bnd (get_page p) (\<lambda>bytes. bnd (lift (page_flag bytes)) (\<lambda>fl.
         if fl AND branchPageFlag \<noteq> 0 then
           bnd (lift (page_count bytes)) (\<lambda>cnt.
           iterA (\<lambda>i. bnd (lift (getBranchPageElement bytes i)) (\<lambda>el.
             for_each_page_node_impl fuel b (branch_pageId el) (depth + 1) fn)) [0..<unat cnt])
         else ret ()))
     | None \<Rightarrow>
         (case node of
            None \<Rightarrow> fail NullDeref
          | Some n \<Rightarrow> bnd (get_node n) (\<lambda>x.
              if isLeaf x then ret ()
              else iterA (\<lambda>q. for_each_page_node_impl fuel b q (depth + 1) fn) (branchPageIds x)))))"

definition for_each_page_node :: "nat \<Rightarrow> bucket_ptr \<Rightarrow>
    (page_ptr option \<Rightarrow> node_ptr option \<Rightarrow> nat \<Rightarrow> unit act) \<Rightarrow> unit act" where
  "for_each_page_node fuel b fn =
     bnd (get_bucket b) (\<lambda>x.
     case bucket_page x of
       Some p \<Rightarrow> fn (Some p) None 0
     | None \<Rightarrow> for_each_page_node_impl fuel b (bh_root (bucketHeader x)) 0 fn)"

definition Bucket_free :: "nat \<Rightarrow> bucket_ptr \<Rightarrow> unit act" where
  "Bucket_free fuel b =
     bnd (get_bucket b) (\<lambda>x.
     if bh_root (bucketHeader x) = 0 then ret ()
     else
       thn (for_each_page_node fuel b (\<lambda>p n d.
              case p of
                Some q \<Rightarrow> bnd (getTxId (bucket_tx x)) (\<lambda>tid. Tx_free (bucket_tx x) tid (Some q))
              | None \<Rightarrow> (case n of None \<Rightarrow> fail AssertFail | Some m \<Rightarrow> Node_free m)))
           (upd_bucket b (\<lambda>x. x\<lparr>bucketHeader := (bucketHeader x)\<lparr>bh_root := 0\<rparr>\<rparr>)))"

section \<open>Sub-buckets\<close>

text \<open>
  \<open>Bucket::openBucket\<close>. The header is copied from the value. The page of an inline bucket starts
  behind the header: inside the leaf page when \<open>ptr\<close> names the element, and otherwise inside the
  parameter \<open>value\<close>, which is destroyed when the function returns.
\<close>

definition openBucket :: "bucket_ptr \<Rightarrow> item \<Rightarrow> (page_ptr \<times> nat) option \<Rightarrow> bucket_ptr act" where
  "openBucket b val ptr =
     bnd (get_bucket b) (\<lambda>x.
     bnd (newBucket (bucket_tx x)) (\<lambda>child.
     bnd (lift (read_bucketHeader (item_data val @ [0]) 0)) (\<lambda>h.
     thn (setBucketHeader child h) (
     if bh_root h \<noteq> 0 then ret child
     else (case ptr of
        Some (p, i) \<Rightarrow>
          bnd (get_page p) (\<lambda>bytes. bnd (lift (leafPageElement_valuePtr bytes i)) (\<lambda>off.
          thn (upd_bucket child (\<lambda>c. c\<lparr>bucket_page := Some (InsidePage p (off + BUCKETHEADERSIZE))\<rparr>)) (ret child)))
      | None \<Rightarrow>
          thn (upd_bucket child (\<lambda>c. c\<lparr>bucket_page := Some DeadItem\<rparr>)) (ret child))))))"

text \<open>\<open>buckets_\<close> is keyed by \<open>Item\<close>, which compares and hashes by its bytes.\<close>

definition find_bucket :: "item \<Rightarrow> (item \<times> bucket_ptr) list \<Rightarrow> bucket_ptr option" where
  "find_bucket key bs = map_option snd (find (\<lambda>e. item_data (fst e) = item_data key) bs)"

definition getBucketByName :: "nat \<Rightarrow> bucket_ptr \<Rightarrow> item \<Rightarrow> bucket_ptr option act" where
  "getBucketByName fuel b searchKey =
     bnd (get_bucket b) (\<lambda>x.
     case find_bucket searchKey (buckets x) of
       Some r \<Rightarrow> ret (Some r)
     | None \<Rightarrow>
         bnd (createCursor b) (\<lambda>c.
         bnd (seek fuel searchKey c) (\<lambda>(s, c).
         if item_data searchKey \<noteq> item_data (sh_key s) \<or> sh_flag s AND bucketLeafFlag = 0 then ret None
         else bnd (openBucket b (sh_value s) (sh_ptr s)) (\<lambda>r.
         thn (upd_bucket b (\<lambda>x. x\<lparr>buckets := buckets x @ [(searchKey, r)]\<rparr>)) (ret (Some r))))))"

text \<open>\<open>Bucket::write\<close>: the header and the serialised root node as one value.\<close>

definition Bucket_write :: "bucket_ptr \<Rightarrow> item act" where
  "Bucket_write b =
     bnd (get_bucket b) (\<lambda>x.
     bnd (lift (of_option NullDeref (rootNode x))) (\<lambda>r. bnd (get_node r) (\<lambda>n.
     bnd (gets (\<lambda>w. (page_address (env w) (nextPtr w), stack_address (env w)))) (\<lambda>(pa, ia).
     let len = unat (of_nat BUCKETHEADERSIZE + Node_size n) in
     bnd (lift (write_bytes (replicate len 0) 0 (bucketHeader_bytes (bucketHeader x)))) (\<lambda>buf.
     bnd (lift (on_page BUCKETHEADERSIZE (Node_write pa ia n) buf)) (\<lambda>buf.
     ret \<lparr>item_data = buf, item_length = of_nat len\<rparr>))))))"

text \<open>
  \<open>Bucket::createBucket\<close>. The empty bucket is a local object that dies at the end of the function,
  with its root node. \<open>flag\<close> is written by \<open>seek\<close> before it is read.
\<close>

definition createBucket :: "nat \<Rightarrow> bucket_ptr \<Rightarrow> item \<Rightarrow> bucket_ptr option act" where
  "createBucket fuel b key =
     bnd (get_bucket b) (\<lambda>x. bnd (get_tx (bucket_tx x)) (\<lambda>t.
     if \<not> tx_db t \<or> \<not> writable t \<or> item_length key = 0 then ret None
     else
       bnd (seek fuel key (Cursor_new b)) (\<lambda>(s, c).
       if Item_eq (sh_key s) key then
         (if sh_flag s AND bucketLeafFlag \<noteq> 0 then getBucketByName fuel b key else ret None)
       else
         bnd (newBucket (bucket_tx x)) (\<lambda>tmp.
         bnd (new_node (markLeaf (Node_new tmp None))) (\<lambda>r.
         thn (upd_bucket tmp (\<lambda>y. y\<lparr>rootNode := Some r\<rparr>)) (
         bnd (Bucket_write tmp) (\<lambda>putValue.
         bnd (Cursor_getNode c) (\<lambda>(n, c).
         thn (put_in_node n key key putValue 0 bucketLeafFlag) (
         thn (upd_bucket b (\<lambda>x. x\<lparr>bucket_page := None\<rparr>)) (
         bnd (getBucketByName fuel b key) (\<lambda>res.
         thn (modify (\<lambda>w. w\<lparr>bucketHeap := (bucketHeap w)(tmp := None), nodeHeap := (nodeHeap w)(r := None)\<rparr>))
             (ret res))))))))))))"

definition createBucketIfNotExists :: "nat \<Rightarrow> bucket_ptr \<Rightarrow> item \<Rightarrow> bucket_ptr option act" where
  "createBucketIfNotExists fuel b key = createBucket fuel b key"

text \<open>
  \<open>Bucket::deleteBucket\<close>; the null pointer that \<open>getBucketByName\<close> may return is dereferenced. The
  recursion over the entries with an empty value is bounded by \<open>fuel\<close> as well.
\<close>

fun deleteBucket :: "nat \<Rightarrow> bucket_ptr \<Rightarrow> item \<Rightarrow> int act" where
  "deleteBucket 0 b key = fail Diverges"
| "deleteBucket (Suc fuel) b key =
     bnd (get_bucket b) (\<lambda>x. bnd (get_tx (bucket_tx x)) (\<lambda>t.
     if \<not> tx_db t \<or> \<not> writable t then ret (- 1)
     else
       bnd (createCursor b) (\<lambda>c.
       bnd (seek fuel key c) (\<lambda>(s, c).
       if item_data (sh_key s) \<noteq> item_data key \<or> sh_flag s AND bucketLeafFlag \<noteq> 0 then ret (- 1)
       else
         bnd (getBucketByName fuel b key) (\<lambda>child.
         bnd (for_each fuel fuel b (\<lambda>k v.
                if item_length v = 0 then
                  (case child of None \<Rightarrow> fail NullDeref | Some ch \<Rightarrow> deleteBucket fuel ch k)
                else ret 0)) (\<lambda>rc.
         if rc \<noteq> 0 then ret rc
         else
           thn (upd_bucket b (\<lambda>x. x\<lparr>buckets := filter (\<lambda>e. item_data (fst e) \<noteq> item_data key) (buckets x)\<rparr>)) (
           case child of
             None \<Rightarrow> fail NullDeref
           | Some ch \<Rightarrow>
               thn (upd_bucket ch (\<lambda>y. y\<lparr>nodes := [], rootNode := None\<rparr>)) (
               thn (Bucket_free fuel ch) (
               bnd (Cursor_getNode c) (\<lambda>(n, c).
               thn (del_in_node n key) (ret 0)))))))))))"

section \<open>Inline buckets\<close>

definition maxInlineBucketSize :: u32 where "maxInlineBucketSize = 1024"

definition isInlineable :: "bucket_ptr \<Rightarrow> bool act" where
  "isInlineable b =
     bnd (get_bucket b) (\<lambda>x.
     case rootNode x of
       None \<Rightarrow> ret False
     | Some r \<Rightarrow> bnd (get_node r) (\<lambda>n.
         ret (isLeaf n \<and> Node_isinlineable maxInlineBucketSize n)))"

end
