(* ===== verification/Node_Heap.thy ===== *)
theory Node_Heap
  imports Bucket_Node
begin

unbundle bit_operations_syntax

text \<open>
  The operations of \<open>src/src/Bolt/node.cc\<close> that follow pointers between nodes: the path to the
  root, siblings, splitting, spilling to pages and rebalancing. Nodes are shared pointers that
  refer to each other in both directions, so the heap never gives a node back. Recursion through
  parent and child pointers is bounded by \<open>fuel\<close>.
\<close>

section \<open>Relatives\<close>

fun Node_root :: "nat \<Rightarrow> node_ptr \<Rightarrow> node_ptr act" where
  "Node_root 0 n = fail Diverges"
| "Node_root (Suc fuel) n =
     bnd (get_node n) (\<lambda>x. case parentNode x of None \<Rightarrow> ret n | Some p \<Rightarrow> Node_root fuel p)"

definition childIndex :: "node_ptr \<Rightarrow> node_ptr \<Rightarrow> nat act" where
  "childIndex n child =
     bnd (get_node n) (\<lambda>x. bnd (get_node child) (\<lambda>c.
     let (index, found) = binarySearch (inodeList x) (node_key c) in
     thn (assertA found) (ret index)))"

text \<open>A target that is no child is only logged.\<close>

definition removeChild :: "node_ptr \<Rightarrow> node_ptr \<Rightarrow> unit act" where
  "removeChild n target = upd_node n (\<lambda>x. x\<lparr>children := remove1 target (children x)\<rparr>)"

definition nextSibling :: "node_ptr \<Rightarrow> node_ptr option act" where
  "nextSibling n =
     bnd (get_node n) (\<lambda>x.
     case parentNode x of
       None \<Rightarrow> ret None
     | Some p \<Rightarrow> bnd (childIndex p n) (\<lambda>idx. if idx = 0 then ret None else childAt p (idx + 1)))"

definition prevSibling :: "node_ptr \<Rightarrow> node_ptr option act" where
  "prevSibling n =
     bnd (get_node n) (\<lambda>x.
     case parentNode x of
       None \<Rightarrow> ret None
     | Some p \<Rightarrow> bnd (childIndex p n) (\<lambda>idx. if idx = 0 then ret None else childAt p (idx - 1)))"

section \<open>Splitting\<close>

text \<open>\<open>uint32_t threshold = pageSize * fill\<close> with the fill percentage clamped.\<close>

definition split_threshold :: "u32 \<Rightarrow> rat \<Rightarrow> u32" where
  "split_threshold ps fill =
     (let fill = (if fill < MINFILLPERCENT then MINFILLPERCENT else fill);
          fill = (if MAXFILLPERCENT < fill then MAXFILLPERCENT else fill)
      in word_of_int (floor (of_nat (unat ps) * fill)))"

text \<open>The parent of a node that is about to be split; a root gets a new parent.\<close>

definition split_parent :: "node_ptr \<Rightarrow> node_ptr act" where
  "split_parent n =
     bnd (get_node n) (\<lambda>x.
     case parentNode x of
       Some p \<Rightarrow> ret p
     | None \<Rightarrow>
         bnd (new_node (Node_new (node_bucket x) None)) (\<lambda>p.
         thn (upd_node n (\<lambda>x. x\<lparr>parentNode := Some p\<rparr>)) (thn (addChild p n) (ret p))))"

definition splitTwo :: "u32 \<Rightarrow> node_ptr \<Rightarrow> (node_ptr \<times> node_ptr option) act" where
  "splitTwo ps n =
     bnd (get_node n) (\<lambda>x.
     if length (inodeList x) \<le> MINKEYSPERPAGE * 2 \<or> sizeLessThan x ps then ret (n, None)
     else
       bnd (get_bucket (node_bucket x)) (\<lambda>b.
       bnd (lift (splitIndex x (split_threshold ps (fillPercent b)))) (\<lambda>index.
       bnd (split_parent n) (\<lambda>p.
       bnd (new_node ((Node_new (node_bucket x) (Some p))\<lparr>isLeaf := isLeaf x\<rparr>)) (\<lambda>m.
       thn (addChild p m) (
       thn (upd_node m (\<lambda>y. y\<lparr>inodeList := inodeList y @ drop index (inodeList x)\<rparr>)) (
       thn (upd_node n (\<lambda>x. x\<lparr>inodeList := take index (inodeList x)\<rparr>)) (
       ret (n, Some m)))))))))"

fun split_loop :: "nat \<Rightarrow> u32 \<Rightarrow> node_ptr \<Rightarrow> node_ptr list \<Rightarrow> node_ptr list act" where
  "split_loop 0 ps cur result = fail Diverges"
| "split_loop (Suc fuel) ps cur result =
     bnd (splitTwo ps cur) (\<lambda>(a, b).
     case b of
       None \<Rightarrow> ret (result @ [a])
     | Some m \<Rightarrow> split_loop fuel ps m (result @ [a]))"

text \<open>
  \<open>Node::split\<close>. Each turn moves at least two inodes fewer on, so as many turns as there are
  inodes (and one more) are always enough.
\<close>

definition Node_split :: "u32 \<Rightarrow> node_ptr \<Rightarrow> node_ptr list act" where
  "Node_split ps n = bnd (get_node n) (\<lambda>x. split_loop (Suc (length (inodeList x))) ps n [])"

section \<open>Spilling\<close>

definition front_key :: "node \<Rightarrow> item result" where
  "front_key x = (case inodeList x of [] \<Rightarrow> Inl OutOfBounds | i # _ \<Rightarrow> Inr (inode_key i))"

text \<open>The entry of a spilled node in its parent.\<close>

definition spill_to_parent :: "node_ptr \<Rightarrow> node_ptr \<Rightarrow> unit act" where
  "spill_to_parent self n =
     bnd (get_node n) (\<lambda>x.
     case parentNode x of
       None \<Rightarrow> ret ()
     | Some p \<Rightarrow>
         bnd (if item_length (node_key x) = 0 then bnd (get_node self) (\<lambda>s. lift (front_key s))
              else ret (node_key x)) (\<lambda>k.
         bnd (lift (front_key x)) (\<lambda>k'.
         thn (put_in_node p k k' Item_default (node_pageId x) 0) (
         thn (upd_node n (\<lambda>x. x\<lparr>node_key := k'\<rparr>)) (
         assertA (0 < item_length k))))))"

definition page_addr :: "page_ptr \<Rightarrow> world \<Rightarrow> u64" where
  "page_addr p w = (case p of HeapPage a \<Rightarrow> page_address (env w) a | _ \<Rightarrow> 0)"

text \<open>
  The body of the loop of \<open>spill\<close> over the nodes of the split; \<open>self\<close> is the node that runs
  \<open>spill\<close>, whose size and first key the code uses. The result is \<open>False\<close> when no page could be
  allocated, which makes \<open>spill\<close> return.
\<close>

definition spill_node :: "tx_ptr \<Rightarrow> node_ptr \<Rightarrow> node_ptr \<Rightarrow> bool act" where
  "spill_node t self n =
     bnd (get_node n) (\<lambda>x.
     thn (if 0 < node_pageId x
          then bnd (getTxId t) (\<lambda>tid. bnd (Tx_getPage t (node_pageId x)) (\<lambda>p. Tx_free t tid p))
          else ret ()) (
     bnd (get_node self) (\<lambda>s.
     bnd (Tx_allocate t (Node_size s div 4096 + 1)) (\<lambda>r.
     case r of
       None \<Rightarrow> ret False
     | Some p \<Rightarrow>
         bnd (get_page p) (\<lambda>b. bnd (lift (page_id b)) (\<lambda>pid.
         bnd (getTotalPageNumber t) (\<lambda>tp.
         thn (assertA (pid < ucast tp)) (
         thn (upd_node n (\<lambda>x. x\<lparr>node_pageId := pid\<rparr>)) (
         bnd (gets (\<lambda>w. (page_addr p w, stack_address (env w)))) (\<lambda>(pa, ia).
         bnd (get_node n) (\<lambda>x.
         thn (upd_page p (Node_write pa ia x)) (
         thn (upd_node n (\<lambda>x. x\<lparr>spilled := True\<rparr>)) (
         thn (spill_to_parent self n) (ret True))))))))))))))"

fun spill_nodes :: "tx_ptr \<Rightarrow> node_ptr \<Rightarrow> node_ptr list \<Rightarrow> bool act" where
  "spill_nodes t self [] = ret True"
| "spill_nodes t self (n # ns) =
     bnd (spill_node t self n) (\<lambda>ok. if ok then spill_nodes t self ns else ret False)"

text \<open>
  \<open>Node::spill\<close> and its loop over the children, whose vector may grow under it. The function
  returns false on every path (\<open>return 0\<close> on success, \<open>return false\<close> on failure).
\<close>

fun Node_spill :: "nat \<Rightarrow> node_ptr \<Rightarrow> bool act"
and spill_children :: "nat \<Rightarrow> node_ptr \<Rightarrow> nat \<Rightarrow> bool act" where
  "Node_spill 0 n = fail Diverges"
| "Node_spill (Suc fuel) n =
     bnd (get_node n) (\<lambda>x.
     if spilled x then ret False
     else
       bnd (get_bucket (node_bucket x)) (\<lambda>b.
       bnd (gets (\<lambda>w. address (env w))) (\<lambda>adr.
       thn (upd_node n (\<lambda>x. x\<lparr>children := sort_key adr (children x)\<rparr>)) (
       bnd (spill_children fuel n 0) (\<lambda>stop.
       if stop then ret False
       else
         thn (upd_node n (\<lambda>x. x\<lparr>children := []\<rparr>)) (
         bnd (Node_split 4096 n) (\<lambda>ns.
         bnd (spill_nodes (bucket_tx b) n ns) (\<lambda>ok.
         if \<not> ok then ret False
         else
           bnd (get_node n) (\<lambda>x.
           case parentNode x of
             None \<Rightarrow> ret False
           | Some p \<Rightarrow>
               bnd (get_node p) (\<lambda>px.
               if node_pageId px = 0
               then thn (upd_node n (\<lambda>x. x\<lparr>children := []\<rparr>)) (Node_spill fuel p)
               else ret False))))))))))"
| "spill_children 0 n i = fail Diverges"
| "spill_children (Suc fuel) n i =
     bnd (get_node n) (\<lambda>x.
     if i < length (children x) then
       bnd (Node_spill fuel (children x ! i)) (\<lambda>r. if r then ret True else spill_children fuel n (Suc i))
     else ret False)"

section \<open>Rebalancing\<close>

text \<open>A root branch with a single entry takes over the content of that child.\<close>

definition collapse_root :: "node_ptr \<Rightarrow> unit act" where
  "collapse_root n =
     bnd (get_node n) (\<lambda>x. bnd (lift (getInode x 0)) (\<lambda>i.
     let b = node_bucket x in
     bnd (Bucket_getNode b (inode_pageId i) (Some n)) (\<lambda>child.
     bnd (get_node child) (\<lambda>c.
     thn (upd_node n (\<lambda>x. x\<lparr>isLeaf := isLeaf c, inodeList := inodeList c, children := children c\<rparr>)) (
     thn (iterA (\<lambda>item.
            bnd (getCachedNode b (inode_pageId item)) (\<lambda>q.
            case q of
              None \<Rightarrow> fail AssertFail
            | Some m \<Rightarrow> upd_node m (\<lambda>y. y\<lparr>parentNode := Some n\<rparr>))) (inodeList c)) (
     thn (upd_node child (\<lambda>c. c\<lparr>parentNode := None\<rparr>)) (
     bnd (get_node child) (\<lambda>c.
     thn (eraseCachedNode b (node_pageId c)) (Node_free child)))))))))"

text \<open>A cached child below \<open>item\<close> moves to the node \<open>target\<close>.\<close>

definition reparent :: "bucket_ptr \<Rightarrow> node_ptr \<Rightarrow> inode \<Rightarrow> unit act" where
  "reparent b target item =
     bnd (getCachedNode b (inode_pageId item)) (\<lambda>q.
     case q of
       None \<Rightarrow> ret ()
     | Some c \<Rightarrow>
         bnd (get_node c) (\<lambda>y.
         bnd (lift (of_option NullDeref (parentNode y))) (\<lambda>p.
         thn (removeChild p c) (
         thn (upd_node c (\<lambda>y. y\<lparr>parentNode := Some target\<rparr>)) (
         addChild target c)))))"

text \<open>The inodes of \<open>src\<close> move to \<open>dst\<close>; \<open>src\<close> leaves the parent \<open>p\<close> and the cache.\<close>

definition merge_into :: "bucket_ptr \<Rightarrow> node_ptr \<Rightarrow> node_ptr \<Rightarrow> node_ptr \<Rightarrow> unit act" where
  "merge_into b p src dst =
     bnd (get_node src) (\<lambda>s.
     thn (iterA (reparent b dst) (inodeList s)) (
     thn (upd_node dst (\<lambda>d. d\<lparr>inodeList := inodeList d @ inodeList s\<rparr>)) (
     thn (del_in_node p (node_key s)) (
     thn (removeChild p src) (
     bnd (get_node src) (\<lambda>s.
     thn (eraseCachedNode b (node_pageId s)) (Node_free src)))))))"

definition merge_sibling :: "node_ptr \<Rightarrow> node_ptr \<Rightarrow> unit act" where
  "merge_sibling n p =
     bnd (childIndex p n) (\<lambda>idx.
     if idx = 0 then
       bnd (nextSibling n) (\<lambda>target. bnd (lift (of_option NullDeref target)) (\<lambda>t.
       bnd (get_node n) (\<lambda>x. merge_into (node_bucket x) p t n)))
     else
       bnd (prevSibling n) (\<lambda>target. bnd (lift (of_option NullDeref target)) (\<lambda>t.
       bnd (get_node t) (\<lambda>x. merge_into (node_bucket x) p n t))))"

fun Node_rebalance :: "nat \<Rightarrow> node_ptr \<Rightarrow> unit act" where
  "Node_rebalance 0 n = fail Diverges"
| "Node_rebalance (Suc fuel) n =
     bnd (get_node n) (\<lambda>x.
     if \<not> unbalanced x then ret ()
     else
       thn (upd_node n (\<lambda>x. x\<lparr>unbalanced := False\<rparr>)) (
       if 1024 < Node_size x \<and> minKeys x < length (inodeList x) then ret ()
       else case parentNode x of
         None \<Rightarrow> if \<not> isLeaf x \<and> length (inodeList x) = 1 then collapse_root n else ret ()
       | Some p \<Rightarrow>
           if numChildren x = 0 then
             thn (del_in_node p (node_key x)) (
             thn (removeChild p n) (
             thn (eraseCachedNode (node_bucket x) (node_pageId x)) (
             thn (Node_free n) (Node_rebalance fuel p))))
           else
             bnd (get_node p) (\<lambda>px.
             thn (assertA (1 < numChildren px)) (
             thn (merge_sibling n p) (Node_rebalance fuel p)))))"

end
