(* ===== verification/Tx_Commit.thy ===== *)
theory Tx_Commit
  imports Bucket Node_Heap
begin

unbundle bit_operations_syntax

text \<open>
  What happens to a transaction as a whole (\<open>src/src/Bolt/bucket.cc\<close>, \<open>tx.cc\<close>): rebalancing and
  spilling of its buckets, initialisation, rollback and commit, and the bucket operations it
  offers. Recursion over sub-buckets is bounded by \<open>fuel\<close>.
\<close>

section \<open>Rebalancing a bucket\<close>

text \<open>
  The loop of \<open>Bucket::rebalance\<close> over the node cache, in the iteration order of the cache.
  Rebalancing a node may take entries out of the cache: an entry that is gone before its turn is
  not visited, and the loop cannot step on from an entry that was erased during its own turn (the
  iterator is invalid). A node cached during the loop is not visited.
\<close>

fun rebalance_nodes :: "nat \<Rightarrow> bucket_ptr \<Rightarrow> pgid list \<Rightarrow> unit act" where
  "rebalance_nodes fuel b [] = ret ()"
| "rebalance_nodes fuel b (pid # pids) =
     bnd (getCachedNode b pid) (\<lambda>q.
     case q of
       None \<Rightarrow> rebalance_nodes fuel b pids
     | Some n \<Rightarrow>
         thn (Node_rebalance fuel n) (
         bnd (getCachedNode b pid) (\<lambda>q'.
         if q' = None then fail UseAfterFree else rebalance_nodes fuel b pids)))"

fun Bucket_rebalance :: "nat \<Rightarrow> bucket_ptr \<Rightarrow> unit act" where
  "Bucket_rebalance 0 b = fail Diverges"
| "Bucket_rebalance (Suc fuel) b =
     bnd (get_bucket b) (\<lambda>x.
     thn (rebalance_nodes fuel b (map fst (nodes x))) (
     bnd (get_bucket b) (\<lambda>x.
     iterA (\<lambda>e. Bucket_rebalance fuel (snd e)) (buckets x))))"

section \<open>Spilling a bucket\<close>

text \<open>A loop whose body can make the function return false.\<close>

fun all_ok :: "('a \<Rightarrow> bool act) \<Rightarrow> 'a list \<Rightarrow> bool act" where
  "all_ok f [] = ret True"
| "all_ok f (x # xs) = bnd (f x) (\<lambda>ok. if ok then all_ok f xs else ret False)"

text \<open>The entry of a child bucket in its parent gets its new value.\<close>

definition put_child :: "nat \<Rightarrow> bucket_ptr \<Rightarrow> item \<Rightarrow> item \<Rightarrow> bool act" where
  "put_child fuel b name newValue =
     bnd (createCursor b) (\<lambda>c.
     bnd (seek fuel name c) (\<lambda>(s, c).
     thn (assertA (\<not> Item_neq (sh_key s) name)) (
     thn (assertA (sh_flag s AND bucketLeafFlag \<noteq> 0)) (
     bnd (Cursor_getNode c) (\<lambda>(n, c).
     thn (put_in_node n name name newValue 0 bucketLeafFlag) (ret True))))))"

definition spill_root :: "nat \<Rightarrow> bucket_ptr \<Rightarrow> bool act" where
  "spill_root fuel b =
     bnd (get_bucket b) (\<lambda>x.
     case rootNode x of
       None \<Rightarrow> ret True
     | Some r \<Rightarrow>
         bnd (Node_spill fuel r) (\<lambda>rc.
         if rc then ret rc
         else
           bnd (Node_root fuel r) (\<lambda>r'.
           thn (upd_bucket b (\<lambda>x. x\<lparr>rootNode := Some r'\<rparr>)) (
           bnd (get_node r') (\<lambda>y.
           bnd (tx_meta (bucket_tx x)) (\<lambda>m.
           thn (assertA (node_pageId y < totalPageNumber m)) (
           thn (upd_bucket b (\<lambda>x. x\<lparr>bucketHeader := (bucketHeader x)\<lparr>bh_root := node_pageId y\<rparr>\<rparr>)) (
           ret True))))))))"

fun Bucket_spill :: "nat \<Rightarrow> bucket_ptr \<Rightarrow> bool act" where
  "Bucket_spill 0 b = fail Diverges"
| "Bucket_spill (Suc fuel) b =
     bnd (get_bucket b) (\<lambda>x.
     bnd (all_ok (\<lambda>(name, child).
       bnd (isInlineable child) (\<lambda>inl.
       bnd (if inl then thn (Bucket_free fuel child) (bnd (Bucket_write child) (\<lambda>v. ret (Some v)))
            else
              bnd (Bucket_spill fuel child) (\<lambda>ok.
              if \<not> ok then ret None
              else bnd (get_bucket child) (\<lambda>c.
                   bnd (lift (Item_buf (bucketHeader_bytes (bucketHeader c)) 0 (of_nat BUCKETHEADERSIZE))) (\<lambda>v.
                   ret (Some v))))) (\<lambda>newValue.
       case newValue of
         None \<Rightarrow> ret False
       | Some v \<Rightarrow>
           bnd (get_bucket child) (\<lambda>c.
           if rootNode c = None then ret True else put_child fuel b name v)))) (buckets x)) (\<lambda>ok.
     if \<not> ok then ret False else spill_root fuel b))"

section \<open>Transactions\<close>

definition tx_root :: "tx_ptr \<Rightarrow> bucket_ptr act" where
  "tx_root t = bnd (get_tx t) (\<lambda>x. lift (of_option NullDeref (rootBucket x)))"

definition Tx_init :: "tx_ptr \<Rightarrow> unit act" where
  "Tx_init t =
     bnd (newBucket t) (\<lambda>b.
     thn (upd_tx t (\<lambda>x. x\<lparr>rootBucket := Some b, tx_db := True\<rparr>)) (
     bnd DB_getMeta (\<lambda>m.
     thn (upd_tx t (\<lambda>x. x\<lparr>metaData := Some m\<rparr>)) (
     thn (setBucketHeader b (meta_root m)) (
     bnd (isWritable t) (\<lambda>wr.
     if wr then upd_meta t (\<lambda>m. m\<lparr>meta_txid := meta_txid m + 1\<rparr>) else ret ()))))))"

text \<open>The reload reads the freelist page the transaction's meta names, from the mapping.\<close>

definition Tx_rollback :: "tx_ptr \<Rightarrow> int act" where
  "Tx_rollback t =
     bnd (get_tx t) (\<lambda>x.
     if managed x then ret (- 1)
     else if \<not> tx_db x then ret (- 1)
     else if \<not> writable x then ret 0
     else
       bnd (tx_meta t) (\<lambda>m.
       thn (modify (\<lambda>w. w\<lparr>freelist := freeList_rollback (meta_txid m) (freelist w)\<rparr>)) (
       bnd (getPagePtr (freeListPageNumber m)) (\<lambda>p.
       bnd (get_page p) (\<lambda>b.
       bnd (gets freelist) (\<lambda>fl.
       bnd (lift (freeList_reload b fl)) (\<lambda>fl'.
       thn (modify (\<lambda>w. w\<lparr>freelist := fl'\<rparr>)) (ret 0))))))))"

text \<open>Giving up after an error: roll back, return -1.\<close>

definition abandon :: "tx_ptr \<Rightarrow> int act" where
  "abandon t = thn (Tx_rollback t) (ret (- 1))"

text \<open>
  The freelist part of \<open>Tx::commit\<close>: the old freelist page is freed, a new one allocated and
  written. \<open>False\<close> when no page could be allocated.
\<close>

definition commit_freelist :: "tx_ptr \<Rightarrow> bool act" where
  "commit_freelist t =
     bnd (tx_meta t) (\<lambda>m.
     bnd (getPagePtr (freeListPageNumber m)) (\<lambda>old.
     thn (Tx_free t (meta_txid m) (Some old)) (
     bnd (gets (\<lambda>w. freeList_size (freelist w))) (\<lambda>sz.
     bnd (Tx_allocate t (sz div 4096 + 1)) (\<lambda>r.
     case r of
       None \<Rightarrow> ret False
     | Some p \<Rightarrow>
         bnd (gets freelist) (\<lambda>fl.
         thn (upd_page p (freeList_write fl)) (
         bnd (get_page p) (\<lambda>b. bnd (lift (page_id b)) (\<lambda>pid.
         thn (upd_meta t (\<lambda>m. m\<lparr>freeListPageNumber := pid\<rparr>)) (ret True))))))))))"

text \<open>
  The rest of \<open>Tx::commit\<close>: grow the file if the freelist moved the high-water mark, write the
  dirty pages, write the meta page, run the handlers. \<open>pageId\<close> is the mark before the freelist
  was allocated.
\<close>

definition commit_write :: "unit act list \<Rightarrow> tx_ptr \<Rightarrow> pgid \<Rightarrow> int act" where
  "commit_write commitHandlers t pageId =
     bnd (tx_meta t) (\<lambda>m.
     bnd (gets pageSize) (\<lambda>ps.
     bnd (if pageId < totalPageNumber m then DB_grow (ucast ((totalPageNumber m + 1) * ucast ps)) else ret 0) (\<lambda>rc.
     if rc \<noteq> 0 then abandon t
     else
       bnd (Tx_write t) (\<lambda>rc.
       if rc \<noteq> 0 then abandon t
       else
         bnd (Tx_writeMeta t) (\<lambda>rc.
         if rc \<noteq> 0 then abandon t
         else thn (iterA (\<lambda>h. h) commitHandlers) (ret 0))))))"

text \<open>\<open>Tx::commit\<close>; the commit handlers are functions of the caller.\<close>

definition Tx_commit :: "nat \<Rightarrow> unit act list \<Rightarrow> tx_ptr \<Rightarrow> int act" where
  "Tx_commit fuel commitHandlers t =
     bnd (get_tx t) (\<lambda>x.
     if managed x then ret (- 1)
     else if \<not> tx_db x \<or> \<not> writable x then ret (- 1)
     else
       bnd (tx_root t) (\<lambda>b.
       thn (Bucket_rebalance fuel b) (
       bnd (Bucket_spill fuel b) (\<lambda>ok.
       if \<not> ok then abandon t
       else
         bnd (getRootPage b) (\<lambda>rt.
         thn (upd_meta t (\<lambda>m. m\<lparr>meta_root := (meta_root m)\<lparr>bh_root := rt\<rparr>\<rparr>)) (
         bnd (tx_meta t) (\<lambda>m.
         bnd (commit_freelist t) (\<lambda>ok.
         if \<not> ok then abandon t
         else commit_write commitHandlers t (totalPageNumber m)))))))))"

text \<open>\<open>addCommitHandle\<close> on the vector of handlers that \<open>commit\<close> will run.\<close>

definition addCommitHandle :: "unit act \<Rightarrow> unit act list \<Rightarrow> unit act list" where
  "addCommitHandle fn commitHandlers = commitHandlers @ [fn]"

section \<open>Bucket operations of a transaction\<close>

definition Tx_getBucket :: "nat \<Rightarrow> tx_ptr \<Rightarrow> item \<Rightarrow> bucket_ptr option act" where
  "Tx_getBucket fuel t name = bnd (tx_root t) (\<lambda>b. getBucketByName fuel b name)"

definition Tx_createBucket :: "nat \<Rightarrow> tx_ptr \<Rightarrow> item \<Rightarrow> bucket_ptr option act" where
  "Tx_createBucket fuel t name = bnd (tx_root t) (\<lambda>b. createBucket fuel b name)"

definition Tx_createBucketIfNotExists :: "nat \<Rightarrow> tx_ptr \<Rightarrow> item \<Rightarrow> bucket_ptr option act" where
  "Tx_createBucketIfNotExists fuel t name = bnd (tx_root t) (\<lambda>b. createBucketIfNotExists fuel b name)"

text \<open>The result of the bucket's \<open>deleteBucket\<close> is dropped.\<close>

definition Tx_deleteBucket :: "nat \<Rightarrow> tx_ptr \<Rightarrow> item \<Rightarrow> int act" where
  "Tx_deleteBucket fuel t name = bnd (tx_root t) (\<lambda>b. thn (deleteBucket fuel b name) (ret 0))"

end
