(* ===== verification/Db_Tx.thy ===== *)
theory Db_Tx
  imports Tx_Commit
begin

unbundle bit_operations_syntax

text \<open>
  Beginning, running and ending transactions (\<open>src/src/Bolt/db.cc\<close>). A user function is an action
  that gets the transaction and returns an \<open>int\<close>.
\<close>

section \<open>Beginning\<close>

text \<open>The lowest transaction id among the open read transactions, \<open>UINT64_MAX\<close> without any.\<close>

fun min_txid :: "tx_ptr list \<Rightarrow> txid \<Rightarrow> txid act" where
  "min_txid [] minId = ret minId"
| "min_txid (t # ts) minId = bnd (tx_meta t) (\<lambda>m. min_txid ts (min minId (meta_txid m)))"

definition beginRWTx :: "tx_ptr option act" where
  "beginRWTx =
     bnd (gets readOnly) (\<lambda>ro.
     if ro then ret None
     else
       thn lock_rwLock (
       thn lock_metaLock (
       bnd (gets opened) (\<lambda>op.
       if \<not> op then thn writerLeave (thn unlock_metaLock (ret None))
       else
         bnd (new_tx Tx_new) (\<lambda>t.
         thn (modify (\<lambda>w. w\<lparr>rwtx := Some t\<rparr>)) (
         thn (setWriteable t True) (
         thn (Tx_init t) (
         bnd (gets txs) (\<lambda>ts.
         bnd (min_txid ts (- 1)) (\<lambda>minId.
         thn (if 0 < minId then modify (\<lambda>w. w\<lparr>freelist := freeList_release (minId - 1) (freelist w)\<rparr>)
              else ret ()) (
         thn unlock_metaLock (ret (Some t)))))))))))))"

definition beginTx :: "tx_ptr option act" where
  "beginTx =
     thn lock_metaLock (
     thn getMmapRLock (
     bnd (gets opened) (\<lambda>op.
     if \<not> op then thn unlockMmapLock (thn unlock_metaLock (ret None))
     else
       bnd (new_tx Tx_new) (\<lambda>t.
       thn (modify (\<lambda>w. w\<lparr>txs := txs w @ [t]\<rparr>)) (
       thn (Tx_init t) (
       thn unlock_metaLock (ret (Some t))))))))"

section \<open>Ending\<close>

definition resetRWTX :: "unit act" where
  "resetRWTX = modify (\<lambda>w. w\<lparr>rwtx := None\<rparr>)"

definition removeTx :: "tx_ptr \<Rightarrow> unit act" where
  "removeTx t =
     thn unlockMmapLock (
     thn lock_metaLock (
     thn (modify (\<lambda>w. w\<lparr>txs := remove1 t (txs w)\<rparr>)) unlock_metaLock))"

definition closeTx :: "tx_ptr option \<Rightarrow> unit act" where
  "closeTx tx = (case tx of
     None \<Rightarrow> ret ()
   | Some t \<Rightarrow>
       bnd (gets rwtx) (\<lambda>rw.
       if rw = Some t then thn resetRWTX writerLeave else removeTx t))"

section \<open>Running\<close>

definition set_managed :: "tx_ptr \<Rightarrow> bool \<Rightarrow> unit act" where
  "set_managed t b = upd_tx t (\<lambda>x. x\<lparr>managed := b\<rparr>)"

definition DB_update :: "nat \<Rightarrow> unit act list \<Rightarrow> (tx_ptr \<Rightarrow> int act) \<Rightarrow> int act" where
  "DB_update fuel commitHandlers fn =
     bnd beginRWTx (\<lambda>tx.
     case tx of
       None \<Rightarrow> ret (- 1)
     | Some t \<Rightarrow>
         thn (set_managed t True) (
         bnd (fn t) (\<lambda>rc.
         thn (set_managed t False) (
         if rc \<noteq> 0 then thn (Tx_rollback t) (ret (- 1))
         else
           bnd (Tx_commit fuel commitHandlers t) (\<lambda>result.
           thn (closeTx (Some t)) (ret result))))))"

definition DB_view :: "(tx_ptr \<Rightarrow> int act) \<Rightarrow> int act" where
  "DB_view fn =
     bnd beginTx (\<lambda>tx.
     case tx of
       None \<Rightarrow> ret (- 1)
     | Some t \<Rightarrow>
         thn (set_managed t True) (
         bnd (fn t) (\<lambda>rc.
         thn (set_managed t False) (
         if rc \<noteq> 0 then thn (Tx_rollback t) (thn (closeTx (Some t)) (ret (- 1)))
         else thn (Tx_rollback t) (thn (closeTx (Some t)) (ret 0))))))"

end
