(* ===== verification/Frame.thy ===== *)
theory Frame
  imports Db_Tx
begin

unbundle bit_operations_syntax

text \<open>
  What the operations leave alone. \<open>pres R m\<close> says that whenever the action \<open>m\<close> ends, the states
  before and after are related by \<open>R\<close>. The locale \<open>frame\<close> holds the rules for composing such facts,
  \<open>op_frame\<close> applies them to every operation on nodes, cursors and buckets, given the facts for the few
  steps these operations consist of, \<open>map_frame\<close> to a remapping of the file, and \<open>heap_frame\<close> to
  transactions, for any relation that ignores the heaps, the mapping, the freelist and the clock. It is
  interpreted for the file, for the locks and for the environment.
\<close>

section \<open>Relations kept by an action\<close>

definition pres :: "(world \<Rightarrow> world \<Rightarrow> bool) \<Rightarrow> 'a act \<Rightarrow> bool" where
  "pres R m \<longleftrightarrow> (\<forall>w x w'. m w = Inr (x, w') \<longrightarrow> R w w')"

named_theorems frame_intro \<open>rules for actions that keep a relation\<close>

lemma presD: "pres R m \<Longrightarrow> m w = Inr (x, w') \<Longrightarrow> R w w'"
  by (simp add: pres_def)

lemma pres_cases [frame_intro]:
  "pres R a \<Longrightarrow> pres R b \<Longrightarrow> pres R (if c then a else b)"
  "pres R a \<Longrightarrow> (\<And>y. pres R (f y)) \<Longrightarrow> pres R (case x of None \<Rightarrow> a | Some y \<Rightarrow> f y)"
  "(\<And>u v. pres R (g u v)) \<Longrightarrow> pres R (case_prod g q)"
  "pres R a \<Longrightarrow> (\<And>u us. pres R (h u us)) \<Longrightarrow> pres R (case l of [] \<Rightarrow> a | u # us \<Rightarrow> h u us)"
  "(\<And>v. pres R (k v)) \<Longrightarrow> pres R (Let s k)"
  by (auto split: option.splits prod.splits list.splits)

locale frame =
  fixes R :: "world \<Rightarrow> world \<Rightarrow> bool"
  assumes R_refl: "R w w"
    and R_trans: "R u v \<Longrightarrow> R v w \<Longrightarrow> R u w"
begin

lemma pres_basic [frame_intro]:
  "pres R (ret x)" "pres R (fail e)" "pres R (gets f)" "pres R (lift r)" "pres R (getsR g)" "pres R (assertA b)"
  by (auto simp: pres_def act_simps and_then_Inr_iff R_refl split: if_splits)

lemma pres_bnd [frame_intro]: "pres R m \<Longrightarrow> (\<And>x. pres R (k x)) \<Longrightarrow> pres R (bnd m k)"
  unfolding pres_def by (auto simp: act_simps and_then_Inr_iff) (metis R_trans)

lemma pres_thn [frame_intro]: "pres R m \<Longrightarrow> pres R n \<Longrightarrow> pres R (thn m n)"
  unfolding pres_def by (auto simp: act_simps and_then_Inr_iff) (metis R_trans)

lemma pres_modify: "(\<And>w. R w (g w)) \<Longrightarrow> pres R (modify g)"
  by (simp add: pres_def act_simps)

lemma pres_iterA [frame_intro]: "(\<And>x. pres R (f x)) \<Longrightarrow> pres R (iterA f xs)"
  by (induction xs) (auto intro: frame_intro)

lemma pres_all_ok [frame_intro]: "(\<And>x. pres R (f x)) \<Longrightarrow> pres R (all_ok f xs)"
  by (induction xs) (auto intro!: frame_intro)

lemma pres_foldr:
  "(\<And>x k acc. (\<And>acc. pres R (k acc)) \<Longrightarrow> pres R (f x k acc)) \<Longrightarrow> (\<And>acc. pres R (g acc)) \<Longrightarrow> pres R (foldr f xs g acc)"
  by (induction xs arbitrary: acc) auto

end

section \<open>Operations of a transaction\<close>

text \<open>
  What an operation on buckets may do besides reading: change nodes and buckets, count a cursor, give
  pages to the freelist, allocate pages and write nodes to pages. A relation that each of these steps
  keeps is kept by every operation up to the spilling of a bucket.
\<close>

locale op_frame = frame +
  assumes R_nodes: "R w (w\<lparr>nodeHeap := nh\<rparr>)"
    and R_buckets: "R w (w\<lparr>bucketHeap := bh\<rparr>)"
    and R_new_node: "R w (w\<lparr>nextPtr := Suc (nextPtr w), nodeHeap := nh\<rparr>)"
    and R_new_bucket: "R w (w\<lparr>nextPtr := Suc (nextPtr w), bucketHeap := bh\<rparr>)"
    and pres_count [frame_intro]: "pres R (increaseCurserCount t)"
    and pres_free [frame_intro]: "pres R (Tx_free t tid pg)"
    and pres_alloc: "0 < n \<Longrightarrow> pres R (Tx_allocate t n)"
    and pres_write [frame_intro]: "pres R (upd_page p (Node_write pa ia x))"
begin

lemma pres_objects [frame_intro]:
  "pres R (get_node p)" "pres R (put_node p n)" "pres R (new_node n)"
  "pres R (get_bucket b)" "pres R (put_bucket b bk)" "pres R (new_bucket bk)"
  "pres R (get_tx t)" "pres R (get_page q)" "pres R (getPagePtr pid)"
  "pres R (modify (\<lambda>w. w\<lparr>bucketHeap := h w, nodeHeap := i w\<rparr>))"
  by (auto simp: pres_def act_simps new_node_def new_bucket_def getPagePtr_def Let_def and_then_Inr_iff
      intro: R_refl R_nodes R_buckets R_new_node R_new_bucket R_trans [OF R_buckets R_nodes])

lemma pres_upd_objects [frame_intro]:
  "pres R (upd_node p nf)" "pres R (upd_bucket b bf)" "pres R (tx_meta t)"
  unfolding upd_node_def upd_bucket_def tx_meta_def by (intro frame_intro)+

lemma pres_tx_reads [frame_intro]:
  "pres R (isWritable t)" "pres R (getTxId t)" "pres R (getTotalPageNumber t)" "pres R (Tx_getPage t pid)"
  unfolding isWritable_def getTxId_def getTotalPageNumber_def Tx_getPage_def by (intro frame_intro)+

lemma pres_alloc_size [frame_intro]: "pres R (Tx_allocate t (sz div 4096 + 1))"
proof (rule pres_alloc)
  have "unat (sz div 4096) \<le> 2 ^ 32 div 4096" using unsigned_less [of sz, where ?'a = nat] by (simp add: unat_div)
  then show "0 < sz div 4096 + 1" by (simp add: word_less_nat_alt unat_word_ariths)
qed

lemma pres_bucket_node [frame_intro]:
  "pres R (setBucketHeader b hdr)" "pres R (getRootPage b)" "pres R (newBucket t)" "pres R (getCachedNode b pid)"
  "pres R (eraseCachedNode b pid)" "pres R (Bucket_getTotalPageNumber b)" "pres R (addChild n c)" "pres R (read_node n pg)"
  "pres R (getPageNode b pid)" "pres R (put_in_node n k k' v pid fg)" "pres R (del_in_node n k)" "pres R (Node_free n)"
  unfolding setBucketHeader_def getRootPage_def newBucket_def getCachedNode_def eraseCachedNode_def
    Bucket_getTotalPageNumber_def addChild_def read_node_def getPageNode_def put_in_node_def del_in_node_def Node_free_def
  by (intro frame_intro)+

lemma pres_getNode [frame_intro]: "pres R (Bucket_getNode b pid par)" "pres R (childAt n i)"
  unfolding childAt_def Bucket_getNode_def by (intro frame_intro)+

text \<open>Cursors.\<close>

lemma pres_cursor [frame_intro]:
  "pres R (ref_page r)" "pres R (ElementRef_isLeaf r)" "pres R (ElementRef_count r)" "pres R (top_ref c)"
  "pres R (searchLeaf key c)" "pres R (keyValue c s)" "pres R (ref_child r)" "pres R (last_ref pg nd)"
  unfolding ref_page_def ElementRef_isLeaf_def ElementRef_count_def top_ref_def searchLeaf_def keyValue_def ref_child_def
    last_ref_def
  by (intro frame_intro)+

lemma pres_Cursor_search [frame_intro]: "pres R (Cursor_search fuel key pid c)"
  by (induction fuel arbitrary: pid c) (simp_all only: Cursor_search.simps, (intro frame_intro | assumption | simp only:)+)

lemma pres_seek [frame_intro]: "pres R (seek fuel key c)"
  unfolding seek_def do_seek_def by (intro frame_intro)

lemma pres_descend [frame_intro]: "pres R (descend_nodes rs n)"
  by (induction rs n rule: descend_nodes.induct) (simp_all only: descend_nodes.simps, (intro frame_intro | assumption)+)

lemma pres_Cursor_getNode [frame_intro]: "pres R (Cursor_getNode c)"
  unfolding Cursor_getNode_def by (intro frame_intro)

lemma pres_do_first [frame_intro]: "pres R (do_first fuel c)"
  by (induction fuel arbitrary: c) (simp_all only: do_first.simps, (intro frame_intro | assumption)+)

lemma pres_advance [frame_intro]: "pres R (advance rs)"
  by (induction rs) (simp_all only: advance.simps, (intro frame_intro | assumption)+)

lemma pres_do_next [frame_intro]: "pres R (do_next fuel c s)"
  by (induction fuel arbitrary: c s) (simp_all only: do_next.simps, (intro frame_intro | assumption)+)

lemma pres_iterate [frame_intro]: "pres R (Cursor_next fuel c)" "pres R (Cursor_first fuel c)"
  unfolding Cursor_next_def Cursor_first_def by (intro frame_intro)+

text \<open>Buckets.\<close>

lemma pres_bucket [frame_intro]:
  "pres R (createCursor b)" "pres R (Bucket_write b)" "pres R (isInlineable b)" "pres R (openBucket b v ptr)"
  unfolding createCursor_def Bucket_write_def isInlineable_def openBucket_def by (intro frame_intro)+

lemma pres_bucket_keys [frame_intro]:
  "pres R (Bucket_get fuel b key)" "pres R (Bucket_put fuel b key v)" "pres R (Bucket_remove fuel b key)"
  "pres R (getBucketByName fuel b key)"
  unfolding Bucket_get_def Bucket_put_def Bucket_remove_def getBucketByName_def by (intro frame_intro)+

lemma pres_createBucket [frame_intro]: "pres R (createBucket fuel b key)" "pres R (createBucketIfNotExists fuel b key)"
  unfolding createBucketIfNotExists_def createBucket_def by (intro frame_intro)+

lemma pres_page_walk:
  assumes fn: "\<And>p n d. pres R (fn p n d)"
  shows "pres R (for_each_page_node_impl fuel b pid depth fn)"
  by (induction fuel arbitrary: pid depth)
    (simp_all only: for_each_page_node_impl.simps, (intro frame_intro fn | assumption)+)

lemma pres_for_each_loop:
  assumes fn: "\<And>k v. pres R (fn k v)"
  shows "pres R (for_each_loop steps fuel fn s c)"
  by (induction steps arbitrary: s c) (simp_all only: for_each_loop.simps, (intro frame_intro fn | assumption)+)

lemma pres_Bucket_free [frame_intro]: "pres R (Bucket_free fuel b)"
  unfolding Bucket_free_def for_each_page_node_def by (intro frame_intro pres_page_walk)

lemma pres_deleteBucket [frame_intro]: "pres R (deleteBucket fuel b key)"
  by (induction fuel arbitrary: b key)
    (simp_all only: deleteBucket.simps for_each_def, (intro frame_intro pres_for_each_loop | assumption)+)

text \<open>Splitting, spilling and rebalancing.\<close>

lemma pres_relatives [frame_intro]:
  "pres R (childIndex n c)" "pres R (removeChild n c)" "pres R (split_parent n)" "pres R (spill_to_parent s n)"
  unfolding childIndex_def removeChild_def split_parent_def spill_to_parent_def by (intro frame_intro)+

lemma pres_siblings [frame_intro]: "pres R (nextSibling n)" "pres R (prevSibling n)"
  unfolding nextSibling_def prevSibling_def by (intro frame_intro)+

lemma pres_Node_root [frame_intro]: "pres R (Node_root fuel n)"
  by (induction fuel arbitrary: n) (simp_all only: Node_root.simps, (intro frame_intro | assumption)+)

lemma pres_splitTwo [frame_intro]: "pres R (splitTwo ps n)"
  unfolding splitTwo_def by (intro frame_intro)

lemma pres_split_loop [frame_intro]: "pres R (split_loop fuel ps n acc)"
  by (induction fuel arbitrary: n acc) (simp_all only: split_loop.simps, (intro frame_intro | assumption)+)

lemma pres_split [frame_intro]: "pres R (Node_split ps n)"
  unfolding Node_split_def by (intro frame_intro)

lemma pres_spill_node [frame_intro]: "pres R (spill_node t self n)"
  unfolding spill_node_def by (intro frame_intro)

lemma pres_spill_nodes [frame_intro]: "pres R (spill_nodes t self ns)"
  by (induction ns) (simp_all only: spill_nodes.simps, (intro frame_intro | assumption)+)

lemma pres_spill: "pres R (Node_spill fuel n) \<and> (\<forall>i. pres R (spill_children fuel n i))"
proof (induction fuel arbitrary: n)
  case 0
  then show ?case by (auto intro: frame_intro)
next
  case (Suc fuel)
  then have IH: "\<And>m. pres R (Node_spill fuel m)" "\<And>m i. pres R (spill_children fuel m i)" by blast+
  show ?case
    unfolding Node_spill.simps spill_children.simps by (intro conjI allI frame_intro IH)
qed

lemma pres_rebalance_parts [frame_intro]:
  "pres R (collapse_root n)" "pres R (reparent b n i)"
  unfolding collapse_root_def reparent_def by (intro frame_intro)+

lemma pres_merge [frame_intro]: "pres R (merge_into b p s d)"
  unfolding merge_into_def by (intro frame_intro)

lemma pres_merge_sibling [frame_intro]: "pres R (merge_sibling n p)"
  unfolding merge_sibling_def by (intro frame_intro)

lemma pres_rebalance [frame_intro]: "pres R (Node_rebalance fuel n)"
  by (induction fuel arbitrary: n) (simp_all only: Node_rebalance.simps, (intro frame_intro | assumption)+)

lemma pres_rebalance_nodes [frame_intro]: "pres R (rebalance_nodes fuel b pids)"
  by (induction pids) (simp_all only: rebalance_nodes.simps, (intro frame_intro | assumption)+)

lemma pres_Bucket_rebalance [frame_intro]: "pres R (Bucket_rebalance fuel b)"
  by (induction fuel arbitrary: b) (simp_all only: Bucket_rebalance.simps, (intro frame_intro | assumption)+)

lemma pres_put_child [frame_intro]: "pres R (put_child fuel b name v)"
  unfolding put_child_def by (intro frame_intro)

lemma pres_spill_root [frame_intro]: "pres R (spill_root fuel b)"
  unfolding spill_root_def by (intro frame_intro conjunct1 [OF pres_spill])

lemma pres_Bucket_spill [frame_intro]: "pres R (Bucket_spill fuel b)"
  by (induction fuel arbitrary: b) (simp_all only: Bucket_spill.simps, (intro frame_intro | assumption)+)

end

section \<open>Remapping\<close>

locale map_frame = frame +
  assumes R_wlock: "R w (w\<lparr>mmapWriter := wl\<rparr>)"
    and R_rlock: "R w (w\<lparr>mmapReaders := rl\<rparr>)"
    and R_mapped: "R w (w\<lparr>mapped := mp\<rparr>)"
    and R_mapGen: "R w (w\<lparr>mapGen := mg\<rparr>)"
    and R_datasz: "R w (w\<lparr>datasz := ds\<rparr>)"
    and R_clock: "R w (w\<lparr>clock := cl\<rparr>)"
begin

lemma pres_mapping_steps [frame_intro]:
  "pres R getMmapWLock" "pres R unlockMmapLock" "pres R syscall" "pres R (page_meta i)" "pres R DB_getMeta"
  by (auto simp: pres_def getMmapWLock_def unlockMmapLock_def DB_getMeta_def page_meta_def getPagePtr_def syscall_def act_simps
      and_then_Inr_iff intro: R_refl R_wlock R_rlock R_clock split: if_splits)

lemma pres_mapping [frame_intro]: "pres R DbMunmap" "pres R (mmapDbFile n)"
  unfolding DbMunmap_def mmapDbFile_def
  by (intro frame_intro pres_modify R_trans [OF R_mapped R_datasz] R_trans [OF R_mapped R_trans [OF R_mapGen R_datasz]])+

lemma pres_initMeta [frame_intro]: "pres R (initMeta sz)"
  unfolding initMeta_def by (intro frame_intro)

end

section \<open>Operations on the heaps\<close>

locale heap_frame = map_frame +
  assumes R_any_nodes: "R w (w\<lparr>nodeHeap := nh\<rparr>)"
    and R_any_buckets: "R w (w\<lparr>bucketHeap := bh\<rparr>)"
    and R_txs: "R w (w\<lparr>txHeap := th\<rparr>)"
    and R_pages: "R w (w\<lparr>pageHeap := ph\<rparr>)"
    and R_next: "R w (w\<lparr>nextPtr := np\<rparr>)"
    and R_freelist: "R w (w\<lparr>freelist := fl\<rparr>)"
begin

lemma R_pairs:
  "R w (w\<lparr>nextPtr := np, nodeHeap := nh\<rparr>)" "R w (w\<lparr>nextPtr := np, bucketHeap := bh\<rparr>)"
  "R w (w\<lparr>nextPtr := np, txHeap := th\<rparr>)" "R w (w\<lparr>nextPtr := np, pageHeap := ph\<rparr>)"
  "R w (w\<lparr>bucketHeap := bh, nodeHeap := nh\<rparr>)"
  using R_next R_any_nodes R_any_buckets R_txs R_pages R_trans by blast+

lemma pres_heap [frame_intro]:
  "pres R (get_node p)" "pres R (put_node p n)" "pres R (new_node n)"
  "pres R (get_bucket b)" "pres R (put_bucket b bk)" "pres R (new_bucket bk)"
  "pres R (get_tx t)" "pres R (put_tx t tt)" "pres R (new_tx tt)" "pres R (get_page q)" "pres R (new_page len)"
  by (auto simp: pres_def act_simps new_node_def new_bucket_def new_tx_def new_page_def Let_def and_then_Inr_iff
      intro: R_refl R_any_nodes R_any_buckets R_txs R_pairs)

lemma pres_modify_heap [frame_intro]:
  "pres R (modify (\<lambda>w. w\<lparr>freelist := f w\<rparr>))" "pres R (modify (\<lambda>w. w\<lparr>pageHeap := g w\<rparr>))"
  "pres R (modify (\<lambda>w. w\<lparr>bucketHeap := h w, nodeHeap := i w\<rparr>))"
  by (rule pres_modify, rule R_freelist R_pages R_pairs)+

lemma pres_upd [frame_intro]:
  "pres R (upd_node p nf)" "pres R (upd_bucket b bf)" "pres R (upd_tx t tf)" "pres R (tx_meta t)" "pres R (upd_meta t mf)"
  unfolding upd_node_def upd_bucket_def upd_tx_def tx_meta_def upd_meta_def by (intro frame_intro)+

lemma pres_page [frame_intro]: "pres R (upd_page p f)" "pres R (free_page p)" "pres R (getPagePtr pid)"
  unfolding upd_page_def free_page_def getPagePtr_def by (cases p; simp; intro frame_intro)+ (intro frame_intro)

lemma pres_tx [frame_intro]:
  "pres R (isWritable t)" "pres R (increaseCurserCount t)" "pres R (getTxId t)" "pres R (getTotalPageNumber t)"
  "pres R (Tx_getPage t pid)" "pres R (DB_allocate n)" "pres R (Tx_free t tid pg)" "pres R (setWriteable t v)"
  unfolding isWritable_def increaseCurserCount_def getTxId_def getTotalPageNumber_def Tx_getPage_def DB_allocate_def
    Tx_free_def setWriteable_def
  by (intro frame_intro)+

lemma pres_Tx_allocate [frame_intro]: "pres R (Tx_allocate t n)"
  unfolding Tx_allocate_def by (intro frame_intro)

end

text \<open>A relation that ignores the heaps is kept by the operations as well.\<close>

sublocale heap_frame \<subseteq> op_frame
  by unfold_locales (rule R_any_nodes R_any_buckets R_pairs frame_intro)+

context heap_frame
begin

lemma pres_commit_freelist [frame_intro]: "pres R (commit_freelist t)"
  unfolding commit_freelist_def by (intro frame_intro)

lemma pres_tx_root [frame_intro]: "pres R (tx_root t)"
  unfolding tx_root_def by (intro frame_intro)

lemma pres_rollback [frame_intro]: "pres R (Tx_rollback t)"
  unfolding Tx_rollback_def by (intro frame_intro)

lemma pres_init [frame_intro]: "pres R (Tx_init t)"
  unfolding Tx_init_def by (intro frame_intro)

lemma pres_min_txid [frame_intro]: "pres R (min_txid ts m)"
  by (induction ts arbitrary: m) (simp_all only: min_txid.simps, (intro frame_intro | assumption)+)

end

section \<open>The file\<close>

text \<open>The file changes only through \<open>writeAt\<close> and \<open>ftruncate\<close>, which no operation on the heaps calls.\<close>

abbreviation same_disk :: "world \<Rightarrow> world \<Rightarrow> bool" where
  "same_disk u v \<equiv> disk v = disk u"

interpretation on_disk: heap_frame same_disk
  by unfold_locales auto

text \<open>What the operating system will answer is decided before the run.\<close>

abbreviation same_env :: "world \<Rightarrow> world \<Rightarrow> bool" where
  "same_env u v \<equiv> env v = env u"

interpretation on_env: heap_frame same_env
  by unfold_locales auto

section \<open>Locks and transactions\<close>

text \<open>
  The locks outside the mapping lock, the open transactions and the mode of the database: only the
  functions that begin and end transactions change them.
\<close>

definition tx_state :: "world \<Rightarrow> bool \<times> bool \<times> tx_ptr option \<times> tx_ptr list \<times> bool \<times> bool" where
  "tx_state w = (rwLock w, metaLock w, rwtx w, txs w, opened w, readOnly w)"

abbreviation same_tx_state :: "world \<Rightarrow> world \<Rightarrow> bool" where
  "same_tx_state u v \<equiv> tx_state v = tx_state u"

interpretation on_locks: heap_frame same_tx_state
  by unfold_locales (auto simp: tx_state_def)

lemma writing_locks:
  "pres same_tx_state (writeAt bs off)" "pres same_tx_state (DB_grow sz)"
  by (auto simp: pres_def writeAt_def DB_grow_def act_simps syscall_def and_then_Inr_iff tx_state_def Let_def
      split: option.splits if_splits)

lemma write_pages_locks: "pres same_tx_state (write_pages ps)"
  by (induction ps) (simp_all only: write_pages.simps, (intro frame_intro writing_locks | assumption)+)

lemma Tx_write_locks: "pres same_tx_state (Tx_write t)" "pres same_tx_state (Tx_writeMeta t)"
  unfolding Tx_write_def Tx_writeMeta_def by (intro frame_intro writing_locks write_pages_locks)+

lemma Tx_commit_locks:
  assumes "\<And>h. h \<in> set hs \<Longrightarrow> pres same_tx_state h"
  shows "pres same_tx_state (Tx_commit fuel hs t)"
proof -
  have h: "pres same_tx_state (iterA (\<lambda>h. h) hs)" using assms by (induction hs) (auto intro: frame_intro)
  show ?thesis unfolding Tx_commit_def commit_write_def abandon_def
    by (rule h frame_intro writing_locks Tx_write_locks)+
qed

end
