(* ===== verification/Free_List_Alloc.thy ===== *)
theory Free_List_Alloc
  imports Free_List
begin

text \<open>
  The scan of \<open>freeList::allocate\<close>: it returns the leftmost run of consecutive free pages of
  the requested length, and returns 0 only when there is none.
\<close>

section \<open>Runs of consecutive pages\<close>

definition consec :: "pgid list \<Rightarrow> nat \<Rightarrow> nat \<Rightarrow> bool" where
  "consec xs s n \<longleftrightarrow> s + n \<le> length xs \<and> (\<forall>j<n. unat (xs ! (s + j)) = unat (xs ! s) + j)"

text \<open>What the scan knows before it looks at index \<open>i\<close>.\<close>

definition scan_inv :: "pgid list \<Rightarrow> nat \<Rightarrow> nat \<Rightarrow> pgid \<Rightarrow> pgid \<Rightarrow> bool" where
  "scan_inv xs n i init prev \<longleftrightarrow>
     (\<forall>s. s + n \<le> i \<longrightarrow> \<not> consec xs s n) \<and>
     (if i = 0 then prev = 0
      else prev = xs ! (i - 1) \<and>
        (\<exists>s<i. init = xs ! s \<and> consec xs s (i - s) \<and>
           (s = 0 \<or> unat (xs ! s) \<noteq> unat (xs ! (s - 1)) + 1)))"

lemma consecD: "consec xs s n \<Longrightarrow> j < n \<Longrightarrow> unat (xs ! (s + j)) = unat (xs ! s) + j"
  by (simp add: consec_def)

lemma consec_sub: "consec xs s n \<Longrightarrow> a + b \<le> n \<Longrightarrow> consec xs (s + a) b"
proof -
  assume c: "consec xs s n" and ab: "a + b \<le> n"
  have "unat (xs ! (s + a + j)) = unat (xs ! (s + a)) + j" if "j < b" for j
    using consecD [OF c, of "a + j"] consecD [OF c, of a] that ab by (simp add: add.assoc)
  then show ?thesis using c ab by (simp add: consec_def)
qed

lemma consec_extend:
  assumes "consec xs s n" and "0 < n" and "s + n < length xs"
    and "unat (xs ! (s + n)) = unat (xs ! (s + n - 1)) + 1"
  shows "consec xs s (Suc n)"
proof -
  have "unat (xs ! (s + n - 1)) = unat (xs ! s) + (n - 1)"
    using consecD [OF assms(1), of "n - 1"] assms(2) by simp
  then show ?thesis
    using assms by (auto simp: consec_def less_Suc_eq)
qed

lemma ascending_nth_unat:
  "ascending (xs :: pgid list) \<Longrightarrow> i < j \<Longrightarrow> j < length xs \<Longrightarrow> unat (xs ! i) < unat (xs ! j)"
  by (simp add: sorted_wrt_iff_nth_less word_less_nat_alt)

lemma word_diff_eq_1_iff:
  fixes a b :: pgid
  assumes "unat a < unat b"
  shows "b - a = 1 \<longleftrightarrow> unat b = unat a + 1"
proof -
  have "unat (b - a) = unat b - unat a"
    using assms by (simp add: unat_sub word_le_nat_alt)
  moreover have "b - a = 1 \<longleftrightarrow> unat (b - a) = 1"
    by (metis unat_1 word_unat_eq_iff)
  ultimately show ?thesis using assms by auto
qed

lemma run_length_iff:
  fixes a b :: pgid and n :: u32
  assumes "unat b = unat a + k" and "0 < unat a"
  shows "b - a + 1 = ucast n \<longleftrightarrow> k + 1 = unat n"
proof -
  have d: "unat (b - a) = k"
    using assms by (simp add: unat_sub word_le_nat_alt)
  have "k + 1 < 2 ^ 64" using assms u64_bound [of b] by simp
  then have "unat (b - a + 1) = k + 1" using d by (simp add: unat_word_ariths)
  then show ?thesis by (metis unat_ucast_u32_u64 word_unat_eq_iff)
qed

section \<open>The scan\<close>

lemma scan_inv_start: "0 < n \<Longrightarrow> scan_inv xs n 0 0 0"
  by (simp add: scan_inv_def consec_def)

text \<open>
  One iteration: the run that ends at index \<open>i\<close> starts at some \<open>s\<close>, it cannot be extended
  to the left, and \<open>init\<close> is its first page.
\<close>

lemma scan_step:
  assumes asc: "ascending xs" and ge2: "\<forall>x \<in> set xs. 2 \<le> x" and i: "i < length xs"
    and inv: "scan_inv xs n i init prev"
  defines "init' \<equiv> (if prev = 0 \<or> xs ! i - prev \<noteq> 1 then xs ! i else init)"
  shows "\<exists>s\<le>i. init' = xs ! s \<and> consec xs s (Suc i - s) \<and>
           (s = 0 \<or> unat (xs ! s) \<noteq> unat (xs ! (s - 1)) + 1)"
proof (cases "i = 0")
  case True
  with inv i have "init' = xs ! 0 \<and> consec xs 0 (Suc i)"
    by (auto simp: scan_inv_def init'_def consec_def Suc_le_eq)
  with True show ?thesis by auto
next
  case False
  from inv False obtain s where s: "s < i" "init = xs ! s" "consec xs s (i - s)"
      "s = 0 \<or> unat (xs ! s) \<noteq> unat (xs ! (s - 1)) + 1" and prev: "prev = xs ! (i - 1)"
    by (auto simp: scan_inv_def)
  have "2 \<le> prev" using ge2 prev i by simp
  then have "prev \<noteq> 0" by auto
  have lt: "unat prev < unat (xs ! i)"
    using ascending_nth_unat [OF asc, of "i - 1" i] False i prev by simp
  show ?thesis
  proof (cases "xs ! i - prev = 1")
    case True
    then have "unat (xs ! i) = unat (xs ! (i - 1)) + 1"
      using word_diff_eq_1_iff [OF lt] prev by simp
    then have "consec xs s (Suc (i - s))"
      using consec_extend [OF s(3)] s(1) i by simp
    then show ?thesis
      using s True \<open>prev \<noteq> 0\<close> by (intro exI [of _ s]) (auto simp: init'_def Suc_diff_le)
  next
    case gap: False
    then have "unat (xs ! i) \<noteq> unat (xs ! (i - 1)) + 1"
      using word_diff_eq_1_iff [OF lt] prev by simp
    moreover have "consec xs i 1" using i by (simp add: consec_def)
    ultimately show ?thesis
      using gap by (intro exI [of _ i]) (auto simp: init'_def)
  qed
qed

text \<open>
  If the maximal run that ends at \<open>i\<close> is not of the wanted length, no run of that length
  ends at \<open>i\<close>, provided none ended earlier.
\<close>

lemma no_run_ends_here:
  assumes s: "s \<le> i" "consec xs s (Suc i - s)" "s = 0 \<or> unat (xs ! s) \<noteq> unat (xs ! (s - 1)) + 1"
    and ne: "Suc i - s \<noteq> n" and n: "0 < n"
    and before: "\<forall>t. t + n \<le> i \<longrightarrow> \<not> consec xs t n"
    and t: "t + n = Suc i"
  shows "\<not> consec xs t n"
proof
  assume c: "consec xs t n"
  consider "s < t" | "t < s" | "s = t" by linarith
  then show False
  proof cases
    case 1
    then have "consec xs (s + (t - 1 - s)) n"
      using s t by (intro consec_sub [OF s(2)]) auto
    then show False using before 1 t by auto
  next
    case 2
    have "unat (xs ! (t + (s - t))) = unat (xs ! t) + (s - t)"
      using consecD [OF c, of "s - t"] 2 s(1) t by simp
    moreover have "unat (xs ! (t + (s - 1 - t))) = unat (xs ! t) + (s - 1 - t)"
      using consecD [OF c, of "s - 1 - t"] 2 s(1) t by simp
    ultimately show False using s(3) 2 by auto
  next
    case 3
    then show False using ne t by simp
  qed
qed

definition scan_post :: "pgid list \<Rightarrow> nat \<Rightarrow> (nat \<times> pgid) option result \<Rightarrow> bool" where
  "scan_post xs n r \<longleftrightarrow> (case r of
      Inl e \<Rightarrow> False
    | Inr None \<Rightarrow> (\<forall>s. \<not> consec xs s n)
    | Inr (Some (i, init)) \<Rightarrow> (\<exists>s. i + 1 = s + n \<and> consec xs s n \<and> init = xs ! s \<and>
        (\<forall>t. t < s \<longrightarrow> \<not> consec xs t n)))"

lemma allocate_loop_post:
  assumes "ascending xs" and "\<forall>x \<in> set xs. 2 \<le> x" and "0 < unat numPages"
    and "i \<le> length xs" and "scan_inv xs (unat numPages) i init prev"
  shows "scan_post xs (unat numPages) (allocate_loop xs numPages i init prev)"
  using assms
proof (induction xs numPages i init prev rule: allocate_loop.induct)
  case (1 xs numPages i init prev)
  let ?n = "unat numPages"
  show ?case
  proof (cases "i < length xs")
    case False
    then have "\<not> consec xs s ?n" for s
      using "1.prems"(4,5) by (auto simp: scan_inv_def consec_def)
    with False show ?thesis
      by (simp add: allocate_loop.simps [of xs] scan_post_def)
  next
    case True
    let ?id = "xs ! i"
    define init' where "init' = (if prev = 0 \<or> ?id - prev \<noteq> 1 then ?id else init)"
    have id2: "\<not> ?id < 2" using "1.prems"(2) True by (simp add: not_less)
    obtain s where s: "s \<le> i" "init' = xs ! s" "consec xs s (Suc i - s)"
        "s = 0 \<or> unat (xs ! s) \<noteq> unat (xs ! (s - 1)) + 1"
      using scan_step [OF "1.prems"(1,2) True "1.prems"(5)] unfolding init'_def by blast
    have "2 \<le> xs ! s" using "1.prems"(2) s(1) True by simp
    then have pos: "0 < unat (xs ! s)" by (simp add: word_le_nat_alt)
    have "unat ?id = unat (xs ! s) + (i - s)"
      using consecD [OF s(3), of "i - s"] s(1) by simp
    then have len: "?id - init' + 1 = ucast numPages \<longleftrightarrow> Suc i - s = ?n"
      using run_length_iff [OF _ pos, of ?id "i - s" numPages] s(1,2) by auto
    have before: "\<forall>t. t + ?n \<le> i \<longrightarrow> \<not> consec xs t ?n"
      using "1.prems"(5) by (simp add: scan_inv_def)
    show ?thesis
    proof (cases "Suc i - s = ?n")
      case found: True
      then have "i + 1 = s + ?n" using s(1) by simp
      moreover have "\<forall>t. t < s \<longrightarrow> \<not> consec xs t ?n" using before found s(1) by auto
      ultimately show ?thesis
        using True id2 len found s
        by (simp add: allocate_loop.simps [of xs] scan_post_def Let_def init'_def [symmetric])
    next
      case no: False
      have "\<forall>t. t + ?n \<le> Suc i \<longrightarrow> \<not> consec xs t ?n"
        using no_run_ends_here [OF s(1,3,4) no "1.prems"(3) before] before le_Suc_eq by blast
      then have "scan_inv xs ?n (Suc i) init' ?id"
        using s by (auto simp: scan_inv_def intro!: exI [of _ s])
      then have "scan_post xs ?n (allocate_loop xs numPages (Suc i) init' ?id)"
        using "1.IH" [OF True refl id2 init'_def] len no "1.prems" True by simp
      then show ?thesis
        using True id2 len no
        by (simp add: allocate_loop.simps [of xs numPages i] Let_def init'_def [symmetric])
    qed
  qed
qed


section \<open>Runs as sets of pages\<close>

lemma set_page_run: "set (page_run p n) = (\<lambda>j. p + of_nat j) ` {..<n}"
  by (auto simp: page_run_def)

lemma length_page_run [simp]: "length (page_run p n) = n"
  by (simp add: page_run_def)

lemma page_run_Suc: "page_run p (Suc n) = p # page_run (p + 1) n"
proof -
  have "[0..<Suc n] = 0 # map Suc [0..<n]"
    by (simp add: map_Suc_upt upt_conv_Cons del: upt_Suc)
  then show ?thesis by (simp add: page_run_def algebra_simps del: upt_Suc)
qed

lemma consec_page_run: "consec xs s n \<Longrightarrow> page_run (xs ! s) n = take n (drop s xs)"
proof (rule nth_equalityI)
  assume c: "consec xs s n"
  then show "length (page_run (xs ! s) n) = length (take n (drop s xs))"
    by (auto simp: consec_def)
  fix i assume "i < length (page_run (xs ! s) n)"
  then have i: "i < n" by simp
  have "xs ! (s + i) = xs ! s + of_nat i"
    using consecD [OF c i] unsigned_less [of "xs ! (s + i)", where ?'a = nat]
    by (metis of_nat_add of_nat_unat ucast_id)
  then show "page_run (xs ! s) n ! i = take n (drop s xs) ! i"
    using c i by (simp add: page_run_def consec_def)
qed

lemma unat_page_run:
  assumes "\<forall>x \<in> set (page_run p n). x \<noteq> 0" and "j < n"
  shows "unat (p + of_nat j) = unat p + j"
  using assms(2)
proof (induction j)
  case 0
  then show ?case by simp
next
  case (Suc j)
  have "p + of_nat (Suc j) \<in> set (page_run p n)"
    unfolding set_page_run using Suc.prems by blast
  then have "p + of_nat (Suc j) \<noteq> 0" using assms(1) by blast
  then have "1 + (p + of_nat j) \<noteq> 0" by (simp add: algebra_simps)
  then have "unat (1 + (p + of_nat j)) = Suc (unat (p + of_nat j))" by (rule unatSuc)
  with Suc show ?case by (simp add: algebra_simps)
qed

lemma page_run_consec:
  assumes asc: "ascending xs" and ge2: "\<forall>x \<in> set xs. 2 \<le> x" and n: "0 < n"
    and sub: "set (page_run p n) \<subseteq> set xs"
  shows "\<exists>s. consec xs s n \<and> xs ! s = p"
proof -
  have nz: "\<forall>x \<in> set (page_run p n). x \<noteq> 0" using ge2 sub by force
  have mem: "p + of_nat j \<in> set xs" if "j < n" for j
    using sub that by (auto simp: set_page_run)
  obtain s where s: "s < length xs" "xs ! s = p"
    using mem [OF n] by (auto simp: in_set_conv_nth)
  have "s + j < length xs \<and> unat (xs ! (s + j)) = unat p + j" if "j < n" for j
    using that
  proof (induction j)
    case 0
    then show ?case using s by simp
  next
    case (Suc j)
    then have IH: "s + j < length xs" "unat (xs ! (s + j)) = unat p + j" by auto
    obtain t where t: "t < length xs" "xs ! t = p + of_nat (Suc j)"
      using mem [OF Suc.prems] by (auto simp: in_set_conv_nth)
    have ut: "unat (xs ! t) = unat p + Suc j" using unat_page_run [OF nz Suc.prems] t(2) by simp
    have "s + j < t"
    proof (rule ccontr)
      assume "\<not> s + j < t"
      then have "unat (xs ! t) \<le> unat (xs ! (s + j))"
        using ascending_nth_unat [OF asc, of t "s + j"] IH(1) by (cases "t = s + j") auto
      then show False using ut IH(2) by simp
    qed
    then have a: "s + Suc j < length xs" using t(1) by simp
    have "unat (xs ! (s + j)) < unat (xs ! (s + Suc j))"
      using ascending_nth_unat [OF asc, of "s + j" "s + Suc j"] a by simp
    moreover have "unat (xs ! (s + Suc j)) \<le> unat (xs ! t)"
      using ascending_nth_unat [OF asc, of "s + Suc j" t] t(1) \<open>s + j < t\<close>
      by (cases "t = s + Suc j") auto
    ultimately show ?case using a ut IH(2) by simp
  qed
  note run = this
  have "s + n \<le> length xs" using run [of "n - 1"] n by auto
  then show ?thesis using run s by (auto simp: consec_def)
qed

lemma erase_range_filter:
  assumes "distinct xs"
  shows "erase_range xs s (s + n) = filter (\<lambda>x. x \<notin> set (take n (drop s xs))) xs"
proof -
  let ?a = "take s xs" and ?b = "take n (drop s xs)" and ?c = "drop (s + n) xs"
  have xs: "xs = ?a @ ?b @ ?c"
    by (metis append_take_drop_id drop_drop add.commute)
  have d: "distinct (?a @ ?b @ ?c)" using assms xs by simp
  have "filter (\<lambda>x. x \<notin> set ?b) ?a = ?a" "filter (\<lambda>x. x \<notin> set ?b) ?c = ?c"
    using d by (auto simp: filter_id_conv)
  then have "filter (\<lambda>x. x \<notin> set ?b) (?a @ ?b @ ?c) = ?a @ ?c"
    by (simp add: filter_empty_conv)
  then show ?thesis using xs by (simp add: erase_range_def)
qed

end
