(* ===== verification/Free_List_Correct.thy ===== *)
theory Free_List_Correct
  imports Free_List_Alloc
begin

text \<open>
  Correctness of the page allocator: what each operation does to the free and pending pages,
  that every operation keeps the invariant \<open>fl_inv\<close>, and the state machine of all operations.
\<close>

section \<open>Allocation\<close>

definition alloc_result :: "freeList \<Rightarrow> nat \<Rightarrow> pgid \<Rightarrow> freeList \<Rightarrow> bool" where
  "alloc_result f n r f' \<longleftrightarrow>
     (if r = 0 then f' = f \<and> (\<forall>p. \<not> set (page_run p n) \<subseteq> set (ids f))
      else set (page_run r n) \<subseteq> set (ids f) \<and>
        (\<forall>p. set (page_run p n) \<subseteq> set (ids f) \<longrightarrow> r \<le> p) \<and>
        f' = f\<lparr>ids := filter (\<lambda>x. x \<notin> set (page_run r n)) (ids f),
               cache := (\<lambda>p. if p \<in> set (page_run r n) then None else cache f p)\<rparr>)"

lemma fold_erase_run:
  "fold (\<lambda>j c. c(p + of_nat j := None)) js c x =
     (if x \<in> (\<lambda>j. p + of_nat j) ` set js then None else c x)"
  by (induction js arbitrary: c) auto

lemma fl_inv_ids:
  assumes "fl_inv f"
  shows "ascending (ids f)" and "\<forall>x \<in> set (ids f). 2 \<le> x"
  using assms by (auto simp: fl_inv_def ascending_iff)

lemma consec_run_subset: "consec xs s n \<Longrightarrow> set (page_run (xs ! s) n) \<subseteq> set xs"
  by (metis consec_page_run set_take_subset set_drop_subset order_trans)

text \<open>Allocation relies on nothing but the order of the free pages.\<close>

lemma freeList_allocate_ids:
  assumes asc: "ascending (ids f)" "\<forall>x \<in> set (ids f). 2 \<le> x" and n: "0 < unat numPages"
  shows "\<exists>r f'. freeList_allocate numPages f = Inr (r, f') \<and> alloc_result f (unat numPages) r f'"
proof (cases "ids f = []")
  case True
  have "\<not> set (page_run p (unat numPages)) \<subseteq> set (ids f)" for p
    using n True length_page_run [of p "unat numPages"] by (auto simp del: length_page_run)
  then show ?thesis using True by (simp add: freeList_allocate_def alloc_result_def)
next
  case False
  let ?xs = "ids f" and ?n = "unat numPages"
  have post: "scan_post ?xs ?n (allocate_loop ?xs numPages 0 0 0)"
    using allocate_loop_post [OF asc n _ scan_inv_start [OF n]] by simp
  show ?thesis
  proof (cases "allocate_loop ?xs numPages 0 0 0")
    case (Inl e)
    then show ?thesis using post by (simp add: scan_post_def)
  next
    case r: (Inr r)
    show ?thesis
    proof (cases r)
      case None
      then have "\<not> set (page_run p ?n) \<subseteq> set ?xs" for p
        using post r page_run_consec [OF asc n, of p] by (auto simp: scan_post_def)
      then show ?thesis
        using False r None by (simp add: freeList_allocate_def alloc_result_def)
    next
      case (Some ip)
      obtain i init where ip: "ip = (i, init)" by (cases ip)
      from post r Some ip obtain s where s: "i + 1 = s + ?n" "consec ?xs s ?n" "init = ?xs ! s"
          "\<forall>t. t < s \<longrightarrow> \<not> consec ?xs t ?n"
        by (auto simp: scan_post_def)
      have run: "page_run init ?n = take ?n (drop s ?xs)" using consec_page_run s by simp
      have "s < length ?xs" using s(2) n by (simp add: consec_def)
      then have "2 \<le> init" using asc(2) s(3) by simp
      then have "init \<noteq> 0" by auto
      have least: "init \<le> p" if sub: "set (page_run p ?n) \<subseteq> set ?xs" for p
      proof -
        obtain t where t: "consec ?xs t ?n" "?xs ! t = p"
          using page_run_consec [OF asc n sub] by blast
        then have "s \<le> t" using s(4) not_less by blast
        moreover have "t < length ?xs" using t(1) n by (simp add: consec_def)
        ultimately show ?thesis
          using asc(1) t(2) s(3) sorted_nth_mono [of ?xs s t] by (simp add: ascending_iff)
      qed
      have "erase_range ?xs (i + 1 - ?n) (i + 1) = filter (\<lambda>x. x \<notin> set (page_run init ?n)) ?xs"
        using s(1) run erase_range_filter [of ?xs s ?n] asc(1) by (simp add: ascending_iff)
      moreover have "fold (\<lambda>j c. c(init + of_nat j := None)) [0..<?n] (cache f) =
          (\<lambda>p. if p \<in> set (page_run init ?n) then None else cache f p)"
        by (rule ext) (simp add: fold_erase_run page_run_def)
      ultimately show ?thesis
        using False r Some ip \<open>init \<noteq> 0\<close> least consec_run_subset [OF s(2)] s(3)
        by (simp add: freeList_allocate_def alloc_result_def)
    qed
  qed
qed

lemma freeList_allocate_spec:
  assumes "fl_inv f" and "0 < unat numPages"
  shows "\<exists>r f'. freeList_allocate numPages f = Inr (r, f') \<and> alloc_result f (unat numPages) r f'"
  using freeList_allocate_ids [OF fl_inv_ids [OF assms(1)] assms(2)] .

lemma alloc_result_inv: "fl_inv f \<Longrightarrow> alloc_result f n r f' \<Longrightarrow> fl_inv f'"
  by (auto simp: alloc_result_def fl_inv_def pending_ids_def sorted_wrt_filter split: if_splits)

section \<open>Freeing\<close>

lemma map_of_AList_update_default:
  "pending_of (f\<lparr>pending := AList.update t xs (pending f), cache := c\<rparr>) u =
     (if u = t then xs else pending_of f u)"
  by (simp add: pending_of_def update_conv')

text \<open>Replacing one transaction's vector: the pages of the others stay where they are.\<close>

lemma concat_delete_perm:
  assumes "distinct (map fst al)"
  shows "mset (concat (map snd al)) =
    mset (case map_of al t of None \<Rightarrow> [] | Some xs \<Rightarrow> xs) + mset (concat (map snd (AList.delete t al)))"
  using assms
proof (induction al)
  case (Cons a al)
  show ?case
  proof (cases "fst a = t")
    case True
    then have "AList.delete t al = al" using Cons.prems by (intro AList_delete_absent) auto
    then show ?thesis using True by (cases a) simp
  next
    case False
    then show ?thesis using Cons by (cases a) auto
  qed
qed simp

lemma concat_update_perm:
  assumes "distinct (map fst al)"
  shows "mset (concat (map snd (AList.update t xs al))) =
    mset xs + mset (concat (map snd (AList.delete t al)))"
  using assms
proof (induction al)
  case (Cons a al)
  show ?case
  proof (cases "fst a = t")
    case True
    then have "AList.delete t al = al" using Cons.prems by (intro AList_delete_absent) auto
    then show ?thesis using True by (cases a) simp
  next
    case False
    then show ?thesis using Cons by (cases a) auto
  qed
qed simp

lemma free_loop_step:
  "pid \<le> hi \<Longrightarrow> c pid \<noteq> Some True \<Longrightarrow> pid \<noteq> - 1 \<Longrightarrow>
     free_loop pid hi xs c = free_loop (pid + 1) hi (xs @ [pid])
       (c(pid := (case c pid of None \<Rightarrow> Some False | Some b \<Rightarrow> Some b)))"
  by (subst free_loop.simps) simp

lemma free_loop_ok:
  assumes "unat pid + k < 2 ^ 64 - 1"
    and "\<forall>p \<in> set (page_run pid (Suc k)). c p \<noteq> Some True"
  shows "free_loop pid (pid + of_nat k) xs c =
    Inr (xs @ page_run pid (Suc k),
         \<lambda>p. if p \<in> set (page_run pid (Suc k)) \<and> c p = None then Some False else c p)"
  using assms
proof (induction k arbitrary: pid xs c)
  case 0
  have "pid \<noteq> - 1" using "0.prems"(1) by (intro not_max_word) simp
  then have "\<not> pid + 1 \<le> pid" using unat_succ [of pid] by (simp add: word_le_nat_alt)
  then show ?case
    using "0.prems" \<open>pid \<noteq> - 1\<close>
    by (subst free_loop.simps, subst free_loop.simps)
      (auto simp: page_run_def fun_eq_iff split: option.splits)
next
  case (Suc k)
  have ne: "pid \<noteq> - 1" using Suc.prems(1) by (intro not_max_word) simp
  then have u: "unat (pid + 1) = Suc (unat pid)" by (rule unat_succ)
  have "unat (pid + of_nat (Suc k)) = unat pid + Suc k"
    using Suc.prems(1) by (simp add: unat_word_ariths unat_of_nat)
  then have le: "pid \<le> pid + of_nat (Suc k)" by (simp add: word_le_nat_alt)
  let ?c = "c(pid := (case c pid of None \<Rightarrow> Some False | Some b \<Rightarrow> Some b))"
  have c0: "c pid \<noteq> Some True" using Suc.prems(2) by (simp add: page_run_Suc)
  have "free_loop (pid + 1) (pid + 1 + of_nat k) (xs @ [pid]) ?c =
     Inr ((xs @ [pid]) @ page_run (pid + 1) (Suc k),
       \<lambda>p. if p \<in> set (page_run (pid + 1) (Suc k)) \<and> ?c p = None then Some False else ?c p)"
    using Suc.prems u c0 by (intro Suc.IH) (auto simp: page_run_Suc split: option.splits)
  moreover have hi: "pid + of_nat (Suc k) = pid + 1 + of_nat k" by (simp add: algebra_simps)
  ultimately have "free_loop pid (pid + of_nat (Suc k)) xs c =
     Inr ((xs @ [pid]) @ page_run (pid + 1) (Suc k),
       \<lambda>p. if p \<in> set (page_run (pid + 1) (Suc k)) \<and> ?c p = None then Some False else ?c p)"
    using free_loop_step [of pid _ c xs, OF le c0 ne] unfolding hi by (simp only:)
  then show ?case
    by (auto simp: page_run_Suc [of pid "Suc k"] fun_eq_iff split: option.splits)
qed

text \<open>A page that the index marks stops the loop, wherever it stands in the run.\<close>

lemma free_loop_assert:
  assumes "unat pid + k < 2 ^ 64 - 1"
    and "p \<in> set (page_run pid (Suc k))" and "c p = Some True"
  shows "free_loop pid (pid + of_nat k) xs c = Inl AssertFail"
  using assms
proof (induction k arbitrary: pid xs c)
  case 0
  then show ?case by (subst free_loop.simps) (simp add: page_run_def)
next
  case (Suc k)
  have ne: "pid \<noteq> - 1" using Suc.prems(1) by (intro not_max_word) simp
  then have u: "unat (pid + 1) = Suc (unat pid)" by (rule unat_succ)
  have "unat (pid + of_nat (Suc k)) = unat pid + Suc k"
    using Suc.prems(1) by (simp add: unat_word_ariths unat_of_nat)
  then have le: "pid \<le> pid + of_nat (Suc k)" by (simp add: word_le_nat_alt)
  have hi: "pid + of_nat (Suc k) = pid + 1 + of_nat k" by (simp add: algebra_simps)
  show ?case
  proof (cases "c pid = Some True")
    case True
    then show ?thesis using le by (subst free_loop.simps) simp
  next
    case False
    let ?c = "c(pid := (case c pid of None \<Rightarrow> Some False | Some b \<Rightarrow> Some b))"
    have "p \<noteq> pid" using False Suc.prems(3) by auto
    then have "free_loop (pid + 1) (pid + 1 + of_nat k) (xs @ [pid]) ?c = Inl AssertFail"
      using Suc.prems u by (intro Suc.IH) (auto simp: page_run_Suc [of pid "Suc k"])
    then show ?thesis using free_loop_step [of pid _ c xs, OF le False ne] unfolding hi by (simp only:)
  qed
qed


lemma pending_ids_update:
  assumes "distinct (map fst (pending f))"
  shows "mset (pending_ids (f\<lparr>pending := AList.update t (pending_of f t @ xs) (pending f), cache := c\<rparr>))
    = mset (pending_ids f) + mset xs"
  using concat_update_perm [OF assms, of t "pending_of f t @ xs"] concat_delete_perm [OF assms, of t]
  by (simp add: pending_ids_def pending_of_def)

lemma set_eq_of_mset: "mset xs = mset ys \<Longrightarrow> set xs = set ys"
  by (metis set_mset_mset)

text \<open>
  Freeing a page that is in use: its whole run of pages becomes pending for the transaction.
\<close>

lemma freeList_free_spec:
  assumes inv: "fl_inv f" and pid: "2 \<le> pid" and nowrap: "unat pid + unat ov < 2 ^ 64 - 1"
    and used: "set (page_run pid (Suc (unat ov))) \<inter> (set (ids f) \<union> set (pending_ids f)) = {}"
  shows "\<exists>f'. freeList_free tid pid ov f = Inr f' \<and> fl_inv f' \<and> ids f' = ids f \<and>
    pending_of f' = (pending_of f)(tid := pending_of f tid @ page_run pid (Suc (unat ov))) \<and>
    mset (pending_ids f') = mset (pending_ids f) + mset (page_run pid (Suc (unat ov)))"
proof -
  let ?run = "page_run pid (Suc (unat ov))"
  let ?c = "\<lambda>p. if p \<in> set ?run \<and> cache f p = None then Some False else cache f p"
  let ?f = "f\<lparr>pending := AList.update tid (pending_of f tid @ ?run) (pending f), cache := ?c\<rparr>"
  have nc: "\<forall>p \<in> set ?run. cache f p \<noteq> Some True"
    using inv used by (auto simp: fl_inv_def)
  have keys: "distinct (map fst (pending f))" using inv by (simp add: fl_inv_def)
  have "pid + ucast ov = pid + of_nat (unat ov)" by simp
  then have "freeList_free tid pid ov f = Inr ?f"
    using free_loop_ok [OF nowrap nc, of "pending_of f tid"] by (simp add: freeList_free_def)
  moreover have m: "mset (pending_ids ?f) = mset (pending_ids f) + mset ?run"
    by (rule pending_ids_update [OF keys])
  moreover have "fl_inv ?f"
  proof -
    have u: "unat (pid + of_nat j) = unat pid + j" if "j < Suc (unat ov)" for j
      using nowrap that by (simp add: unat_word_ariths unat_of_nat)
    have "inj_on (\<lambda>j. pid + of_nat j) {0..<Suc (unat ov)}"
      by (rule inj_onI) (metis u add_left_cancel atLeastLessThan_iff)
    then have "distinct ?run" by (simp add: page_run_def distinct_map del: upt_Suc)
    moreover have "\<forall>p \<in> set ?run. 2 \<le> p"
      using u pid by (auto simp: set_page_run word_le_nat_alt)
    moreover have s: "set (pending_ids ?f) = set (pending_ids f) \<union> set ?run"
      using set_eq_of_mset [of "pending_ids ?f" "pending_ids f @ ?run"] m by simp
    moreover have "distinct (pending_ids ?f) \<longleftrightarrow> distinct (pending_ids f @ ?run)"
      by (rule mset_eq_imp_distinct_iff) (use m in simp)
    ultimately show ?thesis
      using inv used keys distinct_update [OF keys, of tid]
      by (auto simp: fl_inv_def split: if_splits)
  qed
  moreover have "pending_of ?f = (pending_of f)(tid := pending_of f tid @ ?run)"
    by (rule ext) (simp add: map_of_AList_update_default)
  ultimately show ?thesis by (intro exI [of _ ?f]) simp
qed

section \<open>Releasing and rolling back\<close>

lemma mset_concat_partition:
  "mset (concat (map snd (filter P al))) + mset (concat (map snd (filter (\<lambda>x. \<not> P x) al))) =
     mset (concat (map snd al))"
  by (induction al) (auto simp: algebra_simps)

lemma map_of_filter_key:
  "map_of (filter (\<lambda>it. P (fst it)) al) k = (if P k then map_of al k else None)"
  by (induction al) auto

lemma freeList_release_spec:
  assumes inv: "fl_inv f"
  shows "fl_inv (freeList_release t f)"
    and "mset (ids (freeList_release t f) @ pending_ids (freeList_release t f)) =
           mset (ids f @ pending_ids f)"
    and "pending_of (freeList_release t f) = (\<lambda>u. if u \<le> t then [] else pending_of f u)"
    and "ids (freeList_release t f) =
           sort (concat (map snd (filter (\<lambda>it. fst it \<le> t) (pending f))) @ ids f)"
proof -
  let ?g = "freeList_release t f"
  let ?tmp = "concat (map snd (filter (\<lambda>it. fst it \<le> t) (pending f)))"
  have srt: "sorted (ids f)" using inv by (simp add: fl_inv_def)
  have ids: "ids ?g = sort (?tmp @ ids f)"
    unfolding freeList_release_def Let_def
    by (simp add: mergeids_sorted srt) (rule properties_for_sort, simp_all)
  then show "ids ?g = sort (?tmp @ ids f)" .
  have pend: "pending_ids ?g = concat (map snd (filter (\<lambda>it. \<not> fst it \<le> t) (pending f)))"
    by (simp add: freeList_release_def Let_def pending_ids_def)
  show m: "mset (ids ?g @ pending_ids ?g) = mset (ids f @ pending_ids f)"
    using mset_concat_partition [of "\<lambda>it. fst it \<le> t" "pending f"]
    by (simp add: ids pend) (simp add: pending_ids_def)
  have "distinct (ids ?g @ pending_ids ?g)"
    using mset_eq_imp_distinct_iff [OF m] inv by (simp add: fl_inv_def)
  moreover have "set (ids ?g) \<union> set (pending_ids ?g) = set (ids f) \<union> set (pending_ids f)"
    using set_eq_of_mset [OF m] by simp
  moreover have "distinct (map fst (pending ?g))"
    using inv by (simp add: freeList_release_def Let_def fl_inv_def distinct_map_filter)
  moreover have "cache ?g = cache f" by (simp add: freeList_release_def Let_def)
  ultimately show "fl_inv ?g" using inv ids by (simp add: fl_inv_def)
  show "pending_of ?g = (\<lambda>u. if u \<le> t then [] else pending_of f u)"
    using map_of_filter_key [of "\<lambda>k. \<not> k \<le> t" "pending f"]
    by (auto simp: fun_eq_iff pending_of_def freeList_release_def Let_def)
qed

lemma freeList_rollback_spec:
  assumes inv: "fl_inv f"
  shows "fl_inv (freeList_rollback t f)"
    and "ids (freeList_rollback t f) = ids f"
    and "pending_of (freeList_rollback t f) = (pending_of f)(t := [])"
    and "mset (pending_ids f) = mset (pending_of f t) + mset (pending_ids (freeList_rollback t f))"
proof -
  let ?g = "freeList_rollback t f"
  have keys: "distinct (map fst (pending f))" using inv by (simp add: fl_inv_def)
  show i: "ids ?g = ids f" by (simp add: freeList_rollback_def)
  show "pending_of ?g = (pending_of f)(t := [])"
    by (auto simp: fun_eq_iff pending_of_def freeList_rollback_def delete_conv')
  show m: "mset (pending_ids f) = mset (pending_of f t) + mset (pending_ids ?g)"
    using concat_delete_perm [OF keys, of t]
    by (simp add: pending_ids_def pending_of_def freeList_rollback_def)
  have d: "distinct (pending_of f t @ pending_ids ?g)"
    using mset_eq_imp_distinct_iff [of "pending_ids f" "pending_of f t @ pending_ids ?g"] m inv
    by (simp add: fl_inv_def)
  have s: "set (pending_ids f) = set (pending_of f t) \<union> set (pending_ids ?g)"
    using set_eq_of_mset [of "pending_ids f" "pending_of f t @ pending_ids ?g"] m by simp
  have "distinct (map fst (pending ?g))"
    using keys by (simp add: freeList_rollback_def distinct_delete)
  moreover have "\<forall>p. cache ?g p = Some True \<longrightarrow> p \<in> set (ids ?g) \<union> set (pending_ids ?g)"
    using inv s i by (auto simp: freeList_rollback_def fold_unmark fl_inv_def)
  ultimately show "fl_inv ?g" using inv d s i by (auto simp: fl_inv_def)
qed

end
