(* ===== verification/Free_List_Machine.thy ===== *)
theory Free_List_Machine
  imports Free_List_Correct
begin

text \<open>
  The persistent form of the free list, the state machine of all its operations with the
  invariant over every reachable state, and the contract \<open>page_allocator\<close> that the
  transaction layer relies on: a page given up by a transaction cannot be handed out again
  before that transaction is released.
\<close>

section \<open>The operations as a state machine\<close>

text \<open>
  One transition per operation of the allocator, under what its callers guarantee: a request
  is for at least one page; a page that is freed is not a meta page and is in use (neither
  free nor pending); a page that is reloaded was written by \<open>freeList::write\<close> into a page of
  sufficient size.
\<close>

datatype fl_op = Alloc u32 | Free txid pgid u32 | Release txid | Rollback txid | Reload buffer

text \<open>How many bytes of the page the serialised list needs.\<close>

definition fl_bytes :: "freeList \<Rightarrow> nat" where
  "fl_bytes f = (let n = length (ids f) + length (pending_ids f) in
     PAGEHEADERSIZE + 8 * (if n < 0xffff then n else n + 1))"

inductive fl_step :: "freeList \<Rightarrow> fl_op \<Rightarrow> freeList \<Rightarrow> bool" where
  alloc: "0 < unat n \<Longrightarrow> freeList_allocate n f = Inr (r, f') \<Longrightarrow> fl_step f (Alloc n) f'"
| free: "2 \<le> pid \<Longrightarrow> unat pid + unat ov < 2 ^ 64 - 1 \<Longrightarrow>
    set (page_run pid (Suc (unat ov))) \<inter> (set (ids f) \<union> set (pending_ids f)) = {} \<Longrightarrow>
    freeList_free tid pid ov f = Inr f' \<Longrightarrow> fl_step f (Free tid pid ov) f'"
| release: "fl_step f (Release tid) (freeList_release tid f)"
| rollback: "fl_step f (Rollback tid) (freeList_rollback tid f)"
| reload: "fl_inv g \<Longrightarrow> fl_bytes g < 2 ^ 32 \<Longrightarrow> fl_bytes g \<le> length p0 \<Longrightarrow>
    freeList_write g p0 = Inr p \<Longrightarrow> freeList_reload p f = Inr f' \<Longrightarrow> fl_step f (Reload p) f'"

inductive_cases fl_stepE: "fl_step f a f'"

inductive fl_reachable :: "freeList \<Rightarrow> bool" where
  start: "fl_reachable freeList_new"
| step: "fl_reachable f \<Longrightarrow> fl_step f a f' \<Longrightarrow> fl_reachable f'"

text \<open>An operation that does not end the protection of what transaction \<open>u\<close> gave up.\<close>

fun protects :: "txid \<Rightarrow> fl_op \<Rightarrow> bool" where
  "protects u (Release b) = (b < u)"
| "protects u (Rollback t) = (t \<noteq> u)"
| "protects u _ = True"

section \<open>The contract of the transaction layer\<close>

locale page_allocator =
  fixes inv :: "'s \<Rightarrow> bool"
    and avail :: "'s \<Rightarrow> pgid set"
    and held :: "'s \<Rightarrow> txid \<Rightarrow> pgid set"
    and step :: "'s \<Rightarrow> fl_op \<Rightarrow> 's \<Rightarrow> bool"
  assumes inv_step: "inv s \<Longrightarrow> step s a t \<Longrightarrow> inv t"
    and held_not_avail: "inv s \<Longrightarrow> held s u \<inter> avail s = {}"
    and held_step: "inv s \<Longrightarrow> step s a t \<Longrightarrow> protects u a \<Longrightarrow> held s u \<subseteq> held t u"
begin

lemma inv_steps: "runs step s as t \<Longrightarrow> inv s \<Longrightarrow> inv t"
  by (induction rule: runs.induct) (auto intro: inv_step)

lemma held_steps:
  "runs step s as t \<Longrightarrow> inv s \<Longrightarrow> \<forall>a \<in> set as. protects u a \<Longrightarrow> held s u \<subseteq> held t u"
proof (induction rule: runs.induct)
  case (runs_more s a t as v)
  have "held s u \<subseteq> held t u" using held_step [OF _ runs_more.hyps(1)] runs_more.prems by simp
  also have "\<dots> \<subseteq> held v u" using runs_more inv_step by simp
  finally show ?case .
qed simp

text \<open>Whatever happens in between, a protected page never becomes available.\<close>

lemma protected:
  "runs step s as t \<Longrightarrow> inv s \<Longrightarrow> \<forall>a \<in> set as. protects u a \<Longrightarrow> held s u \<inter> avail t = {}"
  using held_steps [of s as t u] inv_steps [of s as t] held_not_avail [of t u] by blast

end

section \<open>The persistent form\<close>

lemma write_ids_spec:
  assumes "off + 8 * length xs \<le> length p"
  shows "\<exists>p'. write_ids p off xs = Inr p' \<and> length p' = length p \<and>
    read_ids p' off (length xs) = Inr xs \<and>
    (\<forall>o' n. o' + n \<le> off \<longrightarrow> read_bytes p' o' n = read_bytes p o' n)"
  using assms
proof (induction xs arbitrary: p off)
  case Nil
  then show ?case by simp
next
  case (Cons x xs)
  then obtain p1 where 1: "set_u64 p off x = Inr p1" "length p1 = length p"
    using set_ok(3) [of off p x] by auto
  from Cons.prems 1(2) obtain p' where p': "write_ids p1 (off + 8) xs = Inr p'" "length p' = length p1"
      "read_ids p' (off + 8) (length xs) = Inr xs"
      "\<forall>o' n. o' + n \<le> off + 8 \<longrightarrow> read_bytes p' o' n = read_bytes p1 o' n"
    using Cons.IH [of "off + 8" p1] by auto
  have "get_u64 p' off = get_u64 p1 off" using p'(4) by (simp add: get_defs)
  then have "get_u64 p' off = Inr x" using set_get_same(3) [OF 1(1)] by simp
  moreover have "read_bytes p' o' n = read_bytes p o' n" if "o' + n \<le> off" for o' n
    using p'(4) set_read_other(3) [OF 1(1), of o' n] that by simp
  ultimately show ?case using 1 p' by simp
qed

lemma unat_freeList_size:
  assumes "fl_bytes f < 2 ^ 32"
  shows "unat (freeList_size f) = fl_bytes f"
proof -
  let ?n = "length (ids f) + length (pending_ids f)"
  have n: "?n < 2 ^ 29" using assms by (simp add: fl_bytes_def Let_def PAGEHEADERSIZE_def split: if_splits)
  then have c: "unat (freeList_count f) = ?n" by (intro unat_freeList_count) simp
  have "0xffff \<le> freeList_count f \<longleftrightarrow> 0xffff \<le> ?n"
    using c by (simp add: word_le_nat_alt)
  moreover have "unat (freeList_count f + 1) = ?n + 1"
    using c n by (simp add: unat_word_ariths)
  ultimately have "unat (if 0xffff \<le> freeList_count f then freeList_count f + 1 else freeList_count f) =
      (if ?n < 0xffff then ?n else ?n + 1)"
    using c by simp
  then have "freeList_size f = of_nat (fl_bytes f)"
    unfolding freeList_size_def fl_bytes_def Let_def by (simp only: mult.commute)
  then show ?thesis using assms by (simp add: unat_of_nat)
qed

lemma freeList_write_read:
  assumes srt: "sorted (ids f)" and small: "fl_bytes f < 2 ^ 32" and space: "fl_bytes f \<le> length p"
  shows "\<exists>p'. freeList_write f p = Inr p' \<and> length p' = length p \<and> page_id p' = page_id p \<and>
    page_overflow p' = page_overflow p \<and>
    (\<forall>g. freeList_read p' g = Inr (reindex (g\<lparr>ids := sort (ids f @ pending_ids f)\<rparr>)))"
proof -
  let ?n = "length (ids f) + length (pending_ids f)"
  have n: "?n < 2 ^ 29" using small by (simp add: fl_bytes_def Let_def PAGEHEADERSIZE_def split: if_splits)
  then have c: "unat (freeList_count f) = ?n" by (intro unat_freeList_count) simp
  have len: "16 \<le> length p" using space by (simp add: fl_bytes_def Let_def PAGEHEADERSIZE_def)
  have all: "copyall f [] = sort (ids f @ pending_ids f)"
    using copyall_sort [OF srt] by (simp add: properties_for_sort)
  obtain p1 where p1: "or_page_flag freelistPageFlag p = Inr p1" using or_page_flag_ok [OF len] by blast
  note f1 = or_page_flag_frame [OF p1]
  have "16 \<le> length p1" using len f1(1) by simp
  then have cnt: "\<exists>p2. set_page_count x p1 = Inr p2" for x by (rule set_page_count_ok)
  consider (zero) "?n = 0" | (short) "0 < ?n" "?n < 0xffff" | (long) "0xffff \<le> ?n" by linarith
  then show ?thesis
  proof cases
    case zero
    obtain p2 where p2: "set_page_count 0 p1 = Inr p2" using cnt by blast
    note f2 = set_page_count_frame [OF p2]
    have "freeList_write f p = Inr p2"
      using p1 p2 zero c by (simp add: freeList_write_def Let_def unat_eq_zero)
    moreover have "freeList_read p2 g = Inr (reindex (g\<lparr>ids := sort (ids f @ pending_ids f)\<rparr>))" for g
      using f2(2) zero by (simp add: freeList_read_def)
    ultimately show ?thesis using f1 f2 by simp
  next
    case short
    let ?c = "ucast (freeList_count f) :: u16"
    have uc: "unat ?c = ?n" using short c by (simp add: unsigned_ucast_eq take_bit_nat_eq_self)
    then have nf: "?c \<noteq> 0xffff" using short by auto
    obtain p2 where p2: "set_page_count ?c p1 = Inr p2" using cnt by blast
    note f2 = set_page_count_frame [OF p2]
    obtain p3 where p3: "write_ids p2 PAGEHEADERSIZE (copyall f []) = Inr p3" "length p3 = length p2"
        "read_ids p3 PAGEHEADERSIZE ?n = Inr (copyall f [])"
        "\<forall>o' n. o' + n \<le> PAGEHEADERSIZE \<longrightarrow> read_bytes p3 o' n = read_bytes p2 o' n"
      using write_ids_spec [of PAGEHEADERSIZE "copyall f []" p2] space short f1(1) f2(1)
      by (auto simp: fl_bytes_def Let_def)
    have h: "page_count p3 = page_count p2" "page_id p3 = page_id p2" "page_overflow p3 = page_overflow p2"
      using p3(4) by (simp_all add: header_defs get_defs PAGEHEADERSIZE_def)
    have "freeList_write f p = Inr p3"
      using p1 p2 p3(1) short c
      by (auto simp: freeList_write_def Let_def word_less_nat_alt)
    moreover have "freeList_read p3 g = Inr (reindex (g\<lparr>ids := sort (ids f @ pending_ids f)\<rparr>))" for g
      using h(1) f2(2) nf uc short p3(3) all by (simp add: freeList_read_def sorted_sort_id)
    ultimately show ?thesis using f1 f2 h p3(2) by simp
  next
    case long
    obtain p2 where p2: "set_page_count 0xffff p1 = Inr p2" using cnt by blast
    note f2 = set_page_count_frame [OF p2]
    let ?d = "ucast (freeList_count f) :: u64"
    have sp: "PAGEHEADERSIZE + 8 + 8 * ?n \<le> length p2"
      using space long f1(1) f2(1) by (simp add: fl_bytes_def Let_def)
    then obtain p3 where p3: "set_u64 p2 PAGEHEADERSIZE ?d = Inr p3" "length p3 = length p2"
      using set_ok(3) [of PAGEHEADERSIZE p2 ?d] by auto
    obtain p4 where p4: "write_ids p3 (PAGEHEADERSIZE + 8) (copyall f []) = Inr p4" "length p4 = length p3"
        "read_ids p4 (PAGEHEADERSIZE + 8) ?n = Inr (copyall f [])"
        "\<forall>o' n. o' + n \<le> PAGEHEADERSIZE + 8 \<longrightarrow> read_bytes p4 o' n = read_bytes p3 o' n"
      using write_ids_spec [of "PAGEHEADERSIZE + 8" "copyall f []" p3] sp p3(2) by auto
    have h: "page_count p4 = page_count p2" "page_id p4 = page_id p2" "page_overflow p4 = page_overflow p2"
      using p4(4) set_read_other(3) [OF p3(1)] by (simp_all add: header_defs get_defs PAGEHEADERSIZE_def)
    have "get_u64 p4 PAGEHEADERSIZE = get_u64 p3 PAGEHEADERSIZE" using p4(4) by (simp add: get_defs)
    then have d: "get_u64 p4 PAGEHEADERSIZE = Inr ?d" using set_get_same(3) [OF p3(1)] by simp
    have "freeList_write f p = Inr p4"
      using p1 p2 p3(1) p4(1) long c
      by (auto simp: freeList_write_def Let_def word_less_nat_alt)
    moreover have "freeList_read p4 g = Inr (reindex (g\<lparr>ids := sort (ids f @ pending_ids f)\<rparr>))" for g
      using h(1) f2(2) d c long p4(3) all by (simp add: freeList_read_def sorted_sort_id)
    ultimately show ?thesis using f1 f2 h p3(2) p4(2) by simp
  qed
qed


lemma reindex_twice: "reindex ((reindex f)\<lparr>ids := xs\<rparr>) = reindex (f\<lparr>ids := xs\<rparr>)"
  by (simp add: reindex_def Let_def)

lemma freeList_reload_spec:
  assumes inv: "fl_inv f" and g: "fl_inv g" "fl_bytes g < 2 ^ 32" "fl_bytes g \<le> length p0"
    and w: "freeList_write g p0 = Inr p"
  shows "freeList_reload p f = Inr (reindex (f\<lparr>ids :=
      filter (\<lambda>x. x \<notin> set (pending_ids f)) (sort (ids g @ pending_ids g))\<rparr>))"
    and "fl_inv (reindex (f\<lparr>ids :=
      filter (\<lambda>x. x \<notin> set (pending_ids f)) (sort (ids g @ pending_ids g))\<rparr>))"
proof -
  have "sorted (ids g)" using g(1) by (simp add: fl_inv_def)
  from freeList_write_read [OF this g(2,3)] w
  have r: "freeList_read p f = Inr (reindex (f\<lparr>ids := sort (ids g @ pending_ids g)\<rparr>))" by auto
  have pend: "pending_ids (f\<lparr>ids := xs\<rparr>) = pending_ids f" for xs by (simp add: pending_ids_def)
  show "freeList_reload p f = Inr (reindex (f\<lparr>ids :=
      filter (\<lambda>x. x \<notin> set (pending_ids f)) (sort (ids g @ pending_ids g))\<rparr>))"
    using r by (simp add: freeList_reload_def Let_def pend reindex_twice)
  show "fl_inv (reindex (f\<lparr>ids :=
      filter (\<lambda>x. x \<notin> set (pending_ids f)) (sort (ids g @ pending_ids g))\<rparr>))"
    using inv g(1) by (auto simp: fl_inv_def pend cache_reindex sorted_wrt_filter)
qed

section \<open>The invariant over all operations\<close>

lemma fl_step_inv: "fl_inv f \<Longrightarrow> fl_step f a f' \<Longrightarrow> fl_inv f'"
proof (erule fl_stepE, goal_cases)
  case (1 n r)
  then show ?case using freeList_allocate_spec [of f n] alloc_result_inv [of f] by fastforce
next
  case (2 pid ov tid)
  then show ?case using freeList_free_spec [of f pid ov tid] by fastforce
next
  case (5 g p0 p)
  then show ?case using freeList_reload_spec [of f g p0 p] by simp
qed (simp_all add: freeList_release_spec freeList_rollback_spec)

lemma set_pending_of_subset: "set (pending_of f u) \<subseteq> set (pending_ids f)"
  by (cases "map_of (pending f) u") (auto simp: pending_of_def pending_ids_def dest: map_of_SomeD)

lemma fl_step_pending_of:
  assumes "fl_inv f" and "fl_step f a f'" and "protects u a"
  shows "set (pending_of f u) \<subseteq> set (pending_of f' u)"
  using assms(2)
proof (cases rule: fl_step.cases)
  case (alloc n r)
  then have "alloc_result f (unat n) r f'"
    using freeList_allocate_spec [OF assms(1), of n] by auto
  then show ?thesis by (auto simp: alloc_result_def pending_of_def split: if_splits)
next
  case (free pid ov tid)
  then show ?thesis using freeList_free_spec [OF assms(1), of pid ov tid] by (auto split: if_splits)
next
  case (release tid)
  then show ?thesis using freeList_release_spec(3) [OF assms(1), of tid] assms(3) by auto
next
  case (rollback tid)
  then show ?thesis using freeList_rollback_spec(3) [OF assms(1), of tid] assms(3) by auto
next
  case (reload g p0 p)
  then show ?thesis
    using freeList_reload_spec(1) [OF assms(1), of g p0 p] by (auto simp: pending_of_def)
qed

interpretation fl: page_allocator fl_inv "\<lambda>f. set (ids f)" "\<lambda>f u. set (pending_of f u)" fl_step
proof unfold_locales
  fix s t u v a
  show "fl_inv s \<Longrightarrow> fl_step s a t \<Longrightarrow> fl_inv t" by (rule fl_step_inv)
  show "fl_inv s \<Longrightarrow> set (pending_of s u) \<inter> set (ids s) = {}"
    using set_pending_of_subset [of s u] by (auto simp: fl_inv_def)
  show "fl_inv s \<Longrightarrow> fl_step s a t \<Longrightarrow> protects v a \<Longrightarrow>
      set (pending_of s v) \<subseteq> set (pending_of t v)" by (rule fl_step_pending_of)
qed

lemma fl_inv_new: "fl_inv freeList_new"
  by (simp add: fl_inv_def freeList_new_def pending_ids_def)


section \<open>Properties\<close>

text \<open>
  C8: \<open>freeList::allocate\<close> returns a page id and never aborts on a well-formed list. It returns 0
  exactly when the free pages contain no run of \<open>numPages\<close> consecutive ids, and then leaves
  the list alone; otherwise it returns the first page of the lowest such run and takes exactly
  that run out of \<open>ids_\<close> and out of the index.
\<close>

theorem allocate_correct:
  assumes "fl_inv f" and "0 < unat numPages"
  shows "\<exists>r f'. freeList_allocate numPages f = Inr (r, f') \<and>
    (r = 0 \<longleftrightarrow> (\<nexists>p. set (page_run p (unat numPages)) \<subseteq> set (ids f))) \<and>
    (r = 0 \<longrightarrow> f' = f) \<and>
    (r \<noteq> 0 \<longrightarrow> set (page_run r (unat numPages)) \<subseteq> set (ids f) \<and>
       (\<forall>p. set (page_run p (unat numPages)) \<subseteq> set (ids f) \<longrightarrow> r \<le> p) \<and>
       ids f' = filter (\<lambda>x. x \<notin> set (page_run r (unat numPages))) (ids f) \<and>
       pending f' = pending f \<and>
       (\<forall>p. cache f' p = (if p \<in> set (page_run r (unat numPages)) then None else cache f p)))"
proof -
  obtain r f' where "freeList_allocate numPages f = Inr (r, f')" "alloc_result f (unat numPages) r f'"
    using freeList_allocate_spec [OF assms] by blast
  then show ?thesis
    by (intro exI [of _ r] exI [of _ f']) (auto simp: alloc_result_def split: if_splits)
qed

definition fl_example :: freeList where
  "fl_example = \<lparr>ids = [3, 5, 6, 8, 9, 10], pending = [(7, [12, 13])], cache = Map.empty\<rparr>"

lemma pending_fl_example:
  "pending_of fl_example t = (if t = 7 then [12, 13] else [])" "pending_ids fl_example = [12, 13]"
  "ids fl_example = [3, 5, 6, 8, 9, 10]"
  by (simp_all add: fl_example_def pending_of_def pending_ids_def)

lemma fl_example_inv: "fl_inv fl_example"
  by (simp add: fl_example_def fl_inv_def pending_ids_def)

theorem allocate_correct_witness:
  "fl_inv fl_example \<and> 0 < unat (3 :: u32) \<and>
   (\<exists>f'. freeList_allocate 3 fl_example = Inr (8, f') \<and> ids f' = [3, 5, 6])"
proof -
  have n: "0 < unat (3 :: u32)" by simp
  obtain r f' where r: "freeList_allocate 3 fl_example = Inr (r, f')"
    and ids: "r \<noteq> 0 \<longrightarrow> ids f' = filter (\<lambda>x. x \<notin> set (page_run r (unat (3 :: u32)))) (ids fl_example)"
    using allocate_correct [OF fl_example_inv n] by blast
  have "map_sum id fst (freeList_allocate 3 fl_example) = Inr 8"
    by (simp add: freeList_allocate_def fl_example_def allocate_loop.simps)
  then have "r = 8" using r by simp
  then have "ids f' = [3, 5, 6]"
    using ids by (simp add: fl_example_def page_run_def upt_rec)
  then show ?thesis using fl_example_inv n r \<open>r = 8\<close> by auto
qed


text \<open>
  C9: In every state that the allocator's operations can reach from a new list, \<open>ids_\<close> is
  sorted, no page is listed twice in \<open>ids_\<close> and \<open>pending_\<close> together, no transaction has two
  entries, the meta pages 0 and 1 are not managed, and every page the index marks as free is
  free or pending.
\<close>

theorem reachable_invariant: "fl_reachable f \<Longrightarrow> fl_inv f"
proof (induction rule: fl_reachable.induct)
  case start
  show ?case by (rule fl_inv_new)
next
  case (step f a f')
  show ?case by (rule fl.inv_step [OF step.IH step.hyps(2)])
qed

text \<open>The list of the repository's unit test: four pages from 12 on are freed and released.\<close>

lemma free_example:
  "\<exists>f. freeList_free 100 12 3 freeList_new = Inr f \<and> pending f = [(100, [12, 13, 14, 15])] \<and> ids f = []"
  by (simp add: freeList_free_def free_loop.simps freeList_new_def pending_of_def)

lemma freeList_new_ids [simp]: "ids freeList_new = []" "pending_ids freeList_new = []"
  by (simp_all add: freeList_new_def pending_ids_def)

theorem reachable_invariant_witness:
  "\<exists>f. fl_reachable f \<and> ids f = [12, 13, 14, 15] \<and> fl_inv f"
proof -
  obtain f where f: "freeList_free 100 12 3 freeList_new = Inr f"
      "pending f = [(100, [12, 13, 14, 15])]" "ids f = []"
    using free_example by blast
  have "fl_step freeList_new (Free 100 12 3) f" by (rule fl_step.free) (simp_all add: f(1))
  then have "fl_reachable f" by (rule fl_reachable.step [OF fl_reachable.start])
  then have r: "fl_reachable (freeList_release 100 f)"
    by (rule fl_reachable.step [OF _ fl_step.release])
  moreover have "ids (freeList_release 100 f) = [12, 13, 14, 15]"
    using f by (simp add: freeList_release_def Let_def mergeids_def)
  ultimately show ?thesis using reachable_invariant [OF r] by auto
qed

text \<open>
  C27: Freeing a run of pages in use succeeds: the pages become pending for the transaction, at
  the end of its vector, in ascending order; no other transaction's pages and no free page
  change, and the list stays well-formed.
\<close>

theorem free_makes_pending:
  assumes "fl_inv f" and "2 \<le> pid" and "unat pid + unat ov < 2 ^ 64 - 1"
    and "set (page_run pid (Suc (unat ov))) \<inter> (set (ids f) \<union> set (pending_ids f)) = {}"
  shows "\<exists>f'. freeList_free tid pid ov f = Inr f' \<and> fl_inv f' \<and> ids f' = ids f \<and>
    pending_of f' = (pending_of f)(tid := pending_of f tid @ page_run pid (Suc (unat ov)))"
  using freeList_free_spec [OF assms, of tid] by blast

theorem free_makes_pending_witness:
  "\<exists>f'. freeList_free 7 20 1 fl_example = Inr f' \<and> fl_inv f' \<and> pending_of f' 7 = [12, 13, 20, 21]"
proof -
  have "set (page_run 20 (Suc (unat (1 :: u32)))) \<inter> (set (ids fl_example) \<union> set (pending_ids fl_example)) = {}"
    by (simp add: pending_fl_example page_run_def)
  with free_makes_pending [OF fl_example_inv, of 20 1 7] show ?thesis
    by (auto simp: pending_fl_example page_run_def)
qed

text \<open>
  C26: \<open>freeList::release(txid)\<close> makes allocatable exactly the pages pending for transactions up
  to \<open>txid\<close>: the new \<open>ids_\<close> is the sorted union of the old \<open>ids_\<close> and those pages, the entries
  of later transactions are untouched, and no page is lost or duplicated.
\<close>

theorem release_correct:
  assumes "fl_inv f"
  shows "fl_inv (freeList_release t f) \<and>
    ids (freeList_release t f) = sort (concat (map snd (filter (\<lambda>it. fst it \<le> t) (pending f))) @ ids f) \<and>
    (\<forall>u. pending_of (freeList_release t f) u = (if u \<le> t then [] else pending_of f u)) \<and>
    mset (ids (freeList_release t f)) + mset (pending_ids (freeList_release t f)) =
      mset (ids f) + mset (pending_ids f)"
  using freeList_release_spec [OF assms, of t] by simp_all

theorem release_correct_witness:
  "fl_inv fl_example \<and> ids (freeList_release 7 fl_example) = [3, 5, 6, 8, 9, 10, 12, 13] \<and>
   pending_of (freeList_release 7 fl_example) 7 = []"
proof -
  have "concat (map snd (filter (\<lambda>it. fst it \<le> 7) (pending fl_example))) = [12, 13]"
    by (simp add: fl_example_def)
  then show ?thesis
    using fl_example_inv release_correct [OF fl_example_inv, of 7] by (simp add: pending_fl_example)
qed

text \<open>
  A sequence of frees by several transactions: what each names (a transaction, a page and its overflow), the
  runs of pages, and the pages that one transaction frees.
\<close>

abbreviation freed_run :: "txid \<times> pgid \<times> u32 \<Rightarrow> pgid list" where
  "freed_run r \<equiv> page_run (fst (snd r)) (Suc (unat (snd (snd r))))"

definition freed_by :: "txid \<Rightarrow> (txid \<times> pgid \<times> u32) list \<Rightarrow> pgid list" where
  "freed_by u frees = concat (map freed_run (filter (\<lambda>r. fst r = u) frees))"

definition free_all :: "(txid \<times> pgid \<times> u32) list \<Rightarrow> freeList \<Rightarrow> freeList result" where
  "free_all = fold_result (\<lambda>(t, pid, ov). freeList_free t pid ov)"

text \<open>The pages are data pages in use, and no page is freed twice.\<close>

definition frees_ok :: "(txid \<times> pgid \<times> u32) list \<Rightarrow> freeList \<Rightarrow> bool" where
  "frees_ok frees f \<longleftrightarrow> (\<forall>(t, pid, ov) \<in> set frees. 2 \<le> pid \<and> unat pid + unat ov < 2 ^ 64 - 1) \<and>
     distinct (concat (map freed_run frees)) \<and>
     set (concat (map freed_run frees)) \<inter> (set (ids f) \<union> set (pending_ids f)) = {}"

lemma free_all_spec:
  "fl_inv f \<Longrightarrow> frees_ok frees f \<Longrightarrow> \<exists>f'. free_all frees f = Inr f' \<and> fl_inv f' \<and> ids f' = ids f \<and>
     pending_of f' = (\<lambda>u. pending_of f u @ freed_by u frees)"
proof (induction frees arbitrary: f)
  case Nil
  then show ?case by (simp add: free_all_def freed_by_def)
next
  case (Cons r frees)
  obtain t pid ov where r: "r = (t, pid, ov)" by (cases r)
  have ok: "2 \<le> pid" "unat pid + unat ov < 2 ^ 64 - 1" "set (page_run pid (Suc (unat ov))) \<inter> (set (ids f) \<union> set (pending_ids f)) = {}"
    using Cons.prems(2) by (auto simp: frees_ok_def r)
  obtain f1 where f1: "freeList_free t pid ov f = Inr f1" "fl_inv f1" "ids f1 = ids f"
      "pending_of f1 = (pending_of f)(t := pending_of f t @ page_run pid (Suc (unat ov)))"
      "mset (pending_ids f1) = mset (pending_ids f) + mset (page_run pid (Suc (unat ov)))"
    using freeList_free_spec [OF Cons.prems(1) ok, of t] by blast
  have "set (pending_ids f1) = set (pending_ids f) \<union> set (page_run pid (Suc (unat ov)))"
    using set_eq_of_mset [of "pending_ids f1" "pending_ids f @ page_run pid (Suc (unat ov))"] f1(5) by simp
  then have "frees_ok frees f1" using Cons.prems(2) f1(3) by (auto simp: frees_ok_def r)
  from Cons.IH [OF f1(2) this] f1 show ?case by (auto simp: free_all_def freed_by_def r fun_eq_iff)
qed

text \<open>
  C28: Rolling a transaction back undoes all its frees and nothing else. Let a transaction have nothing pending, and
  let it and other transactions free any number of pages in use, in any order. After \<open>rollback\<close> the free pages
  are what they were, the transaction has nothing pending and the index marks none of its pages, and the
  pending pages of every other transaction are those it had and those it freed.
\<close>

theorem rollback_undoes_free:
  assumes "fl_inv f" and "frees_ok frees f" and "pending_of f tid = []"
  shows "\<exists>f'. free_all frees f = Inr f' \<and> pending_of f' tid = freed_by tid frees \<and> fl_inv (freeList_rollback tid f') \<and>
    ids (freeList_rollback tid f') = ids f \<and> pending_of (freeList_rollback tid f') tid = pending_of f tid \<and>
    (\<forall>p \<in> set (freed_by tid frees). cache (freeList_rollback tid f') p = None) \<and>
    (\<forall>u. u \<noteq> tid \<longrightarrow> pending_of (freeList_rollback tid f') u = pending_of f u @ freed_by u frees)"
proof -
  obtain f' where f': "free_all frees f = Inr f'" "fl_inv f'" "ids f' = ids f" "pending_of f' = (\<lambda>u. pending_of f u @ freed_by u frees)"
    using free_all_spec [OF assms(1,2)] by blast
  have "cache (freeList_rollback tid f') p = None" if "p \<in> set (freed_by tid frees)" for p
    using that f'(4) by (simp add: freeList_rollback_def fold_unmark)
  then show ?thesis using f' freeList_rollback_spec [OF f'(2), of tid] assms(3) by simp
qed

theorem rollback_undoes_free_witness:
  "\<exists>f'. free_all [(8, 20, 1), (9, 30, 0), (8, 25, 0)] fl_example = Inr f' \<and> pending_of f' 8 = [20, 21, 25] \<and>
     pending_of (freeList_rollback 8 f') 8 = [] \<and> pending_of (freeList_rollback 8 f') 9 = [30] \<and>
     pending_of (freeList_rollback 8 f') 7 = [12, 13] \<and> cache (freeList_rollback 8 f') 25 = None"
proof -
  have "frees_ok [(8, 20, 1), (9, 30, 0), (8, 25, 0)] fl_example"
    by (simp add: frees_ok_def pending_fl_example page_run_def)
  moreover have "pending_of fl_example 8 = []" by (simp add: pending_fl_example)
  ultimately show ?thesis
    using rollback_undoes_free [OF fl_example_inv, of "[(8, 20, 1), (9, 30, 0), (8, 25, 0)]" 8]
    by (auto simp: freed_by_def pending_fl_example page_run_def)
qed

text \<open>
  C20: The persistent form loses nothing: \<open>freeList::write\<close> stays inside any page of at least
  \<open>freeList::size()\<close> bytes, keeps the page's id and overflow, and \<open>freeList::read\<close> of the
  result puts all free and pending pages, sorted, into \<open>ids_\<close>.
\<close>

theorem write_read_roundtrip:
  assumes "fl_inv f" and "fl_bytes f < 2 ^ 32" and "unat (freeList_size f) \<le> length p"
  shows "\<exists>p'. freeList_write f p = Inr p' \<and> length p' = length p \<and> page_id p' = page_id p \<and>
    page_overflow p' = page_overflow p \<and>
    (\<forall>g. freeList_read p' g = Inr (reindex (g\<lparr>ids := sort (ids f @ pending_ids f)\<rparr>)))"
  using freeList_write_read [of f p] assms by (simp add: fl_inv_def unat_freeList_size)

theorem write_read_roundtrip_witness:
  "\<exists>p' g'. freeList_write fl_example (replicate 100 0) = Inr p' \<and>
     freeList_read p' freeList_new = Inr g' \<and> ids g' = [3, 5, 6, 8, 9, 10, 12, 13]"
proof -
  have b: "fl_bytes fl_example = 80"
    by (simp add: fl_bytes_def fl_example_def pending_ids_def PAGEHEADERSIZE_def)
  then have "unat (freeList_size fl_example) \<le> length (replicate 100 (0 :: byte))"
    by (simp add: unat_freeList_size)
  then obtain p' where "freeList_write fl_example (replicate 100 0) = Inr p'"
      "\<forall>g. freeList_read p' g = Inr (reindex (g\<lparr>ids := sort (ids fl_example @ pending_ids fl_example)\<rparr>))"
    using write_read_roundtrip [OF fl_example_inv, of "replicate 100 0"] b by auto
  then show ?thesis by (simp add: fl_example_def pending_ids_def)
qed

text \<open>
  C10: Snapshot safety of the allocator: whatever sequence of operations follows, as long as no
  release reaches transaction \<open>u\<close> and \<open>u\<close> is not rolled back, a page pending for \<open>u\<close> is in
  no later \<open>ids_\<close>, so no \<open>allocate\<close> can hand it out.
\<close>

theorem pending_page_never_allocated:
  assumes "fl_inv f" and "runs fl_step f ops f'" and "\<forall>a \<in> set ops. protects u a"
    and "p \<in> set (pending_of f u)" and "0 < unat n" and "freeList_allocate n f' = Inr (r, f'')"
  shows "p \<notin> set (ids f') \<and> (r \<noteq> 0 \<longrightarrow> p \<notin> set (page_run r (unat n)))"
proof -
  have nid: "p \<notin> set (ids f')" using fl.protected [OF assms(2,1,3)] assms(4) by auto
  have "fl_inv f'" by (rule fl.inv_steps [OF assms(2,1)])
  from freeList_allocate_spec [OF this assms(5)] assms(6)
  have "alloc_result f' (unat n) r f''" by simp
  then show ?thesis using nid by (auto simp: alloc_result_def)
qed

theorem pending_page_never_allocated_witness:
  "12 \<notin> set (ids (freeList_release 6 fl_example))"
proof -
  let ?f = "freeList_release 6 fl_example"
  have run: "runs fl_step fl_example [Release 6] ?f"
    by (rule runs_more, rule fl_step.release, rule runs_none)
  have "12 \<in> set (pending_of fl_example 7)" by (simp add: pending_fl_example)
  moreover obtain r f'' where "freeList_allocate 1 ?f = Inr (r, f'')"
    using freeList_allocate_spec [OF fl.inv_steps [OF run fl_example_inv], of 1] by auto
  ultimately show ?thesis
    using pending_page_never_allocated [OF fl_example_inv run, of 7 12 1 r f''] by simp
qed

section \<open>Defects of the index\<close>

lemma freeList_free_unmarked:
  assumes "freeList_free tid pid ov f = Inr f'" and "unat pid + unat ov < 2 ^ 64 - 1"
    and "p \<in> set (page_run pid (Suc (unat ov)))"
  shows "cache f' p \<noteq> Some True"
proof (cases "\<exists>q \<in> set (page_run pid (Suc (unat ov))). cache f q = Some True")
  case True
  then obtain q where "q \<in> set (page_run pid (Suc (unat ov)))" "cache f q = Some True" by blast
  then show ?thesis
    using assms(1) free_loop_assert [OF assms(2), of q "cache f" "pending_of f tid"]
    by (simp add: freeList_free_def)
next
  case False
  then show ?thesis
    using assms free_loop_ok [OF assms(2), of "cache f" "pending_of f tid"]
    by (auto simp: freeList_free_def split: if_splits)
qed

text \<open>
  C39: A double free is not detected. \<open>free\<close> tests \<open>cache_[id]\<close> but never sets it, so freeing
  the same page in use twice in one transaction succeeds both times and leaves the page in
  \<open>pending_\<close> twice, from where \<open>release\<close> puts it into \<open>ids_\<close> twice.
\<close>

theorem double_free_undetected:
  assumes "fl_inv f" and "2 \<le> pid" and "unat pid + unat ov < 2 ^ 64 - 1"
    and "set (page_run pid (Suc (unat ov))) \<inter> (set (ids f) \<union> set (pending_ids f)) = {}"
  shows "\<exists>f1 f2. freeList_free tid pid ov f = Inr f1 \<and> freeList_free tid pid ov f1 = Inr f2 \<and>
    \<not> distinct (pending_of f2 tid) \<and> \<not> fl_inv f2"
proof -
  let ?run = "page_run pid (Suc (unat ov))"
  obtain f1 where f1: "freeList_free tid pid ov f = Inr f1" "fl_inv f1"
      "pending_of f1 = (pending_of f)(tid := pending_of f tid @ ?run)"
    using freeList_free_spec [OF assms, of tid] by blast
  have "\<forall>p \<in> set ?run. cache f1 p \<noteq> Some True"
    using freeList_free_unmarked [OF f1(1) assms(3)] by blast
  then obtain f2 where f2: "freeList_free tid pid ov f1 = Inr f2" and
      p2: "pending f2 = AList.update tid (pending_of f1 tid @ ?run) (pending f1)"
    using free_loop_ok [OF assms(3), of "cache f1" "pending_of f1 tid"] by (simp add: freeList_free_def)
  have "pending_of f2 tid = pending_of f1 tid @ ?run"
    by (simp add: pending_of_def p2 update_conv')
  then have nd: "\<not> distinct (pending_of f2 tid)" using f1(3) by (simp add: page_run_Suc)
  have keys: "distinct (map fst (pending f2))"
    using f1(2) p2 by (simp add: fl_inv_def distinct_update)
  have "\<not> distinct (pending_ids f2)"
    using concat_delete_perm [OF keys, of tid] nd
      mset_eq_imp_distinct_iff [of "pending_ids f2"
        "pending_of f2 tid @ concat (map snd (AList.delete tid (pending f2)))"]
    by (simp add: pending_ids_def pending_of_def)
  then have "\<not> fl_inv f2" by (simp add: fl_inv_def)
  then show ?thesis using f1(1) f2 nd by blast
qed

theorem double_free_undetected_witness:
  "\<exists>f1 f2. freeList_free 7 20 0 fl_example = Inr f1 \<and> freeList_free 7 20 0 f1 = Inr f2 \<and>
     \<not> distinct (pending_of f2 7)"
proof -
  have "set (page_run 20 (Suc (unat (0 :: u32)))) \<inter> (set (ids fl_example) \<union> set (pending_ids fl_example)) = {}"
    by (simp add: pending_fl_example page_run_def)
  with double_free_undetected [OF fl_example_inv, of 20 0 7] show ?thesis by auto
qed

text \<open>
  Freeing a meta page is only logged: page 1 becomes pending and, once released, the next
  \<open>allocate\<close> aborts the process.
\<close>

theorem free_meta_page_aborts:
  "\<exists>f. freeList_free 5 1 0 freeList_new = Inr f \<and>
     freeList_allocate 1 (freeList_release 5 f) = Inl LogFatal"
proof -
  have "\<exists>f. freeList_free 5 1 0 freeList_new = Inr f \<and> pending f = [(5, [1])] \<and> ids f = []"
    using free_loop_ok [of 1 0 Map.empty "[]"]
    by (simp add: freeList_free_def freeList_new_def pending_of_def page_run_def)
  then obtain f where f: "freeList_free 5 1 0 freeList_new = Inr f" "pending f = [(5, [1])]" "ids f = []"
    by blast
  then have "ids (freeList_release 5 f) = [1]"
    by (simp add: freeList_release_def Let_def mergeids_def)
  then have "freeList_allocate 1 (freeList_release 5 f) = Inl LogFatal"
    by (simp add: freeList_allocate_def allocate_loop.simps [of "[1]"] Let_def)
  with f(1) show ?thesis by blast
qed

end
