(* ===== verification/Node_Map.thy ===== *)
theory Node_Map
  imports Node
begin

text \<open>
  What the operations on one node mean. On ascending keys \<open>Node::binarySearch\<close> finds a key
  or the place where it belongs, and a node is a finite map from keys to inodes: \<open>put\<close> replaces
  the entry of an old key by one of a new key and \<open>del\<close> is a deletion. The map contract is the
  locale \<open>ordered_map\<close>, interpreted on the node operations; what it promises for sequences of
  calls is what a node promises to the transaction that edits it.
\<close>

section \<open>The interface: an ordered map\<close>

datatype 'v map_op = Put "byte list" 'v | Del "byte list"

fun apply_op :: "'v map_op \<Rightarrow> (byte list \<rightharpoonup> 'v) \<Rightarrow> (byte list \<rightharpoonup> 'v)" where
  "apply_op (Put k v) m = m(k \<mapsto> v)"
| "apply_op (Del k) m = m(k := None)"

text \<open>
  The calls of a node: \<open>put\<close> takes the entry of an old key out and puts one under a new key in its place, which
  keeps the keys in order when the new key lies between the neighbours of the old one; \<open>spill\<close> uses it
  with two different keys, everything else with the same key twice.
\<close>

datatype 'v key_call = Put_call "byte list" "byte list" 'v | Del_call "byte list"

definition keeps_order :: "byte list set \<Rightarrow> byte list \<Rightarrow> byte list \<Rightarrow> bool" where
  "keeps_order K old new \<longleftrightarrow> (\<forall>k \<in> K - {old}. (k < old \<longrightarrow> k < new) \<and> (old < k \<longrightarrow> new < k))"

fun call_effect :: "('v key_call \<Rightarrow> bool) \<Rightarrow> 'v key_call \<Rightarrow> (byte list \<rightharpoonup> 'v) \<Rightarrow> (byte list \<rightharpoonup> 'v)" where
  "call_effect ok (Put_call old new v) m = (if ok (Put_call old new v) then m(old := None, new \<mapsto> v) else m)"
| "call_effect ok (Del_call k) m = (if ok (Del_call k) then m(k := None) else m)"

text \<open>The calls a client may make: keys of less than 4 GiB, and a \<open>put\<close> that is accepted keeps the order.\<close>

fun call_allowed :: "('v key_call \<Rightarrow> bool) \<Rightarrow> 'v key_call \<Rightarrow> (byte list \<rightharpoonup> 'v) \<Rightarrow> bool" where
  "call_allowed ok (Put_call old new v) m \<longleftrightarrow> length old < 2 ^ 32 \<and> length new < 2 ^ 32 \<and>
     (ok (Put_call old new v) \<longrightarrow> keeps_order (dom m) old new)"
| "call_allowed ok (Del_call k) m \<longleftrightarrow> length k < 2 ^ 32"

fun calls_allowed :: "('v key_call \<Rightarrow> bool) \<Rightarrow> 'v key_call list \<Rightarrow> (byte list \<rightharpoonup> 'v) \<Rightarrow> bool" where
  "calls_allowed ok [] m \<longleftrightarrow> True"
| "calls_allowed ok (c # cs) m \<longleftrightarrow> call_allowed ok c m \<and> calls_allowed ok cs (call_effect ok c m)"

fun run_key_calls :: "('v key_call \<Rightarrow> 's \<Rightarrow> bool \<times> 's) \<Rightarrow> 'v key_call list \<Rightarrow> 's \<Rightarrow> bool list \<times> 's" where
  "run_key_calls call [] s = ([], s)"
| "run_key_calls call (c # cs) s = (let (r, s) = call c s; (rs, s) = run_key_calls call cs s in (r # rs, s))"

locale ordered_map =
  fixes inv :: "'s \<Rightarrow> bool"
    and accepts :: "'v key_call \<Rightarrow> bool"
    and keys :: "'s \<Rightarrow> byte list list"
    and lookup :: "'s \<Rightarrow> byte list \<rightharpoonup> 'v"
    and call :: "'v key_call \<Rightarrow> 's \<Rightarrow> bool \<times> 's"
  assumes call_ok: "inv s \<Longrightarrow> call_allowed accepts c (lookup s) \<Longrightarrow>
      \<exists>s'. call c s = (accepts c, s') \<and> inv s' \<and> lookup s' = call_effect accepts c (lookup s)"
    and keys_lookup: "inv s \<Longrightarrow> ascending (keys s) \<and> set (keys s) = dom (lookup s)"
begin

lemma calls_ok:
  "inv s \<Longrightarrow> calls_allowed accepts cs (lookup s) \<Longrightarrow>
     \<exists>s'. run_key_calls call cs s = (map accepts cs, s') \<and> inv s' \<and> lookup s' = fold (call_effect accepts) cs (lookup s)"
proof (induction cs arbitrary: s)
  case (Cons c cs)
  obtain s1 where s1: "call c s = (accepts c, s1)" "inv s1" "lookup s1 = call_effect accepts c (lookup s)"
    using call_ok [OF Cons.prems(1), of c] Cons.prems(2) by auto
  from Cons.IH [OF s1(2)] Cons.prems(2) s1(3) obtain s' where
    "run_key_calls call cs s1 = (map accepts cs, s')" "inv s'" "lookup s' = fold (call_effect accepts) cs (lookup s1)" by auto
  then show ?case using s1(1,3) by (auto simp: Let_def)
qed simp

text \<open>The order in which the keys are stored is determined by the map.\<close>

lemma keys_sorted: "inv s \<Longrightarrow> keys s = sorted_list_of_set (dom (lookup s))"
  using keys_lookup [of s] by (metis ascending_iff sorted_list_of_set.idem_if_sorted_distinct)

end

section \<open>Search\<close>

definition node_keys :: "node \<Rightarrow> byte list list" where
  "node_keys n = map (\<lambda>i. item_data (inode_key i)) (inodeList n)"

interpretation node_search: key_search
  "\<lambda>arr. Some (map (\<lambda>i. item_data (inode_key i)) arr)"
  "\<lambda>arr key b e. Inr (binarySearch_loop arr key b e)"
proof (unfold_locales, goal_cases)
  case (1 arr ks e key b)
  then show ?case
    by (subst binarySearch_loop.simps) (auto simp: Let_def)
qed

lemma binarySearch_spec:
  assumes "ascending (map (\<lambda>i. item_data (inode_key i)) arr)"
  shows "binarySearch arr key =
    (lower_bound (map (\<lambda>i. item_data (inode_key i)) arr) (item_data key),
     item_data key \<in> set (map (\<lambda>i. item_data (inode_key i)) arr))"
  using node_search.search_spec [OF refl assms, of key] by (simp add: binarySearch_def)

section \<open>A node as a map\<close>

text \<open>Keys ascend, and every inode's key is non-empty and has its true length.\<close>

definition node_inv :: "node \<Rightarrow> bool" where
  "node_inv n \<longleftrightarrow> ascending (node_keys n) \<and>
     (\<forall>i \<in> set (inodeList n). item_wf (inode_key i) \<and> item_data (inode_key i) \<noteq> [])"

definition key_ok :: "byte list \<Rightarrow> bool" where
  "key_ok k \<longleftrightarrow> k \<noteq> [] \<and> length k < 2 ^ 32"

text \<open>What a reader finds under a key: the flag, the value and the page id of its inode.\<close>

definition node_lookup :: "node \<Rightarrow> byte list \<Rightarrow> (u32 \<times> item \<times> pgid) option" where
  "node_lookup n k =
     (let (i, found) = Node_search n (Item_string k) in
      if found then Some (inode_flag (inodeList n ! i), inode_value (inodeList n ! i),
                          inode_pageId (inodeList n ! i))
      else None)"

lemma Item_string_simps [simp]:
  "item_data (Item_string k) = k" "item_length (Item_string k) = of_nat (length k)"
  by (simp_all add: Item_string_def)

lemma key_ok_length: "key_ok k \<Longrightarrow> (of_nat (length k) :: u32) \<noteq> 0"
proof
  assume "key_ok k" "(of_nat (length k) :: u32) = 0"
  then have "unat (of_nat (length k) :: u32) = 0" "length k < 2 ^ 32" "k \<noteq> []"
    by (simp_all add: key_ok_def)
  then show False by (simp add: unat_of_nat)
qed

text \<open>Splitting a strictly ascending list at a position.\<close>

lemma nth_lower_bound_split:
  assumes "lower_bound ks k < length ks" and "ks ! lower_bound ks k = k"
  shows "ks = take (lower_bound ks k) ks @ k # drop (Suc (lower_bound ks k)) ks"
  using id_take_nth_drop [OF assms(1)] assms(2) by simp

definition inode_entry :: "inode \<Rightarrow> byte list \<times> u32 \<times> item \<times> pgid" where
  "inode_entry i = (item_data (inode_key i), inode_flag i, inode_value i, inode_pageId i)"

lemma fst_inode_entry: "map (fst \<circ> inode_entry) xs = map (\<lambda>i. item_data (inode_key i)) xs"
  by (simp add: inode_entry_def comp_def)

lemma map_of_nth_key:
  assumes "distinct (map fst al)" and "i < length al" and "fst (al ! i) = k"
  shows "map_of al k = Some (snd (al ! i))"
proof -
  have "al ! i \<in> set al" using assms(2) by simp
  then have "(k, snd (al ! i)) \<in> set al" using assms(3) by (metis prod.collapse)
  then show ?thesis using assms(1) by (rule map_of_is_SomeI [rotated])
qed

lemma node_lookup_map_of:
  assumes "ascending (node_keys n)"
  shows "node_lookup n = map_of (map inode_entry (inodeList n))"
proof
  fix k
  let ?xs = "inodeList n" and ?ks = "node_keys n"
  let ?i = "lower_bound ?ks k"
  have search: "Node_search n (Item_string k) = (?i, k \<in> set ?ks)"
    using binarySearch_spec [of ?xs "Item_string k"] assms by (simp add: Node_search_def node_keys_def)
  have dist: "distinct (map fst (map inode_entry ?xs))"
    using assms by (simp add: fst_inode_entry node_keys_def ascending_iff)
  show "node_lookup n k = map_of (map inode_entry ?xs) k"
  proof (cases "k \<in> set ?ks")
    case True
    then have i: "?i < length ?xs" "item_data (inode_key (?xs ! ?i)) = k"
      using lower_bound_mem [OF assms, of k] by (auto simp: node_keys_def)
    then have "map_of (map inode_entry ?xs) k = Some (snd (inode_entry (?xs ! ?i)))"
      using map_of_nth_key [OF dist, of ?i k] by (simp add: inode_entry_def)
    then show ?thesis using True by (simp add: node_lookup_def search inode_entry_def)
  next
    case False
    then have "map_of (map inode_entry ?xs) k = None"
      by (auto simp: map_of_eq_None_iff inode_entry_def node_keys_def image_iff)
    then show ?thesis using False by (simp add: node_lookup_def search)
  qed
qed

section \<open>Insertion and deletion\<close>

lemma lower_bound_split:
  fixes k :: "'k :: linorder"
  assumes "ascending ks"
  defines "i \<equiv> lower_bound ks k"
  defines "j \<equiv> (if k \<in> set ks then Suc i else i)"
  shows "\<forall>x \<in> set (take i ks). x < k" and "\<forall>x \<in> set (drop j ks). k < x"
    and "ks = take i ks @ (if k \<in> set ks then [k] else []) @ drop j ks"
    and "ascending (take i ks @ drop j ks)" and "ascending (take i ks @ k # drop j ks)"
proof -
  show lo: "\<forall>x \<in> set (take i ks). x < k"
    by (auto simp: in_set_conv_nth i_def lower_bound_less)
  show split: "ks = take i ks @ (if k \<in> set ks then [k] else []) @ drop j ks"
    using lower_bound_mem [OF assms(1), of k] nth_lower_bound_split [of ks k]
    by (auto simp: i_def j_def)
  have "k < x" if x: "x \<in> set (drop j ks)" for x
  proof -
    obtain m where m: "j \<le> m" "m < length ks" "x = ks ! m"
    proof -
      from x obtain m' where "m' < length (drop j ks)" "drop j ks ! m' = x" by (auto simp: in_set_conv_nth)
      then show ?thesis by (intro that [of "j + m'"]) auto
    qed
    have le: "k \<le> x" using lower_bound_ge [OF assms(1), of k m] m by (auto simp: j_def i_def split: if_splits)
    have "x \<noteq> k"
    proof
      assume "x = k"
      then have in_ks: "k \<in> set ks" using m by auto
      then have "i < m" "ks ! i = k" using m lower_bound_mem [OF assms(1), of k] by (auto simp: i_def j_def)
      then show False using sorted_wrt_nth_less [OF assms(1), of i m] m \<open>x = k\<close> by simp
    qed
    then show ?thesis using le by simp
  qed
  then show hi: "\<forall>x \<in> set (drop j ks). k < x" by blast
  have t: "ascending (take i ks)" and d: "ascending (drop j ks)"
    using assms(1) by (simp_all add: sorted_wrt_take sorted_wrt_drop)
  show "ascending (take i ks @ drop j ks)" "ascending (take i ks @ k # drop j ks)"
    using t d lo hi by (auto simp: sorted_wrt_append dest: less_trans)
qed

text \<open>Replacing, inserting or removing the one entry of a key in an association list.\<close>

lemma map_of_replace:
  assumes "k \<notin> fst ` set as" and "k \<notin> fst ` set cs" and "\<forall>e \<in> set bs. fst e = k"
  shows "map_of (as @ (k, v) # cs) = (map_of (as @ bs @ cs))(k \<mapsto> v)"
    and "map_of (as @ cs) = (map_of (as @ bs @ cs))(k := None)"
proof -
  have as: "map_of as k = None" and cs: "map_of cs k = None"
    using assms(1,2) by (simp_all add: map_of_eq_None_iff)
  have bs: "map_of bs k' = None" if "k' \<noteq> k" for k'
    using assms(3) that by (auto simp: map_of_eq_None_iff)
  show "map_of (as @ (k, v) # cs) = (map_of (as @ bs @ cs))(k \<mapsto> v)"
    "map_of (as @ cs) = (map_of (as @ bs @ cs))(k := None)"
    using as cs bs by (auto simp: fun_eq_iff map_add_def split: option.splits)
qed

lemma inodes_split:
  fixes k :: "byte list"
  assumes "ascending (map (\<lambda>i. item_data (inode_key i)) xs)"
  defines "ks \<equiv> map (\<lambda>i. item_data (inode_key i)) xs"
  defines "i \<equiv> lower_bound ks k"
  defines "j \<equiv> (if k \<in> set ks then Suc i else i)"
  shows "map_of (map inode_entry (take i xs) @ (k, v) # map inode_entry (drop j xs)) =
      (map_of (map inode_entry xs))(k \<mapsto> v)"
    and "map_of (map inode_entry (take i xs) @ map inode_entry (drop j xs)) =
      (map_of (map inode_entry xs))(k := None)"
proof -
  note sp = lower_bound_split [OF assms(1), of k, folded ks_def, folded i_def, folded j_def]
  let ?m = "drop i (take j xs)"
  have le: "i \<le> length xs" using lower_bound_le [of ks k] by (simp add: i_def ks_def)
  have "i \<le> j" by (simp add: j_def)
  then have xs: "xs = take i xs @ ?m @ drop j xs"
    by (metis append.assoc append_take_drop_id min.absorb1 take_take)
  have m: "\<forall>e \<in> set (map inode_entry ?m). fst e = k"
  proof (cases "k \<in> set ks")
    case True
    then have "i < length xs" "item_data (inode_key (xs ! i)) = k"
      using lower_bound_mem [OF assms(1), of k] by (auto simp: i_def ks_def)
    moreover have "?m = [xs ! i]"
      using True \<open>i < length xs\<close> by (simp add: j_def take_Suc_conv_app_nth)
    ultimately show ?thesis by (simp add: inode_entry_def)
  next
    case False
    then show ?thesis by (simp add: j_def)
  qed
  have lo: "k \<notin> fst ` set (map inode_entry (take i xs))"
    and hi: "k \<notin> fst ` set (map inode_entry (drop j xs))"
    using sp(1,2) by (auto simp: ks_def inode_entry_def take_map drop_map)
  have "map inode_entry xs = map inode_entry (take i xs) @ map inode_entry ?m @ map inode_entry (drop j xs)"
    by (subst xs) (simp only: map_append)
  then show "map_of (map inode_entry (take i xs) @ (k, v) # map inode_entry (drop j xs)) =
      (map_of (map inode_entry xs))(k \<mapsto> v)"
    and "map_of (map inode_entry (take i xs) @ map inode_entry (drop j xs)) =
      (map_of (map inode_entry xs))(k := None)"
    using map_of_replace(1) [OF lo hi m, of v] map_of_replace(2) [OF lo hi m] by simp_all
qed

text \<open>The inode that \<open>put\<close> writes.\<close>

definition put_inode :: "item \<Rightarrow> item \<Rightarrow> pgid \<Rightarrow> u32 \<Rightarrow> inode" where
  "put_inode newKey val pid flag =
     \<lparr>inode_flag = flag, inode_pageId = pid, inode_key = newKey, inode_value = val\<rparr>"

lemma inode_entry_put: "inode_entry (put_inode (Item_string k) val pid flag) = (k, flag, val, pid)"
  by (simp add: put_inode_def inode_entry_def)

lemma Node_put_spec:
  assumes "ascending (node_keys n)" and "pid < ucast totalPages"
    and "item_length oldKey \<noteq> 0" and "item_length newKey \<noteq> 0"
  defines "i \<equiv> lower_bound (node_keys n) (item_data oldKey)"
  defines "j \<equiv> (if item_data oldKey \<in> set (node_keys n) then Suc i else i)"
  shows "Node_put totalPages oldKey newKey val pid flag n =
    (True, n\<lparr>inodeList := take i (inodeList n) @ put_inode newKey val pid flag # drop j (inodeList n)\<rparr>)"
proof -
  let ?xs = "inodeList n"
  have s: "binarySearch ?xs oldKey = (i, item_data oldKey \<in> set (node_keys n))"
    using binarySearch_spec [of ?xs oldKey] assms(1) by (simp add: i_def node_keys_def)
  have le: "i \<le> length ?xs" using lower_bound_le [of "node_keys n"] by (simp add: i_def node_keys_def)
  have lt: "i < length ?xs" if "item_data oldKey \<in> set (node_keys n)"
    using that lower_bound_mem [OF assms(1)] by (simp add: i_def node_keys_def)
  show ?thesis
    using assms(2-4) s le lt
    by (auto simp: Node_put_def put_inode_def j_def Let_def upd_conv_take_nth_drop nth_append list_update_append)
qed

lemma Node_del_spec:
  fixes key :: item
  assumes "ascending (node_keys n)"
  defines "i \<equiv> lower_bound (node_keys n) (item_data key)"
  shows "Node_del key n =
    (True, if item_data key \<in> set (node_keys n)
           then n\<lparr>inodeList := take i (inodeList n) @ drop (Suc i) (inodeList n), unbalanced := True\<rparr>
           else n)"
  using binarySearch_spec [of "inodeList n" key] assms
  by (auto simp: Node_del_def erase_at_def node_keys_def i_def)

text \<open>\<open>do_remove\<close> is \<open>del\<close> without its constant result.\<close>

lemma Node_do_remove_eq: "Node_do_remove key n = snd (Node_del key n)"
  by (simp add: Node_do_remove_def Node_del_def split: prod.splits)

section \<open>The node operations implement the map\<close>

definition node_put :: "u32 \<Rightarrow> byte list \<Rightarrow> u32 \<times> item \<times> pgid \<Rightarrow> node \<Rightarrow> node" where
  "node_put totalPages k e n =
     (case e of (flag, val, pid) \<Rightarrow>
        snd (Node_put totalPages (Item_string k) (Item_string k) val pid flag n))"

definition node_del :: "byte list \<Rightarrow> node \<Rightarrow> node" where
  "node_del k n = snd (Node_del (Item_string k) n)"

text \<open>Operations \<open>put\<close> accepts: a key that is not empty and a page the database has.\<close>

fun node_op_ok :: "u32 \<Rightarrow> (u32 \<times> item \<times> pgid) map_op \<Rightarrow> bool" where
  "node_op_ok totalPages (Put k e) \<longleftrightarrow> key_ok k \<and> snd (snd e) < ucast totalPages"
| "node_op_ok totalPages (Del k) \<longleftrightarrow> True"

lemma node_inv_asc: "node_inv n \<Longrightarrow> ascending (node_keys n)"
  by (simp add: node_inv_def)

lemma node_put_eq:
  assumes "node_inv n" and "node_op_ok t (Put k (flag, val, pid))"
  shows "Node_put t (Item_string k) (Item_string k) val pid flag n =
     (True, node_put t k (flag, val, pid) n)"
  using Node_put_spec [of n pid t "Item_string k" "Item_string k" val flag] assms
  by (simp add: node_put_def node_inv_asc key_ok_length)

lemma node_put_inodes:
  assumes "node_inv n" and "node_op_ok t (Put k (flag, val, pid))"
  shows "inodeList (node_put t k (flag, val, pid) n) =
      take (lower_bound (node_keys n) k) (inodeList n) @ put_inode (Item_string k) val pid flag #
      drop (if k \<in> set (node_keys n) then Suc (lower_bound (node_keys n) k)
            else lower_bound (node_keys n) k) (inodeList n)"
  using Node_put_spec [of n pid t "Item_string k" "Item_string k" val flag] assms
  by (simp add: node_put_def node_inv_asc key_ok_length)

lemma node_del_inodes:
  assumes "node_inv n"
  shows "inodeList (node_del k n) =
      take (lower_bound (node_keys n) k) (inodeList n) @
      drop (if k \<in> set (node_keys n) then Suc (lower_bound (node_keys n) k)
            else lower_bound (node_keys n) k) (inodeList n)"
  using Node_del_spec [of n "Item_string k"] assms
  by (simp add: node_del_def node_inv_asc)

lemma node_inv_put:
  assumes "node_inv n" and "node_op_ok t (Put k (flag, val, pid))"
  shows "node_inv (node_put t k (flag, val, pid) n)"
proof -
  have "ascending (node_keys (node_put t k (flag, val, pid) n))"
    using lower_bound_split(5) [OF node_inv_asc [OF assms(1)], of k] node_put_inodes [OF assms]
    by (simp add: node_keys_def take_map drop_map put_inode_def)
  then show ?thesis
    using assms node_put_inodes [OF assms]
    by (auto simp: node_inv_def put_inode_def key_ok_def dest: in_set_takeD in_set_dropD)
qed

lemma node_inv_del:
  assumes "node_inv n"
  shows "node_inv (node_del k n)"
proof -
  have "ascending (node_keys (node_del k n))"
    using lower_bound_split(4) [OF node_inv_asc [OF assms], of k] node_del_inodes [OF assms, of k]
    by (simp add: node_keys_def take_map drop_map)
  then show ?thesis
    using assms node_del_inodes [OF assms, of k]
    by (auto simp: node_inv_def dest: in_set_takeD in_set_dropD)
qed

lemma node_lookup_del: "node_inv n \<Longrightarrow> node_lookup (node_del k n) = (node_lookup n)(k := None)"
proof -
  assume n: "node_inv n"
  note asc = node_inv_asc [OF n]
  show ?thesis
    unfolding node_lookup_map_of [OF asc] node_lookup_map_of [OF node_inv_asc [OF node_inv_del [OF n]]] node_del_inodes [OF n]
    using inodes_split(2) [OF asc [unfolded node_keys_def], of k]
    by (simp only: map_append list.map node_keys_def)
qed

text \<open>\<open>put\<close> in general: the entry of the old key gives way to that of the new key.\<close>

lemma map_of_insert:
  assumes "k \<notin> fst ` set as"
  shows "map_of (as @ (k, v) # cs) = (map_of (as @ cs))(k \<mapsto> v)"
proof -
  have "map_of as k = None" using assms by (simp add: map_of_eq_None_iff)
  then show ?thesis by (auto simp: fun_eq_iff map_add_def split: option.splits)
qed

lemma Node_put_in_order:
  assumes "node_inv n" and "pid < ucast t" and "key_ok old" and "key_ok new" and "keeps_order (set (node_keys n)) old new"
  shows "\<exists>n'. Node_put t (Item_string old) (Item_string new) val pid flag n = (True, n') \<and> node_inv n' \<and>
    node_lookup n' = (node_lookup n)(old := None, new \<mapsto> (flag, val, pid))"
proof -
  let ?ks = "node_keys n" and ?xs = "inodeList n"
  let ?i = "lower_bound ?ks old" and ?e = "put_inode (Item_string new) val pid flag"
  let ?j = "if old \<in> set ?ks then Suc ?i else ?i"
  let ?n = "n\<lparr>inodeList := take ?i ?xs @ ?e # drop ?j ?xs\<rparr>"
  note asc = node_inv_asc [OF assms(1)]
  have put: "Node_put t (Item_string old) (Item_string new) val pid flag n = (True, ?n)"
    using Node_put_spec [OF asc assms(2), of "Item_string old" "Item_string new" val flag] assms(3,4) by (simp add: key_ok_length)
  have keys: "node_keys ?n = take ?i ?ks @ new # drop ?j ?ks" by (simp add: node_keys_def take_map drop_map put_inode_def)
  have order: "x \<in> set ?ks \<Longrightarrow> x < old \<Longrightarrow> x < new" "x \<in> set ?ks \<Longrightarrow> old < x \<Longrightarrow> new < x" for x
    using assms(5) by (auto simp: keeps_order_def)
  have sides: "\<forall>x \<in> set (take ?i ?ks). x < new" "\<forall>x \<in> set (drop ?j ?ks). new < x"
    using lower_bound_split(1,2) [OF asc, of old] order by (meson in_set_takeD in_set_dropD)+
  have asc': "ascending (node_keys ?n)" using lower_bound_split(4) [OF asc, of old] sides unfolding keys by (simp add: sorted_wrt_append)
  then have inv: "node_inv ?n"
    using assms(1,4) by (auto simp: node_inv_def put_inode_def key_ok_def dest: in_set_takeD in_set_dropD)
  have new: "new \<notin> fst ` set (map inode_entry (take ?i ?xs))"
    using sides(1) by (force simp: node_keys_def take_map inode_entry_def)
  have "node_lookup ?n = map_of (map inode_entry (take ?i ?xs) @ (new, flag, val, pid) # map inode_entry (drop ?j ?xs))"
    unfolding node_lookup_map_of [OF asc'] by (simp add: inode_entry_put)
  also have "\<dots> = (map_of (map inode_entry (take ?i ?xs) @ map inode_entry (drop ?j ?xs)))(new \<mapsto> (flag, val, pid))"
    by (rule map_of_insert [OF new])
  also have "map_of (map inode_entry (take ?i ?xs) @ map inode_entry (drop ?j ?xs)) = (node_lookup n)(old := None)"
    unfolding node_lookup_map_of [OF asc] node_keys_def by (rule inodes_split(2) [OF asc [unfolded node_keys_def]])
  finally have "node_lookup ?n = (node_lookup n)(old := None, new \<mapsto> (flag, val, pid))" .
  then show ?thesis using put inv by blast
qed

lemma node_lookup_put:
  assumes "node_inv n" and "node_op_ok t (Put k (flag, val, pid))"
  shows "node_lookup (node_put t k (flag, val, pid) n) = (node_lookup n)(k \<mapsto> (flag, val, pid))"
proof -
  have "keeps_order (set (node_keys n)) k k" by (simp add: keeps_order_def)
  from Node_put_in_order [OF assms(1) _ _ _ this, of pid t val flag] show ?thesis
    using assms by (auto simp: node_put_def)
qed

text \<open>\<open>put\<close> accepts page ids below the page count and keys that are not empty; \<open>del\<close> accepts everything.\<close>

fun node_accepts :: "u32 \<Rightarrow> (u32 \<times> item \<times> pgid) key_call \<Rightarrow> bool" where
  "node_accepts t (Put_call old new (flag, val, pid)) \<longleftrightarrow> pid < ucast t \<and> old \<noteq> [] \<and> new \<noteq> []"
| "node_accepts t (Del_call k) \<longleftrightarrow> True"

fun node_call :: "u32 \<Rightarrow> (u32 \<times> item \<times> pgid) key_call \<Rightarrow> node \<Rightarrow> bool \<times> node" where
  "node_call t (Put_call old new (flag, val, pid)) n = Node_put t (Item_string old) (Item_string new) val pid flag n"
| "node_call t (Del_call k) n = Node_del (Item_string k) n"

lemma node_dom: "node_inv n \<Longrightarrow> dom (node_lookup n) = set (node_keys n)"
  using node_lookup_map_of [of n] node_inv_asc [of n]
  by (auto simp: dom_map_of_conv_image_fst node_keys_def inode_entry_def image_iff)

interpretation node_map: ordered_map node_inv "node_accepts t" node_keys node_lookup "node_call t" for t
proof (unfold_locales, goal_cases)
  case (1 s c)
  show ?case
  proof (cases c)
    case (Put_call old new v)
    obtain flag val pid where v: "v = (flag, val, pid)" by (cases v)
    show ?thesis
    proof (cases "node_accepts t c")
      case True
      then have "key_ok old" "key_ok new" "pid < ucast t" "keeps_order (set (node_keys s)) old new"
        using 1 node_dom [OF 1(1)] unfolding Put_call v by (auto simp: key_ok_def)
      from Node_put_in_order [OF 1(1) this(3,1,2,4), of val flag] show ?thesis using True unfolding Put_call v by auto
    next
      case False
      moreover from this have "Node_put t (Item_string old) (Item_string new) val pid flag s = (False, s)"
        unfolding Put_call v by (auto simp: Node_put_def)
      ultimately show ?thesis using 1(1) unfolding Put_call v by auto
    qed
  next
    case (Del_call k)
    have "Node_del (Item_string k) s = (True, node_del k s)"
      using Node_del_spec [OF node_inv_asc [OF 1(1)], of "Item_string k"] by (simp add: node_del_def)
    then show ?thesis using node_inv_del [OF 1(1)] node_lookup_del [OF 1(1)] Del_call by simp
  qed
next
  case (2 s)
  then show ?case using node_dom [OF 2] node_inv_asc [OF 2] by simp
qed

section \<open>Properties\<close>

text \<open>
  C19: \<open>Node::search\<close> on a node with ascending keys returns, after finitely many steps, the number
  of keys below the wanted one, which is the index of the key or of its successor (the number of
  inodes when there is none), and reports the key as found exactly when an inode has it.
\<close>

theorem node_search_correct:
  assumes "ascending (node_keys n)"
  shows "\<exists>i. Node_search n key = (i, item_data key \<in> set (node_keys n)) \<and> i \<le> numChildren n \<and>
    (\<forall>j. j < i \<longrightarrow> node_keys n ! j < item_data key) \<and>
    (\<forall>j. i \<le> j \<and> j < numChildren n \<longrightarrow> item_data key \<le> node_keys n ! j) \<and>
    (item_data key \<in> set (node_keys n) \<longrightarrow> i < numChildren n \<and> node_keys n ! i = item_data key)"
  using binarySearch_spec [of "inodeList n" key] assms lower_bound_less [of _ "node_keys n" "item_data key"]
    lower_bound_ge [OF assms, of "item_data key"] lower_bound_le [of "node_keys n" "item_data key"]
    lower_bound_mem [OF assms, of "item_data key"]
  by (simp add: Node_search_def numChildren_def node_keys_def)

definition node_example :: node where
  "node_example = (Node_new (BucketPtr 0) None)\<lparr>isLeaf := True,
     inodeList := [put_inode (Item_string [1]) (Item_string [10, 11]) 0 0,
                   put_inode (Item_string [1, 5]) (Item_string [20]) 0 0,
                   put_inode (Item_string [7]) (Item_string []) 0 1]\<rparr>"

lemma node_keys_example: "node_keys node_example = [[1], [1, 5], [7]]"
  by (simp add: node_example_def node_keys_def put_inode_def)

lemma node_example_inv: "node_inv node_example"
  by (simp add: node_inv_def node_keys_example) (simp add: node_example_def put_inode_def)

theorem node_search_correct_witness:
  "ascending (node_keys node_example) \<and> Node_search node_example (Item_string [3]) = (2, False)"
proof -
  have asc: "ascending (node_keys node_example)" by (simp add: node_keys_example)
  obtain i where i: "Node_search node_example (Item_string [3]) = (i, [3] \<in> set (node_keys node_example))"
    "i \<le> numChildren node_example"
    "\<forall>j. j < i \<longrightarrow> node_keys node_example ! j < [3]"
    "\<forall>j. i \<le> j \<and> j < numChildren node_example \<longrightarrow> [3] \<le> node_keys node_example ! j"
    using node_search_correct [OF asc, of "Item_string [3]"] by auto
  have n: "numChildren node_example = 3" by (simp add: numChildren_def node_example_def)
  have "\<not> 3 \<le> i" using i(3) [rule_format, of 2] by (auto simp: node_keys_example)
  moreover have "\<not> i \<le> 1" using i(4) [rule_format, of 1] n by (auto simp: node_keys_example)
  ultimately have "i = 2" by simp
  then show ?thesis using asc i(1) by (simp add: node_keys_example)
qed

text \<open>
  C7: A node is a map from keys to (flag, value, page id). Take any sequence of \<open>put\<close> and \<open>del\<close> calls with keys below
  4 GiB in which every \<open>put\<close> that passes the checks of the code has a new key equal to the old one or, as
  \<open>spill\<close> uses it, between the neighbours of the old one. A \<open>put\<close> returns false and leaves the node alone exactly for a page
  id outside the database or an empty key; all other calls return true. What \<open>search\<close> finds afterwards is
  what the accepted calls make of the abstract map (a \<open>put\<close> removes the old key and sets the new one), and the
  keys are stored in ascending order.
\<close>

theorem node_ops_refine_map:
  assumes "node_inv n" and "calls_allowed (node_accepts t) cs (node_lookup n)"
  shows "\<exists>n'. run_key_calls (node_call t) cs n = (map (node_accepts t) cs, n') \<and> node_inv n' \<and>
    node_lookup n' = fold (call_effect (node_accepts t)) cs (node_lookup n) \<and>
    node_keys n' = sorted_list_of_set (dom (node_lookup n'))"
  using node_map.calls_ok [OF assms] node_map.keys_sorted by blast

lemma node_lookup_example:
  "node_lookup node_example = [[1] \<mapsto> (0, Item_string [10, 11], 0), [1, 5] \<mapsto> (0, Item_string [20], 0), [7] \<mapsto> (1, Item_string [], 0)]"
  by (simp add: node_lookup_map_of node_keys_example) (simp add: node_example_def inode_entry_put fun_eq_iff)

theorem node_ops_refine_map_witness:
  "\<exists>n'. run_key_calls (node_call 9) [Put_call [3] [3] (0, Item_string [4], 0), Put_call [1, 5] [2] (0, Item_string [20], 3), Del_call [7],
      Put_call [1] [1] (0, Item_string [4], 12)] node_example = ([True, True, True, False], n') \<and>
     node_keys n' = [[1], [2], [3]] \<and> node_lookup n' [2] = Some (0, Item_string [20], 3)"
proof -
  let ?cs = "[Put_call [3] [3] (0, Item_string [4], 0), Put_call [1, 5] [2] (0, Item_string [20], 3), Del_call [7],
      Put_call [1] [1] (0, Item_string [4], 12)] :: (u32 \<times> item \<times> pgid) key_call list"
  have "calls_allowed (node_accepts 9) ?cs (node_lookup node_example)"
    by (auto simp: node_lookup_example keeps_order_def dom_def)
  from node_ops_refine_map [OF node_example_inv this] obtain n' where
    n': "run_key_calls (node_call 9) ?cs node_example = ([True, True, True, False], n')"
      "node_lookup n' = [[1] \<mapsto> (0, Item_string [10, 11], 0), [3] \<mapsto> (0, Item_string [4], 0), [2] \<mapsto> (0, Item_string [20], 3)]"
      "node_keys n' = sorted_list_of_set (dom (node_lookup n'))"
    by (auto simp: node_lookup_example fun_upd_twist)
  have "sorted_list_of_set {[1], [2], [3 :: byte]} = [[1], [2], [3]]" by simp
  then show ?thesis using n' by (auto simp: insert_commute)
qed

end
