(* ===== verification/Node_Store.thy ===== *)
theory Node_Store
  imports Node_Map
begin

text \<open>
  Sizes, split positions and the serialised form of a node: \<open>size()\<close> is the exact number of
  bytes \<open>Node::write\<close> needs, \<open>sizeLessThan\<close> and \<open>splitIndex\<close> compute with it, a leaf written
  to a page is read back unchanged, and a branch is not (the element positions of a branch are
  computed from the address of a local variable).
\<close>

section \<open>Sizes\<close>

definition inode_bytes :: "node \<Rightarrow> inode \<Rightarrow> nat" where
  "inode_bytes n i = pageElementSize n + unat (item_length (inode_key i)) + unat (item_length (inode_value i))"

definition node_bytes :: "node \<Rightarrow> nat" where
  "node_bytes n = PAGEHEADERSIZE + sum_list (map (inode_bytes n) (inodeList n))"

lemma pageElementSize_16 [simp]: "pageElementSize n = 16"
  by (simp add: pageElementSize_def leafElementSize_def branchElementSize_def)

lemma unat_add_small: "unat (a :: u32) + unat b < 2 ^ 32 \<Longrightarrow> unat (a + b) = unat a + unat b"
  by (simp add: unat_word_ariths)

lemma unat_elementSize: "inode_bytes n i < 2 ^ 32 \<Longrightarrow> unat (elementSize n i) = inode_bytes n i"
  by (simp add: elementSize_def inode_bytes_def unat_add_small)

lemma unat_size_step:
  assumes "unat (sz :: u32) + inode_bytes n i < 2 ^ 32"
  shows "unat (sz + elementSize n i) = unat sz + inode_bytes n i"
  using assms unat_elementSize [of n i] by (simp add: unat_add_small)

lemma size_fold:
  "unat (sz :: u32) + sum_list (map (inode_bytes n) xs) < 2 ^ 32 \<Longrightarrow>
     unat (fold (\<lambda>i size. size + elementSize n i) xs sz) = unat sz + sum_list (map (inode_bytes n) xs)"
proof (induction xs arbitrary: sz)
  case (Cons x xs)
  then have "unat (sz + elementSize n x) = unat sz + inode_bytes n x" by (intro unat_size_step) simp
  with Cons.IH [of "sz + elementSize n x"] Cons.prems show ?case by simp
qed simp

lemma unat_header [simp]: "unat (of_nat PAGEHEADERSIZE :: u32) = PAGEHEADERSIZE"
  by (simp add: PAGEHEADERSIZE_def)

lemma unat_Node_size: "node_bytes n < 2 ^ 32 \<Longrightarrow> unat (Node_size n) = node_bytes n"
  unfolding Node_size_def node_bytes_def by (subst size_fold) simp_all

lemma sizeLessThan_loop_eq:
  "unat (sz :: u32) + sum_list (map (inode_bytes n) xs) < 2 ^ 32 \<Longrightarrow>
     sizeLessThan_loop n s xs sz \<longleftrightarrow> xs = [] \<or> unat sz + sum_list (map (inode_bytes n) xs) < unat s"
proof (induction xs arbitrary: sz)
  case (Cons x xs)
  then have "unat (sz + elementSize n x) = unat sz + inode_bytes n x" by (intro unat_size_step) simp
  with Cons.IH [of "sz + elementSize n x"] Cons.prems show ?case
    by (auto simp: Let_def word_le_nat_alt)
qed simp

lemma isinlineable_loop_eq:
  assumes "unat (s :: u32) + sum_list (map (inode_bytes n) xs) < 2 ^ 32"
  shows "isinlineable_loop maxsz xs s \<longleftrightarrow>
    (\<forall>i \<in> set xs. inode_flag i AND bucketLeafFlag = 0) \<and>
    (xs = [] \<or> unat s + sum_list (map (inode_bytes n) xs) \<le> unat maxsz)"
  using assms
proof (induction xs arbitrary: s)
  case (Cons x xs)
  have e: "of_nat leafElementSize + item_length (inode_key x) + item_length (inode_value x) = elementSize n x"
    by (simp add: elementSize_def leafElementSize_def)
  from Cons have "unat (s + elementSize n x) = unat s + inode_bytes n x" by (intro unat_size_step) simp
  with Cons.IH [of "s + elementSize n x"] Cons.prems show ?case
    by (auto simp: Let_def word_less_nat_alt e)
qed simp

section \<open>Split position\<close>

text \<open>Bytes of the first \<open>i\<close> inodes on a page of their own.\<close>

definition prefix_bytes :: "node \<Rightarrow> nat \<Rightarrow> nat" where
  "prefix_bytes n i = PAGEHEADERSIZE + sum_list (map (inode_bytes n) (take i (inodeList n)))"

lemma prefix_bytes_Suc:
  "i < length (inodeList n) \<Longrightarrow> prefix_bytes n (Suc i) = prefix_bytes n i + inode_bytes n (inodeList n ! i)"
  by (simp add: prefix_bytes_def take_Suc_conv_app_nth)

lemma prefix_bytes_le: "prefix_bytes n i \<le> node_bytes n"
proof -
  have "sum_list (map (inode_bytes n) (inodeList n)) =
      sum_list (map (inode_bytes n) (take i (inodeList n))) + sum_list (map (inode_bytes n) (drop i (inodeList n)))"
    by (metis append_take_drop_id map_append sum_list_append)
  then show ?thesis by (simp add: prefix_bytes_def node_bytes_def)
qed

text \<open>
  What the loop returns from index \<open>i\<close> on when \<open>m\<close> inodes are in its range: the first index from
  2 on whose inode no longer fits, or the last index of the range.
\<close>

lemma splitIndex_loop_spec:
  assumes "node_bytes n < 2 ^ 32" and "i \<le> m" and "m \<le> length (inodeList n)" and "0 < m"
    and "unat sz = prefix_bytes n i" and "i = m \<Longrightarrow> index = m - 1"
    and "\<forall>j. 2 \<le> j \<and> j < i \<longrightarrow> prefix_bytes n (Suc j) \<le> unat threshold"
  shows "\<exists>r. splitIndex_loop n threshold (drop i (take m (inodeList n))) i index sz = r \<and> r < m \<and>
    (\<forall>j. 2 \<le> j \<and> j < r \<longrightarrow> prefix_bytes n (Suc j) \<le> unat threshold) \<and>
    (r = m - 1 \<or> 2 \<le> r \<and> unat threshold < prefix_bytes n (Suc r))"
  using assms
proof (induction "m - i" arbitrary: i index sz)
  case 0
  then show ?case by auto
next
  case (Suc d)
  then have i: "i < m" "i < length (inodeList n)" by simp_all
  let ?x = "inodeList n ! i"
  have "prefix_bytes n (Suc i) < 2 ^ 32" using prefix_bytes_le [of n "Suc i"] Suc.prems(1) by simp
  then have sz: "unat (sz + elementSize n ?x) = prefix_bytes n (Suc i)"
    using i Suc.prems(5) by (subst unat_size_step) (simp_all add: prefix_bytes_Suc)
  have "drop i (take m (inodeList n)) = ?x # drop (Suc i) (take m (inodeList n))"
    using i by (subst Cons_nth_drop_Suc [symmetric]) simp_all
  then have unf: "splitIndex_loop n threshold (drop i (take m (inodeList n))) i index sz =
      (if 2 \<le> i \<and> threshold < sz + elementSize n ?x then i
       else splitIndex_loop n threshold (drop (Suc i) (take m (inodeList n))) (Suc i) i (sz + elementSize n ?x))"
    by (simp add: Let_def MINKEYSPERPAGE_def)
  show ?case
  proof (cases "2 \<le> i \<and> threshold < sz + elementSize n ?x")
    case True
    then show ?thesis using unf i Suc.prems(7) sz by (auto simp: word_less_nat_alt)
  next
    case False
    then have "\<forall>j. 2 \<le> j \<and> j < Suc i \<longrightarrow> prefix_bytes n (Suc j) \<le> unat threshold"
      using Suc.prems(7) sz by (auto simp: word_less_nat_alt less_Suc_eq)
    then show ?thesis
      using Suc.hyps(1) [of "Suc i" "sz + elementSize n ?x" i] Suc.hyps(2) Suc.prems i sz False unf by auto
  qed
qed

lemma splitIndex_spec:
  assumes "node_bytes n < 2 ^ 32" and "4 < length (inodeList n)"
  shows "\<exists>r. splitIndex n threshold = Inr r \<and> 2 \<le> r \<and> r + 3 \<le> length (inodeList n) \<and>
    (r = 2 \<or> prefix_bytes n r \<le> unat threshold) \<and>
    (r + 3 = length (inodeList n) \<or> unat threshold < prefix_bytes n (Suc r))"
proof -
  let ?m = "length (inodeList n) - 2"
  obtain r where r: "splitIndex_loop n threshold (take ?m (inodeList n)) 0 0 (of_nat PAGEHEADERSIZE) = r"
      "r < ?m" "\<forall>j. 2 \<le> j \<and> j < r \<longrightarrow> prefix_bytes n (Suc j) \<le> unat threshold"
      "r = ?m - 1 \<or> 2 \<le> r \<and> unat threshold < prefix_bytes n (Suc r)"
    using splitIndex_loop_spec [of n 0 ?m "of_nat PAGEHEADERSIZE" 0 threshold] assms
    by (auto simp: prefix_bytes_def)
  have "2 \<le> r" using r(4) assms(2) by auto
  moreover have "prefix_bytes n r \<le> unat threshold" if "r \<noteq> 2"
    using r(3) [rule_format, of "r - 1"] that \<open>2 \<le> r\<close> by (simp add: Suc_diff_le numeral_2_eq_2)
  ultimately show ?thesis
    using r assms(2) by (auto simp: splitIndex_def MINKEYSPERPAGE_def Let_def)
qed

section \<open>Writing one inode\<close>

definition inode_wf :: "inode \<Rightarrow> bool" where
  "inode_wf i \<longleftrightarrow> item_wf (inode_key i) \<and> item_wf (inode_value i)"

definition content_bytes :: "inode \<Rightarrow> nat" where
  "content_bytes i = length (item_data (inode_key i)) + length (item_data (inode_value i))"

lemma item_bytes_wf: "item_wf i \<Longrightarrow> item_bytes i = Inr (item_data i)"
  by (simp add: item_bytes_def read_bytes_def item_wf_def)

text \<open>Both kinds of elements take sixteen bytes.\<close>

lemma leafElementOffset_eq: "leafElementOffset i = 16 + 16 * i"
  by (simp add: leafElementOffset_def PAGEHEADERSIZE_def leafElementSize_def)

lemma branchElementOffset_eq: "branchElementOffset i = leafElementOffset i"
  by (simp add: leafElementOffset_def branchElementOffset_def leafElementSize_def branchElementSize_def)

text \<open>The element that the loop of \<open>Node::write\<close> stores at index \<open>i\<close>.\<close>

definition leaf_element :: "inode \<Rightarrow> nat \<Rightarrow> nat \<Rightarrow> leafPageElement" where
  "leaf_element x i off =
     \<lparr>leaf_flag = inode_flag x, leaf_pos = of_nat (off - leafElementOffset i),
      leaf_ksize = item_length (inode_key x), leaf_vsize = item_length (inode_value x)\<rparr>"

definition branch_element :: "u64 \<Rightarrow> u64 \<Rightarrow> inode \<Rightarrow> nat \<Rightarrow> branchPageElement" where
  "branch_element pageAddr itemAddr x off =
     \<lparr>branch_pos = ucast (pageAddr + of_nat off - itemAddr),
      branch_ksize = item_length (inode_key x), branch_pageId = inode_pageId x\<rparr>"

lemma write_element:
  assumes "leafElementOffset (Suc i) \<le> length p"
  shows "\<exists>p'. (if leaf then setLeafPageElement p i el else setBranchPageElement p i bel) = Inr p' \<and>
    length p' = length p \<and> (leaf \<longrightarrow> getLeafPageElement p' i = Inr el) \<and>
    (\<not> leaf \<longrightarrow> getBranchPageElement p' i = Inr bel) \<and>
    (\<forall>o' n. o' + n \<le> leafElementOffset i \<or> leafElementOffset (Suc i) \<le> o' \<longrightarrow>
       read_bytes p' o' n = read_bytes p o' n)"
proof -
  have e: "leafElementOffset (Suc i) = leafElementOffset i + 16" by (simp add: leafElementOffset_eq)
  show ?thesis
  proof (cases leaf)
    case True
    obtain p' where "setLeafPageElement p i el = Inr p'"
      using setLeafPageElement_ok [of i p el] assms e by auto
    with setLeafPageElement_frame [OF this] True e show ?thesis by auto
  next
    case False
    obtain p' where "setBranchPageElement p i bel = Inr p'"
      using setBranchPageElement_ok [of i p bel] assms e by (auto simp: branchElementOffset_eq)
    with setBranchPageElement_frame [OF this] False e show ?thesis
      by (auto simp: branchElementOffset_eq)
  qed
qed

text \<open>One iteration of the loop: what it writes and what it leaves alone.\<close>

lemma write_inodes_Cons:
  assumes "inode_wf x" and "leafElementOffset (Suc i) \<le> off" and "off + content_bytes x \<le> length p"
  shows "\<exists>p1. write_inodes pa ia leaf (x # xs) i off p =
      write_inodes pa ia leaf xs (Suc i) (off + content_bytes x) p1 \<and> length p1 = length p \<and>
    (leaf \<longrightarrow> getLeafPageElement p1 i = Inr (leaf_element x i off)) \<and>
    (\<not> leaf \<longrightarrow> getBranchPageElement p1 i = Inr (branch_element pa ia x off)) \<and>
    read_bytes p1 off (length (item_data (inode_key x))) = Inr (item_data (inode_key x)) \<and>
    read_bytes p1 (off + length (item_data (inode_key x))) (length (item_data (inode_value x))) =
      Inr (item_data (inode_value x)) \<and>
    (\<forall>o' n. o' + n \<le> leafElementOffset i \<or> leafElementOffset (Suc i) \<le> o' \<and> o' + n \<le> off \<longrightarrow>
       read_bytes p1 o' n = read_bytes p o' n)"
proof -
  let ?k = "item_data (inode_key x)" and ?v = "item_data (inode_value x)"
  have wf: "item_bytes (inode_key x) = Inr ?k" "item_bytes (inode_value x) = Inr ?v"
    using assms(1) by (simp_all add: inode_wf_def item_bytes_wf)
  obtain a where a: "(if leaf then setLeafPageElement p i (leaf_element x i off)
        else setBranchPageElement p i (branch_element pa ia x off)) = Inr a" "length a = length p"
      "leaf \<longrightarrow> getLeafPageElement a i = Inr (leaf_element x i off)"
      "\<not> leaf \<longrightarrow> getBranchPageElement a i = Inr (branch_element pa ia x off)"
      "\<And>o' n. o' + n \<le> leafElementOffset i \<or> leafElementOffset (Suc i) \<le> o' \<Longrightarrow>
         read_bytes a o' n = read_bytes p o' n"
    using write_element [of i p leaf "leaf_element x i off" "branch_element pa ia x off"] assms(2,3) by auto
  obtain b where b: "write_bytes a off ?k = Inr b" "length b = length p"
    using write_bytes_ok [of off ?k a] assms(3) a(2) by (auto simp: content_bytes_def)
  obtain c where c: "write_bytes b (off + length ?k) ?v = Inr c" "length c = length p"
    using write_bytes_ok [of "off + length ?k" ?v b] assms(3) b(2) by (auto simp: content_bytes_def)
  have low: "read_bytes c o' n = read_bytes a o' n" if "o' + n \<le> off" for o' n
    using read_write_other [OF c(1), of o' n] read_write_other [OF b(1), of o' n] that by simp
  have elem: "read_bytes c o' n = read_bytes a o' n" if "o' + n \<le> leafElementOffset i + 16" for o' n
    using low [of o' n] that assms(2) by (simp add: leafElementOffset_eq)
  have "getLeafPageElement c i = getLeafPageElement a i"
    by (rule getLeafPageElement_cong) (rule elem)
  moreover have "getBranchPageElement c i = getBranchPageElement a i"
    by (rule getBranchPageElement_cong) (simp add: elem branchElementOffset_eq)
  moreover have "read_bytes c off (length ?k) = Inr ?k"
    using read_write_other [OF c(1), of off "length ?k"] read_write_same [OF b(1) refl] by simp
  moreover have "read_bytes c (off + length ?k) (length ?v) = Inr ?v"
    by (rule read_write_same [OF c(1) refl])
  moreover have "write_inodes pa ia leaf (x # xs) i off p =
      write_inodes pa ia leaf xs (Suc i) (off + content_bytes x) c"
    using a(1)
    by (cases leaf) (simp_all add: leaf_element_def branch_element_def wf b(1) c(1) content_bytes_def add.assoc)
  moreover have "read_bytes c o' n = read_bytes p o' n"
    if "o' + n \<le> leafElementOffset i \<or> leafElementOffset (Suc i) \<le> o' \<and> o' + n \<le> off" for o' n
  proof -
    have "o' + n \<le> off" using that assms(2) by (auto simp: leafElementOffset_eq)
    then show ?thesis using low a(5) [of o' n] that by auto
  qed
  ultimately show ?thesis using a(3,4) c(2) by (intro exI [of _ c]) simp
qed

section \<open>Writing all inodes\<close>

lemma write_inodes_frame:
  assumes "\<forall>x \<in> set xs. inode_wf x" and "leafElementOffset (i + length xs) \<le> off"
    and "off + sum_list (map content_bytes xs) \<le> length p"
  shows "\<exists>p'. write_inodes pa ia leaf xs i off p = Inr p' \<and> length p' = length p \<and>
    (\<forall>o' n. o' + n \<le> leafElementOffset i \<or> leafElementOffset (i + length xs) \<le> o' \<and> o' + n \<le> off \<longrightarrow>
       read_bytes p' o' n = read_bytes p o' n)"
  using assms
proof (induction xs arbitrary: i off p)
  case (Cons x xs)
  have o: "leafElementOffset (Suc i) \<le> off" using Cons.prems(2) by (simp add: leafElementOffset_eq)
  obtain p1 where p1: "write_inodes pa ia leaf (x # xs) i off p =
        write_inodes pa ia leaf xs (Suc i) (off + content_bytes x) p1" "length p1 = length p"
      "\<And>o' n. o' + n \<le> leafElementOffset i \<or> leafElementOffset (Suc i) \<le> o' \<and> o' + n \<le> off \<Longrightarrow>
         read_bytes p1 o' n = read_bytes p o' n"
    using write_inodes_Cons [of x i off p pa ia leaf xs] o Cons.prems by auto
  obtain p' where p': "write_inodes pa ia leaf xs (Suc i) (off + content_bytes x) p1 = Inr p'"
      "length p' = length p1"
      "\<And>o' n. o' + n \<le> leafElementOffset (Suc i) \<or> leafElementOffset (Suc i + length xs) \<le> o' \<and>
         o' + n \<le> off + content_bytes x \<Longrightarrow> read_bytes p' o' n = read_bytes p1 o' n"
    using Cons.IH [of "Suc i" "off + content_bytes x" p1] Cons.prems p1(2) by auto
  show ?case
    using p1 p' by (intro exI [of _ p']) (auto simp: leafElementOffset_eq)
qed simp

text \<open>The inode that \<open>Node::read\<close> makes of a stored leaf element, given the old one.\<close>

definition leaf_fill :: "inode \<Rightarrow> inode \<Rightarrow> inode" where
  "leaf_fill it x = it\<lparr>inode_flag := inode_flag x, inode_key := inode_key x, inode_value := inode_value x\<rparr>"

lemma read_inode_leaf:
  assumes "getLeafPageElement p i = Inr (leaf_element x i off)" and "inode_wf x"
    and "leafElementOffset i \<le> off" and "off + content_bytes x < 2 ^ 32"
    and "read_bytes p off (length (item_data (inode_key x))) = Inr (item_data (inode_key x))"
    and "read_bytes p (off + length (item_data (inode_key x))) (length (item_data (inode_value x))) =
      Inr (item_data (inode_value x))"
  shows "read_inode p True i it = Inr (leaf_fill it x)"
proof -
  let ?kl = "item_length (inode_key x)" and ?ps = "of_nat (off - leafElementOffset i) :: u32"
  have kl: "unat ?kl = length (item_data (inode_key x))" "unat (item_length (inode_value x)) = length (item_data (inode_value x))"
    using assms(2) by (simp_all add: inode_wf_def item_wf_def)
  have ps: "unat ?ps = off - leafElementOffset i"
    using assms(4) by (simp add: unat_of_nat)
  then have vs: "unat (?ps + ?kl) = off - leafElementOffset i + length (item_data (inode_key x))"
    using assms(3,4) kl by (subst unat_add_small) (simp_all add: content_bytes_def)
  show ?thesis
    using assms(1,3,5,6) ps vs kl
    by (simp add: read_inode_def leafPageElement_key_def leafPageElement_value_def leafPageElement_read_def
        Item_buf_def leaf_element_def leaf_fill_def)
qed

lemma write_inodes_leaf_stored:
  assumes "\<forall>x \<in> set xs. inode_wf x" and "leafElementOffset (i + length xs) \<le> off"
    and "off + sum_list (map content_bytes xs) \<le> length p" and "length p < 2 ^ 32"
    and "write_inodes pa ia True xs i off p = Inr p'" and "length its = length xs"
  shows "read_inodes p' True i its = Inr (map2 leaf_fill its xs)"
  using assms
proof (induction xs arbitrary: i off p its)
  case (Cons x xs)
  then obtain it its' where its: "its = it # its'" "length its' = length xs" by (cases its) auto
  have o: "leafElementOffset (Suc i) \<le> off" using Cons.prems(2) by (simp add: leafElementOffset_eq)
  let ?k = "item_data (inode_key x)" and ?v = "item_data (inode_value x)"
  obtain p1 where p1: "write_inodes pa ia True (x # xs) i off p =
        write_inodes pa ia True xs (Suc i) (off + content_bytes x) p1" "length p1 = length p"
      "getLeafPageElement p1 i = Inr (leaf_element x i off)"
      "read_bytes p1 off (length ?k) = Inr ?k" "read_bytes p1 (off + length ?k) (length ?v) = Inr ?v"
    using write_inodes_Cons [of x i off p pa ia True xs] o Cons.prems by auto
  have pre: "\<forall>x \<in> set xs. inode_wf x" "leafElementOffset (Suc i + length xs) \<le> off + content_bytes x"
      "off + content_bytes x + sum_list (map content_bytes xs) \<le> length p1"
      "write_inodes pa ia True xs (Suc i) (off + content_bytes x) p1 = Inr p'"
    using Cons.prems p1(1,2) by auto
  have frame: "read_bytes p' o' n = read_bytes p1 o' n"
    if "o' + n \<le> leafElementOffset (Suc i) \<or> leafElementOffset (Suc i + length xs) \<le> o' \<and>
      o' + n \<le> off + content_bytes x" for o' n
    using write_inodes_frame [OF pre(1-3), of pa ia True] pre(4) that by auto
  have "getLeafPageElement p' i = getLeafPageElement p1 i"
    by (rule getLeafPageElement_cong) (simp add: frame leafElementOffset_eq)
  then have "read_inode p' True i it = Inr (leaf_fill it x)"
    using p1 o Cons.prems by (intro read_inode_leaf [of _ _ _ off])
      (auto simp: frame content_bytes_def leafElementOffset_eq)
  moreover have "read_inodes p' True (Suc i) its' = Inr (map2 leaf_fill its' xs)"
    using Cons.IH [OF pre(1-3) _ pre(4) its(2)] Cons.prems(4) p1(2) by simp
  ultimately show ?case by (simp add: its)
qed simp

section \<open>Pages\<close>

lemma header_ok:
  assumes "16 \<le> length p"
  shows "\<exists>x. page_id p = Inr x" and "\<exists>x. page_flag p = Inr x"
  using assms get_ok(3) [of 0 p] get_ok(1) [of 8 p] by (auto simp: header_defs)

text \<open>\<open>Node::write\<close> into a page that is large enough: the header and the run of the loop.\<close>

lemma Node_write_spec:
  assumes "\<forall>x \<in> set (inodeList n). inode_wf x" and "length (inodeList n) \<le> 0xffff"
    and "node_bytes n \<le> length p"
  shows "\<exists>p1 p'. Node_write pa ia n p = Inr p' \<and> length p1 = length p \<and> length p' = length p \<and>
    write_inodes pa ia (isLeaf n) (inodeList n) 0 (leafElementOffset (length (inodeList n))) p1 = Inr p' \<and>
    leafElementOffset (length (inodeList n)) + sum_list (map content_bytes (inodeList n)) = node_bytes n \<and>
    page_id p' = page_id p \<and> page_overflow p' = page_overflow p \<and>
    page_count p' = Inr (of_nat (length (inodeList n))) \<and>
    (\<exists>fl. page_flag p = Inr fl \<and>
       page_flag p' = Inr (fl OR (if isLeaf n then leafPageFlag else branchPageFlag)))"
proof -
  let ?xs = "inodeList n" and ?f = "if isLeaf n then leafPageFlag else branchPageFlag"
  have "inode_bytes n x = 16 + content_bytes x" if "x \<in> set ?xs" for x
    using assms(1) that by (simp add: inode_bytes_def content_bytes_def inode_wf_def item_wf_def)
  then have "sum_list (map (inode_bytes n) ?xs) = sum_list (map (\<lambda>x. 16 + content_bytes x) ?xs)"
    by (intro arg_cong [of _ _ sum_list] map_cong) simp_all
  then have sz: "leafElementOffset (length ?xs) + sum_list (map content_bytes ?xs) = node_bytes n"
    by (simp add: node_bytes_def leafElementOffset_eq PAGEHEADERSIZE_def sum_list_addf sum_list_triv)
  then have len: "16 \<le> length p" using assms(3) by (simp add: leafElementOffset_eq)
  obtain a where a: "or_page_flag ?f p = Inr a" using or_page_flag_ok [OF len] by blast
  note fa = or_page_flag_frame [OF a]
  obtain b where b: "set_page_count (of_nat (length ?xs)) a = Inr b"
    using set_page_count_ok [of a] len fa(1) by auto
  note fb = set_page_count_frame [OF b]
  obtain p' where p': "write_inodes pa ia (isLeaf n) ?xs 0 (leafElementOffset (length ?xs)) b = Inr p'"
      "length p' = length b" "\<And>o' k. o' + k \<le> 16 \<Longrightarrow> read_bytes p' o' k = read_bytes b o' k"
    using write_inodes_frame [OF assms(1), of 0 "leafElementOffset (length ?xs)" b pa ia "isLeaf n"]
      sz assms(3) fa(1) fb(1) by (auto simp: leafElementOffset_eq)
  have off: "PAGEHEADERSIZE + length ?xs * pageElementSize n = leafElementOffset (length ?xs)"
    by (simp add: leafElementOffset_eq PAGEHEADERSIZE_def)
  have "Node_write pa ia n p = Inr p'"
    using assms(2) a b p'(1) unfolding Node_write_def off by (cases "?xs") simp_all
  then show ?thesis
    using sz p' fa fb header_cong [OF p'(3)] by (intro exI [of _ b] exI [of _ p']) simp
qed

text \<open>Reading a page back into a node that has no inodes yet, as \<open>Bucket::getNode\<close> does.\<close>

lemma map2_replicate: "map2 f (replicate (length xs) a) xs = map (f a) xs"
  by (induction xs) auto

lemma leaf_fill_default: "leaf_fill Inode_default = (\<lambda>x. x\<lparr>inode_pageId := 0\<rparr>)"
  by (rule ext) (simp add: leaf_fill_def Inode_default_def)

lemma Node_write_read_leaf:
  assumes "isLeaf n" and "\<forall>x \<in> set (inodeList n). inode_wf x \<and> item_length (inode_key x) \<noteq> 0"
    and "length (inodeList n) \<le> 0xffff" and "node_bytes n \<le> length p" and "length p < 2 ^ 32"
    and "page_id p = Inr pid" and "inodeList m = []"
  shows "\<exists>p'. Node_write pa ia n p = Inr p' \<and> length p' = length p \<and> page_id p' = page_id p \<and>
    page_overflow p' = page_overflow p \<and>
    Node_read p' m = Inr (m\<lparr>node_pageId := pid, isLeaf := True,
      inodeList := map (\<lambda>x. x\<lparr>inode_pageId := 0\<rparr>) (inodeList n),
      node_key := (case inodeList n of [] \<Rightarrow> Item_reset (node_key m) | x # _ \<Rightarrow> inode_key x)\<rparr>)"
proof -
  let ?xs = "inodeList n"
  have wf: "\<forall>x \<in> set ?xs. inode_wf x" using assms(2) by blast
  obtain p1 p' fl where w: "Node_write pa ia n p = Inr p'" "length p1 = length p" "length p' = length p"
      "write_inodes pa ia True ?xs 0 (leafElementOffset (length ?xs)) p1 = Inr p'"
      "leafElementOffset (length ?xs) + sum_list (map content_bytes ?xs) = node_bytes n"
      "page_id p' = page_id p" "page_overflow p' = page_overflow p"
      "page_count p' = Inr (of_nat (length ?xs))" "page_flag p' = Inr (fl OR leafPageFlag)"
    using Node_write_spec [OF wf assms(3,4), of pa ia] assms(1) by auto
  have "read_inodes p' True 0 (replicate (length ?xs) Inode_default) =
      Inr (map (\<lambda>x. x\<lparr>inode_pageId := 0\<rparr>) ?xs)"
    using write_inodes_leaf_stored [OF wf _ _ _ w(4), of "replicate (length ?xs) Inode_default"]
      w(2,5) assms(4,5) by (simp add: map2_replicate leaf_fill_default)
  moreover have "resize (unat (of_nat (length ?xs) :: u16)) (inodeList m) = replicate (length ?xs) Inode_default"
    using assms(3,7) by (simp add: resize_def unat_of_nat)
  moreover have "(fl OR leafPageFlag) AND leafPageFlag \<noteq> 0"
    by (simp add: or_and_absorb) (simp add: leafPageFlag_def)
  ultimately have "Node_read p' m = Inr (m\<lparr>node_pageId := pid, isLeaf := True,
      inodeList := map (\<lambda>x. x\<lparr>inode_pageId := 0\<rparr>) ?xs,
      node_key := (case ?xs of [] \<Rightarrow> Item_reset (node_key m) | x # _ \<Rightarrow> inode_key x)\<rparr>)"
    using assms(2,6) w(6,8,9) by (cases ?xs) (simp_all add: Node_read_def Let_def Item_empty_def)
  then show ?thesis using w by auto
qed

section \<open>Branch pages\<close>

lemma write_inodes_branch_stored:
  assumes "\<forall>x \<in> set xs. inode_wf x" and "leafElementOffset (i + length xs) \<le> off"
    and "off + sum_list (map content_bytes xs) \<le> length p"
    and "write_inodes pa ia False xs i off p = Inr p'" and "j < length xs"
  shows "getBranchPageElement p' (i + j) =
    Inr (branch_element pa ia (xs ! j) (off + sum_list (map content_bytes (take j xs))))"
  using assms
proof (induction xs arbitrary: i off p j)
  case (Cons x xs)
  have o: "leafElementOffset (Suc i) \<le> off" using Cons.prems(2) by (simp add: leafElementOffset_eq)
  obtain p1 where p1: "write_inodes pa ia False (x # xs) i off p =
        write_inodes pa ia False xs (Suc i) (off + content_bytes x) p1" "length p1 = length p"
      "getBranchPageElement p1 i = Inr (branch_element pa ia x off)"
    using write_inodes_Cons [of x i off p pa ia False xs] o Cons.prems by auto
  have pre: "\<forall>x \<in> set xs. inode_wf x" "leafElementOffset (Suc i + length xs) \<le> off + content_bytes x"
      "off + content_bytes x + sum_list (map content_bytes xs) \<le> length p1"
      "write_inodes pa ia False xs (Suc i) (off + content_bytes x) p1 = Inr p'"
    using Cons.prems p1(1,2) by auto
  have "read_bytes p' o' n = read_bytes p1 o' n" if "o' + n \<le> leafElementOffset (Suc i)" for o' n
    using write_inodes_frame [OF pre(1-3), of pa ia False] pre(4) that by auto
  then have "getBranchPageElement p' i = getBranchPageElement p1 i"
    by (intro getBranchPageElement_cong) (simp add: leafElementOffset_eq branchElementOffset_eq)
  then show ?case
    using Cons.IH [OF pre, of "j - 1"] Cons.prems(5) p1(3) by (cases j) (auto simp: add.assoc)
qed simp

text \<open>Where the key of the inode at index \<open>j\<close> is stored.\<close>

definition content_offset :: "node \<Rightarrow> nat \<Rightarrow> nat" where
  "content_offset n j =
     leafElementOffset (length (inodeList n)) + sum_list (map content_bytes (take j (inodeList n)))"

text \<open>The conversion to 32 bits is a ring homomorphism.\<close>

lemma word_of_int_mod_64: "(word_of_int (z mod 2 ^ 64) :: u32) = word_of_int z"
proof -
  have "(z mod 2 ^ 64) mod 2 ^ 32 = z mod (2 ^ 32 :: int)" by (rule mod_mod_cancel) simp
  then show ?thesis by (simp add: word_of_int_eq_iff take_bit_eq_mod)
qed

lemma ucast_shift: "(ucast (a + of_nat c - b :: u64) :: u32) = ucast (a - b) + of_nat c"
proof -
  have *: "(ucast (word_of_int z :: u64) :: u32) = word_of_int z" for z
    using word_of_int_mod_64 [of z] by (simp only: ucast_eq uint_word_of_int) simp
  have h1: "a + of_nat c - b = word_of_int (uint a - uint b + int c)" by simp
  have h2: "a - b = word_of_int (uint a - uint b)" by simp
  have "(ucast (a + of_nat c - b) :: u32) = word_of_int (uint a - uint b + int c)"
    unfolding h1 by (rule *)
  moreover have "(ucast (a - b) :: u32) = word_of_int (uint a - uint b)"
    unfolding h2 by (rule *)
  ultimately show ?thesis by (simp only: of_int_add of_int_of_nat_eq)
qed

text \<open>A position that is right determines the distance between the page and the local variable.\<close>

lemma branch_pos_distance:
  assumes "branchElementOffset j + unat (branch_pos (branch_element pa ia x c)) = c"
  shows "(ucast (pa - ia) :: u32) = - of_nat (branchElementOffset j)"
proof -
  let ?d = "ucast (pa - ia) :: u32"
  have "unat (?d + of_nat c) = c - branchElementOffset j" "branchElementOffset j \<le> c"
    using assms by (simp_all add: branch_element_def ucast_shift)
  then have "?d + of_nat c = of_nat c - of_nat (branchElementOffset j)"
    by (metis of_nat_diff of_nat_unat ucast_id)
  then have "?d + of_nat (branchElementOffset j) = 0" by (simp add: algebra_simps)
  then show ?thesis by (simp add: eq_neg_iff_add_eq_0)
qed

section \<open>Properties\<close>

definition leaf_ok :: "node \<Rightarrow> bool" where
  "leaf_ok n \<longleftrightarrow> isLeaf n \<and> length (inodeList n) \<le> 0xffff \<and>
     (\<forall>x \<in> set (inodeList n). inode_wf x \<and> item_length (inode_key x) \<noteq> 0)"

text \<open>
  C12: A leaf survives serialisation. Written by \<open>Node::write\<close> into any page of at least
  \<open>size()\<close> bytes (below 4 GiB, as positions are 32-bit) and read into a fresh node by
  \<open>Node::read\<close>, it comes back with the same flags, keys and values in the same order, as a
  leaf, with the page's id and the first key as its key; the page's id and overflow are kept.
\<close>

theorem leaf_write_read:
  assumes "leaf_ok n" and "node_bytes n \<le> length p" and "length p < 2 ^ 32"
    and "page_id p = Inr pid" and "inodeList m = []"
  shows "\<exists>p'. Node_write pa ia n p = Inr p' \<and> length p' = length p \<and> page_id p' = page_id p \<and>
    page_overflow p' = page_overflow p \<and>
    Node_read p' m = Inr (m\<lparr>node_pageId := pid, isLeaf := True,
      inodeList := map (\<lambda>x. x\<lparr>inode_pageId := 0\<rparr>) (inodeList n),
      node_key := (case inodeList n of [] \<Rightarrow> Item_reset (node_key m) | x # _ \<Rightarrow> inode_key x)\<rparr>)"
  using Node_write_read_leaf [of n p pid m pa ia] assms by (simp add: leaf_ok_def)

lemma node_example_bytes: "node_bytes node_example = 71" "leaf_ok node_example"
  by (simp_all add: node_bytes_def node_example_def inode_bytes_def put_inode_def PAGEHEADERSIZE_def
      leaf_ok_def inode_wf_def item_wf_def)

lemma node_example_inodes:
  "inodeList node_example = [put_inode (Item_string [1]) (Item_string [10, 11]) 0 0,
     put_inode (Item_string [1, 5]) (Item_string [20]) 0 0, put_inode (Item_string [7]) (Item_string []) 0 1]"
  by (simp add: node_example_def)

theorem leaf_write_read_witness:
  "\<exists>p' m'. Node_write 0 0 node_example (replicate 100 0) = Inr p' \<and>
     Node_read p' (Node_new (BucketPtr 0) None) = Inr m' \<and> inodeList m' = inodeList node_example"
proof -
  have "page_id (replicate 100 0) = Inr 0"
    by (simp add: page_id_def get_u64_def read_bytes_def eval_nat_numeral)
  then obtain p' where "Node_write 0 0 node_example (replicate 100 0) = Inr p'"
      "Node_read p' (Node_new (BucketPtr 0) None) = Inr ((Node_new (BucketPtr 0) None)
        \<lparr>node_pageId := 0, isLeaf := True, inodeList := map (\<lambda>x. x\<lparr>inode_pageId := 0\<rparr>) (inodeList node_example),
         node_key := (case inodeList node_example of [] \<Rightarrow> Item_reset (node_key (Node_new (BucketPtr 0) None))
           | x # _ \<Rightarrow> inode_key x)\<rparr>)"
    using leaf_write_read [of node_example "replicate 100 0" 0 "Node_new (BucketPtr 0) None" 0 0]
      node_example_bytes by (auto simp: Node_new_def)
  then show ?thesis by (auto simp: node_example_inodes put_inode_def)
qed

text \<open>
  C24: \<open>Node::write\<close>, of a leaf or a branch with at most 65535 inodes, stays inside every page
  that has \<open>Node::size()\<close> bytes, and writes the element count into the header.
\<close>

theorem write_fits_size:
  assumes "\<forall>x \<in> set (inodeList n). inode_wf x" and "length (inodeList n) \<le> 0xffff"
    and "node_bytes n < 2 ^ 32" and "unat (Node_size n) \<le> length p"
  shows "\<exists>p'. Node_write pa ia n p = Inr p' \<and> length p' = length p \<and>
    page_count p' = Inr (of_nat (length (inodeList n)))"
  using Node_write_spec [OF assms(1,2), of p pa ia] assms(3,4) by (auto simp: unat_Node_size)

theorem write_fits_size_witness:
  "\<exists>p'. Node_write 5 9 node_example (replicate 71 0) = Inr p' \<and> page_count p' = Inr 3"
proof -
  have "\<forall>x \<in> set (inodeList node_example). inode_wf x"
    using node_example_bytes by (simp add: leaf_ok_def)
  then show ?thesis
    using write_fits_size [of node_example "replicate 71 0" 5 9] node_example_bytes(1)
    by (auto simp: unat_Node_size node_example_inodes)
qed

text \<open>
  \<open>sizeLessThan(s)\<close>, which stops at the first inode past the limit, decides \<open>size() < s\<close> for
  every non-empty node whose size is below 4 GiB (an empty node is below every limit).
\<close>

theorem size_less_than_correct:
  assumes "node_bytes n < 2 ^ 32"
  shows "sizeLessThan n s \<longleftrightarrow> inodeList n = [] \<or> Node_size n < s"
  using sizeLessThan_loop_eq [of "of_nat PAGEHEADERSIZE" n "inodeList n" s] assms
  by (simp add: sizeLessThan_def word_less_nat_alt unat_Node_size node_bytes_def)

theorem size_less_than_correct_witness:
  "sizeLessThan node_example 72 \<and> \<not> sizeLessThan node_example 71"
  using size_less_than_correct [of node_example 72] size_less_than_correct [of node_example 71]
    node_example_bytes(1) by (simp add: word_less_nat_alt unat_Node_size node_example_inodes)

text \<open>
  C34: \<open>Node::isinlineable(max)\<close> holds exactly for a leaf that contains no bucket and whose size
  does not exceed the maximum.
\<close>

theorem isinlineable_correct:
  assumes "node_bytes n < 2 ^ 32" and "inodeList n \<noteq> []"
  shows "Node_isinlineable maxsz n \<longleftrightarrow>
    Node_size n \<le> maxsz \<and> (\<forall>i \<in> set (inodeList n). inode_flag i AND bucketLeafFlag = 0)"
  using isinlineable_loop_eq [of "of_nat PAGEHEADERSIZE" n "inodeList n" maxsz] assms
  by (auto simp: Node_isinlineable_def word_le_nat_alt unat_Node_size node_bytes_def)

theorem isinlineable_correct_witness: "\<not> Node_isinlineable 1000 node_example"
  using isinlineable_correct [of node_example 1000] node_example_bytes(1)
  by (simp add: node_example_inodes put_inode_def bucketLeafFlag_def)

text \<open>
  C25: \<open>Node::splitIndex\<close>, for a node of more than four inodes (which is when \<open>splitTwo\<close> asks),
  returns an index that leaves at least two inodes on the left and three on the right; the left
  part fits the threshold unless it is the minimum of two inodes; and the left part is as large
  as these limits allow.
\<close>

theorem split_index_correct:
  assumes "node_bytes n < 2 ^ 32" and "2 * MINKEYSPERPAGE < length (inodeList n)"
  shows "\<exists>r. splitIndex n threshold = Inr r \<and> MINKEYSPERPAGE \<le> r \<and> r + 3 \<le> length (inodeList n) \<and>
    (r = MINKEYSPERPAGE \<or> prefix_bytes n r \<le> unat threshold) \<and>
    (r + 3 = length (inodeList n) \<or> unat threshold < prefix_bytes n (Suc r))"
  using splitIndex_spec [OF assms(1), of threshold] assms(2) by (simp add: MINKEYSPERPAGE_def)

theorem split_index_correct_witness:
  "\<exists>r. splitIndex (node_example\<lparr>inodeList := inodeList node_example @ inodeList node_example\<rparr>) 60 = Inr r \<and> 2 \<le> r \<and> r \<le> 3"
proof -
  let ?n = "node_example\<lparr>inodeList := inodeList node_example @ inodeList node_example\<rparr>"
  have "node_bytes ?n < 2 ^ 32" "2 * MINKEYSPERPAGE < length (inodeList ?n)"
    by (simp_all add: node_bytes_def inode_bytes_def node_example_inodes put_inode_def PAGEHEADERSIZE_def MINKEYSPERPAGE_def)
  from split_index_correct [OF this, of 60] show ?thesis
    by (auto simp: node_example_inodes MINKEYSPERPAGE_def)
qed

text \<open>
  C38: A branch page is never written correctly once it has two entries: \<open>Node::write\<close> computes
  \<open>pos\<close> as the distance of the content from its local variable \<open>item\<close> instead of from the
  element, so wherever page and variable lie, at least one of the first two elements does not
  point to its key.
\<close>

theorem branch_positions_wrong:
  assumes "\<not> isLeaf n" and "\<forall>x \<in> set (inodeList n). inode_wf x" and "length (inodeList n) \<le> 0xffff"
    and "node_bytes n \<le> length p" and "2 \<le> length (inodeList n)"
  shows "\<exists>p' j el. Node_write pa ia n p = Inr p' \<and> j < 2 \<and> getBranchPageElement p' j = Inr el \<and>
    branchElementOffset j + unat (branch_pos el) \<noteq> content_offset n j"
proof -
  let ?xs = "inodeList n"
  obtain p1 p' where w: "Node_write pa ia n p = Inr p'" "length p1 = length p"
      "write_inodes pa ia False ?xs 0 (leafElementOffset (length ?xs)) p1 = Inr p'"
      "leafElementOffset (length ?xs) + sum_list (map content_bytes ?xs) = node_bytes n"
    using Node_write_spec [OF assms(2-4), of pa ia] assms(1) by auto
  have el: "getBranchPageElement p' j = Inr (branch_element pa ia (?xs ! j) (content_offset n j))" if "j < 2" for j
    using write_inodes_branch_stored [OF assms(2) _ _ w(3), of j] w(2,4) assms(4,5) that
    by (simp add: content_offset_def)
  let ?right = "\<lambda>j. branchElementOffset j +
      unat (branch_pos (branch_element pa ia (?xs ! j) (content_offset n j))) = content_offset n j"
  have "\<not> (?right 0 \<and> ?right 1)"
  proof
    assume "?right 0 \<and> ?right 1"
    then have "- of_nat (branchElementOffset 0) = (- of_nat (branchElementOffset 1) :: u32)"
      using branch_pos_distance [of 0 pa ia] branch_pos_distance [of 1 pa ia] by metis
    then show False by (simp add: branchElementOffset_eq leafElementOffset_eq)
  qed
  then have "\<exists>j. j < 2 \<and> \<not> ?right j" by (metis one_less_numeral_iff semiring_norm(76) zero_less_numeral)
  then obtain j where "j < 2" "\<not> ?right j" by blast
  then show ?thesis using w(1) el [of j] by blast
qed

definition branch_example :: node where
  "branch_example = (Node_new (BucketPtr 0) None)\<lparr>
     inodeList := [put_inode (Item_string [1]) Item_default 3 0, put_inode (Item_string [4]) Item_default 4 0]\<rparr>"

theorem branch_positions_wrong_witness:
  "\<exists>p' j el. Node_write 0 1000 branch_example (replicate 50 0) = Inr p' \<and> j < 2 \<and>
     getBranchPageElement p' j = Inr el \<and>
     branchElementOffset j + unat (branch_pos el) \<noteq> content_offset branch_example j"
  by (rule branch_positions_wrong)
    (simp_all add: branch_example_def Node_new_def put_inode_def inode_wf_def node_bytes_def inode_bytes_def
      PAGEHEADERSIZE_def Item_default_def item_wf_def)

section \<open>Nodes read from arbitrary bytes\<close>

text \<open>
  The inode \<open>x\<close> is what the element \<open>i\<close> of the page describes: key and value are the bytes of the page at the
  element's position, the value right behind the key, with the sizes that the element names.
\<close>

definition leaf_decoded :: "buffer \<Rightarrow> nat \<Rightarrow> inode \<Rightarrow> bool" where
  "leaf_decoded p i x \<longleftrightarrow> (\<exists>el. getLeafPageElement p i = Inr el \<and> inode_flag x = leaf_flag el \<and>
     item_length (inode_key x) = leaf_ksize el \<and> item_length (inode_value x) = leaf_vsize el \<and>
     length (item_data (inode_key x)) = unat (leaf_ksize el) \<and> length (item_data (inode_value x)) = unat (leaf_vsize el) \<and>
     leafElementOffset i + unat (leaf_pos el) + unat (leaf_ksize el) + unat (leaf_vsize el) \<le> length p \<and>
     item_data (inode_key x) @ item_data (inode_value x) =
       take (unat (leaf_ksize el) + unat (leaf_vsize el)) (drop (leafElementOffset i + unat (leaf_pos el)) p))"

definition branch_decoded :: "buffer \<Rightarrow> nat \<Rightarrow> inode \<Rightarrow> bool" where
  "branch_decoded p i x \<longleftrightarrow> (\<exists>el. getBranchPageElement p i = Inr el \<and> inode_pageId x = branch_pageId el \<and>
     item_length (inode_key x) = branch_ksize el \<and> length (item_data (inode_key x)) = unat (branch_ksize el) \<and>
     branchElementOffset i + unat (branch_pos el) + unat (branch_ksize el) \<le> length p \<and>
     item_data (inode_key x) = take (unat (branch_ksize el)) (drop (branchElementOffset i + unat (branch_pos el)) p))"

lemma Item_buf_slice:
  "Item_buf p off len = Inr it \<Longrightarrow> off + unat len \<le> length p \<and> item_length it = len \<and> item_data it = take (unat len) (drop off p)"
  by (auto simp: Item_buf_def read_bytes_def and_then_Inr_iff split: if_splits)

lemma read_inode_decoded:
  assumes "read_inode p leaf i it = Inr x" and "length p < 2 ^ 32"
  shows "if leaf then leaf_decoded p i x else branch_decoded p i x"
proof (cases leaf)
  case True
  then obtain el k v where r: "getLeafPageElement p i = Inr el" "Item_buf p (leafElementOffset i + unat (leaf_pos el)) (leaf_ksize el) = Inr k"
      "Item_buf p (leafElementOffset i + unat (leaf_pos el + leaf_ksize el)) (leaf_vsize el) = Inr v"
      "x = it\<lparr>inode_flag := leaf_flag el, inode_key := k, inode_value := v\<rparr>"
    using assms(1) by (auto simp: read_inode_def leafPageElement_key_def leafPageElement_value_def leafPageElement_read_def and_then_Inr_iff)
  note k = Item_buf_slice [OF r(2)] and v = Item_buf_slice [OF r(3)]
  have "unat (leaf_pos el) + unat (leaf_ksize el) < 2 ^ 32" using k assms(2) by simp
  then have s: "unat (leaf_pos el + leaf_ksize el) = unat (leaf_pos el) + unat (leaf_ksize el)" by (simp add: unat_word_ariths)
  have "take (unat (leaf_ksize el) + unat (leaf_vsize el)) (drop (leafElementOffset i + unat (leaf_pos el)) p) = item_data k @ item_data v"
    using k v s by (simp add: take_add ac_simps)
  then show ?thesis using True r k v s by (auto simp: leaf_decoded_def ac_simps)
next
  case False
  then obtain el k where r: "getBranchPageElement p i = Inr el" "Item_buf p (branchElementOffset i + unat (branch_pos el)) (branch_ksize el) = Inr k"
      "x = it\<lparr>inode_pageId := branch_pageId el, inode_key := k\<rparr>"
    using assms(1) by (auto simp: read_inode_def branchPageElement_key_def and_then_Inr_iff)
  then show ?thesis using False Item_buf_slice [OF r(2)] by (auto simp: branch_decoded_def)
qed

lemma read_inodes_decoded:
  assumes "length p < 2 ^ 32"
  shows "read_inodes p leaf i its = Inr xs \<Longrightarrow>
    length xs = length its \<and> (\<forall>j < length xs. if leaf then leaf_decoded p (i + j) (xs ! j) else branch_decoded p (i + j) (xs ! j))"
proof (induction its arbitrary: i xs)
  case (Cons it its)
  then obtain x ys where x: "read_inode p leaf i it = Inr x" "read_inodes p leaf (Suc i) its = Inr ys" "xs = x # ys"
    by (auto simp: and_then_Inr_iff)
  show ?case using Cons.IH [OF x(2)] read_inode_decoded [OF x(1) assms] x(3) by (auto simp: nth_Cons split: nat.split)
qed simp

text \<open>
  C13: Whatever bytes \<open>Node::read\<close> is given (less than 4 GiB, a damaged page included): when it returns, the node has
  the page's id and as many inodes as the page's count says. Each inode of a leaf has the flag of its element,
  and its key and value are the bytes of the page that start at the element's position, the value right behind
  the key, all of them inside the page; each inode of a branch has the page id of its element and the key at
  its position. The key of the node is the first key, which is not empty, and empty when there are no inodes.
\<close>

theorem node_read_typed:
  assumes "Node_read p n = Inr y" and "length p < 2 ^ 32"
  shows "page_id p = Inr (node_pageId y) \<and> page_count p = Inr (of_nat (length (inodeList y))) \<and>
    (\<forall>i < length (inodeList y). if isLeaf y then leaf_decoded p i (inodeList y ! i) else branch_decoded p i (inodeList y ! i)) \<and>
    (if inodeList y = [] then item_data (node_key y) = []
     else node_key y = inode_key (inodeList y ! 0) \<and> item_data (node_key y) \<noteq> [])"
proof -
  obtain pid fl cnt xs where h: "page_id p = Inr pid" "page_flag p = Inr fl" "page_count p = Inr cnt"
      "read_inodes p (fl AND leafPageFlag \<noteq> 0) 0 (resize (unat cnt) (inodeList n)) = Inr xs"
    using assms(1) by (auto simp: Node_read_def and_then_Inr_iff Let_def)
  then have y: "node_pageId y = pid" "isLeaf y = (fl AND leafPageFlag \<noteq> 0)" "inodeList y = xs" "xs = [] \<longrightarrow> item_data (node_key y) = []"
      "xs \<noteq> [] \<longrightarrow> node_key y = inode_key (xs ! 0) \<and> \<not> Item_empty (inode_key (xs ! 0))"
    using assms(1) by (cases xs; auto simp: Node_read_def and_then_Inr_iff Let_def check_def Item_reset_def split: if_splits)+
  from read_inodes_decoded [OF assms(2) h(4)] have xs: "length xs = unat cnt"
      "\<forall>j < length xs. if isLeaf y then leaf_decoded p j (xs ! j) else branch_decoded p j (xs ! j)" using y(2) by (auto simp: resize_def)
  have "item_data (inode_key (xs ! 0)) \<noteq> []" if "xs \<noteq> []"
  proof -
    have "length (item_data (inode_key (xs ! 0))) = unat (item_length (inode_key (xs ! 0)))"
      using xs(2) that unfolding leaf_decoded_def branch_decoded_def by (metis length_greater_0_conv)
    then show ?thesis using y(5) that by (auto simp: Item_empty_def unat_eq_zero)
  qed
  then show ?thesis using h y xs by simp
qed

theorem node_read_typed_witness:
  "\<exists>p y. Node_read p (Node_new (BucketPtr 0) None) = Inr y \<and> page_count p = Inr 3 \<and> leaf_decoded p 0 (inodeList y ! 0) \<and>
     item_data (inode_value (inodeList y ! 0)) = [10, 11] \<and> item_data (node_key y) = [1]"
proof -
  let ?n = "Node_new (BucketPtr 0) None"
  have "page_id (replicate 100 0) = Inr 0" by (simp add: page_id_def get_u64_def read_bytes_def eval_nat_numeral)
  moreover have "inodeList ?n = []" by (simp add: Node_new_def)
  ultimately obtain p where p: "Node_read p ?n = Inr (?n\<lparr>node_pageId := 0, isLeaf := True,
      inodeList := map (\<lambda>x. x\<lparr>inode_pageId := 0\<rparr>) (inodeList node_example),
      node_key := (case inodeList node_example of [] \<Rightarrow> Item_reset (node_key ?n) | x # _ \<Rightarrow> inode_key x)\<rparr>)" "length p = 100"
    using Node_write_read_leaf [of node_example "replicate 100 0" 0 ?n 0 0] node_example_bytes by (auto simp: leaf_ok_def)
  with node_read_typed [OF p(1)] show ?thesis
    by (intro exI [of _ p]) (simp add: node_example_inodes put_inode_def Node_new_def Item_string_def All_less_Suc)
qed

end
