(* ===== verification/Db_Correct.thy ===== *)
theory Db_Correct
  imports Db Free_List_Machine Node_Store
begin

unbundle bit_operations_syntax

text \<open>
  What the database object guarantees: the size of the mapping, the content of a new file, the
  growth of the file and the pages that allocation hands out.
\<close>

section \<open>Size of the mapping\<close>

lemma getMmapSize_loop_upt:
  "a \<le> b \<Longrightarrow> getMmapSize_loop t [a..<b] =
     (if \<exists>i. a \<le> i \<and> i < b \<and> unat t \<le> 2 ^ i
      then Some (of_nat (2 ^ (LEAST i. a \<le> i \<and> unat t \<le> 2 ^ i))) else None)"
proof (induction "b - a" arbitrary: a)
  case 0
  then show ?case by auto
next
  case (Suc d)
  then have ab: "a < b" by simp
  show ?case
  proof (cases "unat t \<le> 2 ^ a")
    case True
    then have "(LEAST i. a \<le> i \<and> unat t \<le> 2 ^ i) = a" by (intro Least_equality) auto
    then show ?thesis using True ab by (auto simp: upt_conv_Cons)
  next
    case False
    then have *: "a \<le> i \<and> unat t \<le> 2 ^ i \<longleftrightarrow> Suc a \<le> i \<and> unat t \<le> 2 ^ i" for i
      by (cases "i = a") auto
    then have "(LEAST i. a \<le> i \<and> unat t \<le> 2 ^ i) = (LEAST i. Suc a \<le> i \<and> unat t \<le> 2 ^ i)"
      and "(\<exists>i. a \<le> i \<and> i < b \<and> unat t \<le> 2 ^ i) \<longleftrightarrow> (\<exists>i. Suc a \<le> i \<and> i < b \<and> unat t \<le> 2 ^ i)"
      by (simp only: *) (use * in blast)
    then show ?thesis using Suc.hyps(1) [of "Suc a"] Suc.hyps(2) ab False by (auto simp: upt_conv_Cons)
  qed
qed

text \<open>
  C30: \<open>getMmapSize\<close> rounds a size of at most 1 GiB up to the smallest power of two that is at
  least 32 KiB and holds it, and reports an error above \<open>MAXMAPSIZE\<close>; between 1 GiB and
  \<open>MAXMAPSIZE\<close>, which the comment of the function allows, it runs into its \<open>assert(false)\<close>.
\<close>

theorem getMmapSize_correct:
  "getMmapSize t =
    (if unat t \<le> 2 ^ 30 then Inr (0, of_nat (2 ^ (LEAST i. 15 \<le> i \<and> unat t \<le> 2 ^ i)))
     else if unat t \<le> MAXMAPSIZE then Inl AssertFail else Inr (- 1, t))"
proof -
  have "(\<exists>i. 15 \<le> i \<and> i < 31 \<and> unat t \<le> 2 ^ i) \<longleftrightarrow> unat t \<le> 2 ^ 30"
  proof
    assume "\<exists>i. 15 \<le> i \<and> i < 31 \<and> unat t \<le> 2 ^ i"
    then obtain i where i: "i < 31" "unat t \<le> 2 ^ i" by blast
    have "(2 :: nat) ^ i \<le> 2 ^ 30" using i(1) by (intro power_increasing) auto
    then show "unat t \<le> 2 ^ 30" using i(2) by simp
  qed (auto intro: exI [of _ 30])
  then show ?thesis
    using getMmapSize_loop_upt [of 15 31 t] by (simp add: getMmapSize_def)
qed

section \<open>A new file\<close>

lemma set_page_flag_frame:
  assumes "set_page_flag x p = Inr p'"
  shows "length p' = length p" and "page_flag p' = Inr x" and "page_id p' = page_id p"
    and "page_count p' = page_count p" and "page_overflow p' = page_overflow p"
    and "off + n \<le> 8 \<or> 10 \<le> off \<Longrightarrow> read_bytes p' off n = read_bytes p off n"
  using assms by (auto simp: header_defs buffer_simps length_set)

lemma set_page_ok:
  assumes "16 \<le> length p"
  shows "\<exists>p'. set_page_id x p = Inr p'" and "\<exists>p'. set_page_flag fl p = Inr p'"
    and "\<exists>p'. set_page_count c p = Inr p'" and "\<exists>p'. set_page_overflow ov p = Inr p'"
  using assms set_ok(3) [of 0 p x] set_ok(1) [of 8 p fl] set_ok(1) [of 10 p c] set_ok(2) [of 12 p ov]
  by (auto simp: header_defs)

text \<open>A buffer is determined from a position on by its reads from there on.\<close>

lemma drop_eqI:
  assumes "length p' = length p" and "\<And>n. read_bytes p' k n = read_bytes p k n"
  shows "drop k p' = drop k p"
proof (cases "k \<le> length p")
  case True
  then show ?thesis using assms(2) [of "length p - k"] assms(1) by (simp add: read_bytes_def)
next
  case False
  then show ?thesis using assms(1) by simp
qed

lemma read_meta_ok:
  assumes "80 \<le> length p"
  shows "\<exists>m. read_meta p = Inr m"
proof -
  obtain bs where bs: "read_bytes p metaPtr 64 = Inr bs"
    using assms by (simp add: read_bytes_def metaPtr_def PAGEHEADERSIZE_def)
  show ?thesis
    using get_sub [OF bs, of 0] get_sub [OF bs, of 4] get_sub [OF bs, of 8] get_sub [OF bs, of 12]
      get_sub [OF bs, of 16] get_sub [OF bs, of 24] get_sub [OF bs, of 32] get_sub [OF bs, of 40]
      get_sub [OF bs, of 48] get_sub [OF bs, of 56]
    by (simp add: read_meta_def read_bucketHeader_def add.assoc)
qed

definition init_meta_of :: "u32 \<Rightarrow> u64 \<Rightarrow> meta" where
  "init_meta_of ps i = \<lparr>magic = MAGIC, version = VERSION, meta_pageSize = ps, meta_flags = 0,
     meta_root = \<lparr>bh_root = 3, bh_sequence = 0\<rparr>, freeListPageNumber = 2, totalPageNumber = 4,
     meta_txid = i, checksum = 0\<rparr>"

lemma init_meta_page_spec:
  assumes "80 \<le> length p" and "read_bytes p 28 4 = Inr [0, 0, 0, 0]"
  shows "\<exists>p'. init_meta_page ps i p = Inr p' \<and> length p' = length p \<and>
    read_meta p' = Inr (init_meta_of ps i) \<and> drop 80 p' = drop 80 p"
proof -
  obtain a where a: "set_page_id i p = Inr a" using set_page_ok(1) [of p i] assms(1) by auto
  note fa = set_page_id_frame [OF a]
  obtain b where b: "set_page_flag metaPageFlag a = Inr b"
    using set_page_ok(2) [of a metaPageFlag] assms(1) fa(1) by auto
  note fb = set_page_flag_frame [OF b]
  obtain m where m: "read_meta b = Inr m" using read_meta_ok [of b] assms(1) fa(1) fb(1) by auto
  have "get_u32 b 28 = Inr 0"
    using fa(6) [of 28 4] fb(6) [of 28 4] assms(2) by (simp add: get_u32_def)
  then have "meta_flags m = 0"
    using m by (auto simp: read_meta_def metaPtr_def PAGEHEADERSIZE_def and_then_Inr_iff)
  let ?m = "m\<lparr>magic := MAGIC, version := VERSION, meta_pageSize := ps, freeListPageNumber := 2,
       meta_root := \<lparr>bh_root = 3, bh_sequence = 0\<rparr>, totalPageNumber := 4, meta_txid := i, checksum := 0\<rparr>"
  obtain c where c: "store_meta ?m b = Inr c" "length c = length b" "read_meta c = Inr ?m"
      "\<And>o' n. 80 \<le> o' \<Longrightarrow> read_bytes c o' n = read_bytes b o' n"
    using store_meta_spec [of b ?m] assms(1) fa(1) fb(1) by auto
  have "?m = init_meta_of ps i" using \<open>meta_flags m = 0\<close> by (simp add: init_meta_of_def)
  moreover have "drop 80 c = drop 80 p"
    using c(2,4) fa(1,6) fb(1,6) by (intro drop_eqI) simp_all
  ultimately show ?thesis using a b c m fa(1) fb(1) by (simp add: init_meta_page_def)
qed

lemma init_page_spec:
  assumes "16 \<le> length p"
  shows "\<exists>p'. init_page i fl p = Inr p' \<and> length p' = length p \<and> page_id p' = Inr i \<and>
    page_count p' = Inr 0 \<and> page_flag p' = Inr fl \<and> page_overflow p' = page_overflow p \<and> drop 16 p' = drop 16 p"
proof -
  obtain a where a: "set_page_id i p = Inr a" using set_page_ok(1) [of p i] assms(1) by auto
  note fa = set_page_id_frame [OF a]
  obtain b where b: "set_page_count 0 a = Inr b"
    using set_page_ok(3) [of a 0] assms(1) fa(1) by auto
  note fb = set_page_count_frame [OF b]
  obtain c where c: "set_page_flag fl b = Inr c"
    using set_page_ok(2) [of b fl] assms(1) fa(1) fb(1) by auto
  note fc = set_page_flag_frame [OF c]
  have "drop 16 c = drop 16 p"
    using fa(1,6) fb(1,6) fc(1,6) by (intro drop_eqI) simp_all
  then show ?thesis using a b c fa fb fc by (simp add: init_page_def)
qed

text \<open>Working on a page keeps everything before it.\<close>

lemma on_page_spec:
  assumes "f (drop base buf) = Inr q" and "base \<le> length buf"
  shows "\<exists>buf'. on_page base f buf = Inr buf' \<and> take base buf' = take base buf \<and> drop base buf' = q"
  using assms by (simp add: on_page_def)

lemma page_offset_no_wrap:
  fixes ps :: u32
  assumes "unat ps < 2 ^ 29" and "i \<le> 4"
  shows "unat (of_nat i * ucast ps :: u64) = i * unat ps" and "unat (ps * 4) = 4 * unat ps"
proof -
  have "i * unat ps \<le> 4 * unat ps" using assms(2) by (rule mult_le_mono1)
  moreover have "4 * unat ps < 2 ^ 64" using assms(1) by simp
  ultimately have "i * unat ps < 2 ^ 64" by (rule le_less_trans)
  then show "unat (of_nat i * ucast ps :: u64) = i * unat ps"
    using assms(2) by (simp add: unat_word_ariths unat_of_nat)
  show "unat (ps * 4) = 4 * unat ps" using assms(1) by (simp add: unat_word_ariths)
qed

text \<open>Page \<open>i\<close> of an image.\<close>

definition image_page :: "u32 \<Rightarrow> nat \<Rightarrow> buffer \<Rightarrow> buffer" where
  "image_page ps i buf = drop (i * unat ps) buf"

lemma pageInBuffer_ok:
  assumes "unat ps < 2 ^ 29" and "i < 4" and "0 < unat ps"
  shows "pageInBuffer ps (4 * unat ps) (of_nat i) = Inr (i * unat ps)"
  using page_offset_no_wrap(1) [OF assms(1), of i] assms(2,3)
  by (simp add: pageInBuffer_def Let_def)

text \<open>One page of the image is written: the pages before and after it stay.\<close>

lemma on_image_page:
  assumes "f (image_page ps i buf) = Inr q" and "length q = length (image_page ps i buf)"
    and "drop k q = drop k (image_page ps i buf)" and "k \<le> unat ps" and "i < 4" and "length buf = 4 * unat ps"
  shows "\<exists>buf'. on_page (i * unat ps) f buf = Inr buf' \<and> length buf' = length buf \<and>
    image_page ps i buf' = q \<and>
    (\<forall>j. i < j \<longrightarrow> image_page ps j buf' = image_page ps j buf) \<and>
    (\<forall>j. j < i \<longrightarrow> take (unat ps) (image_page ps j buf') = take (unat ps) (image_page ps j buf))"
proof -
  let ?b = "i * unat ps"
  have le: "?b \<le> length buf" using assms(5,6) by simp
  let ?buf' = "take ?b buf @ q"
  have lq: "length q = length buf - ?b" using assms(2) by (simp add: image_page_def)
  have "image_page ps j ?buf' = image_page ps j buf" if "i < j" for j
  proof -
    have "k \<le> j * unat ps - ?b"
      using that assms(4) by (metis diff_mult_distrib mult_le_mono1 nat_mult_1 order_trans Suc_leI zero_less_diff One_nat_def)
    then have "drop (j * unat ps - ?b) q = drop (j * unat ps - ?b) (image_page ps i buf)"
      using assms(3) by (metis drop_drop le_add_diff_inverse2)
    moreover have "?b \<le> j * unat ps" using that by simp
    ultimately show ?thesis using le by (simp add: image_page_def)
  qed
  moreover have "take (unat ps) (image_page ps j ?buf') = take (unat ps) (image_page ps j buf)" if "j < i" for j
  proof -
    have "Suc j * unat ps \<le> ?b" using that by (intro mult_le_mono1) simp
    then have "j * unat ps + unat ps \<le> ?b" by simp
    then show ?thesis using le by (simp add: image_page_def take_drop min_def)
  qed
  ultimately show ?thesis
    using assms(1) le lq by (simp add: on_page_def image_page_def)
qed

lemma read_bytes_take:
  "off + k \<le> n \<Longrightarrow> n \<le> length p \<Longrightarrow> read_bytes (take n p) off k = read_bytes p off k"
  by (simp add: read_bytes_def drop_take)

lemma read_meta_cong:
  assumes "take 80 p' = take 80 p" and "80 \<le> length p" and "80 \<le> length p'"
  shows "read_meta p' = read_meta p"
proof -
  have "read_bytes p' off k = read_bytes p off k" if "off + k \<le> 80" for off k
    using read_bytes_take [OF that assms(2)] read_bytes_take [OF that assms(3)] assms(1) by simp
  then show ?thesis
    by (simp add: read_meta_def read_bucketHeader_def get_defs metaPtr_def PAGEHEADERSIZE_def)
qed

lemma read_zeros: "off + k \<le> n \<Longrightarrow> read_bytes (replicate n 0) off k = Inr (replicate k 0)"
  by (simp add: read_bytes_def)

lemma overflow_zeros: "16 \<le> n \<Longrightarrow> page_overflow (replicate n 0) = Inr 0"
  using read_zeros [of 12 4 n] by (simp add: header_defs get_defs numeral_eq_Suc)

lemma image_page_zeros: "image_page ps i (replicate n 0) = replicate (n - i * unat ps) 0"
  by (simp add: image_page_def)

lemma take_le_eq: "take k p = take k q \<Longrightarrow> j \<le> k \<Longrightarrow> take j p = take j q"
  by (metis min.absorb1 take_take)

lemma init_image_spec:
  assumes "80 \<le> unat ps" and "unat ps < 2 ^ 29"
  shows "\<exists>img. init_image ps = Inr img \<and> length img = 4 * unat ps \<and>
    read_meta (image_page ps 0 img) = Inr (init_meta_of ps 0) \<and>
    read_meta (image_page ps 1 img) = Inr (init_meta_of ps 1) \<and>
    page_id (image_page ps 2 img) = Inr 2 \<and> page_count (image_page ps 2 img) = Inr 0 \<and>
    page_flag (image_page ps 2 img) = Inr freelistPageFlag \<and> page_overflow (image_page ps 2 img) = Inr 0 \<and>
    page_id (image_page ps 3 img) = Inr 3 \<and> page_count (image_page ps 3 img) = Inr 0 \<and>
    page_flag (image_page ps 3 img) = Inr leafPageFlag \<and> page_overflow (image_page ps 3 img) = Inr 0"
proof -
  let ?n = "unat ps" and ?z = "replicate (4 * unat ps) (0 :: byte)"
  have ok: "pageInBuffer ps (4 * ?n) (of_nat i) = Inr (i * ?n)" if "i < 4" for i
    using pageInBuffer_ok [OF assms(2) that] assms(1) by simp
  obtain q0 where q0: "init_meta_page ps 0 (image_page ps 0 ?z) = Inr q0" "length q0 = 4 * ?n"
      "read_meta q0 = Inr (init_meta_of ps 0)" "drop 80 q0 = drop 80 (image_page ps 0 ?z)"
    using init_meta_page_spec [of "image_page ps 0 ?z" ps 0] assms(1)
    by (auto simp: image_page_zeros read_zeros numeral_eq_Suc)
  obtain b0 where b0: "on_page (0 * ?n) (init_meta_page ps 0) ?z = Inr b0" "length b0 = 4 * ?n"
      "image_page ps 0 b0 = q0" "\<And>j. 0 < j \<Longrightarrow> image_page ps j b0 = image_page ps j ?z"
    using on_image_page [of "init_meta_page ps 0" ps 0 ?z q0 80] q0 assms(1) by (auto simp: image_page_zeros)
  obtain q1 where q1: "init_meta_page ps 1 (image_page ps 1 b0) = Inr q1" "length q1 = 3 * ?n"
      "read_meta q1 = Inr (init_meta_of ps 1)" "drop 80 q1 = drop 80 (image_page ps 1 b0)"
    using init_meta_page_spec [of "image_page ps 1 b0" ps 1] assms(1)
    by (auto simp: b0(4) image_page_zeros read_zeros numeral_eq_Suc)
  obtain b1 where b1: "on_page (1 * ?n) (init_meta_page ps 1) b0 = Inr b1" "length b1 = 4 * ?n"
      "image_page ps 1 b1 = q1" "\<And>j. 1 < j \<Longrightarrow> image_page ps j b1 = image_page ps j b0"
      "take ?n (image_page ps 0 b1) = take ?n q0"
    using on_image_page [of "init_meta_page ps 1" ps 1 b0 q1 80] q1 b0 assms(1) by (auto simp: image_page_zeros)
  obtain q2 where q2: "init_page 2 freelistPageFlag (image_page ps 2 b1) = Inr q2" "length q2 = 2 * ?n"
      "page_id q2 = Inr 2" "page_count q2 = Inr 0" "page_flag q2 = Inr freelistPageFlag" "page_overflow q2 = Inr 0"
      "drop 16 q2 = drop 16 (image_page ps 2 b1)"
    using init_page_spec [of "image_page ps 2 b1" 2 freelistPageFlag] assms(1)
    by (auto simp: b1(4) b0(4) image_page_zeros overflow_zeros)
  obtain b2 where b2: "on_page (2 * ?n) (init_page 2 freelistPageFlag) b1 = Inr b2" "length b2 = 4 * ?n"
      "image_page ps 2 b2 = q2" "image_page ps 3 b2 = image_page ps 3 b1"
      "\<And>j. j < 2 \<Longrightarrow> take ?n (image_page ps j b2) = take ?n (image_page ps j b1)"
    using on_image_page [of "init_page 2 freelistPageFlag" ps 2 b1 q2 16] q2 b0(4) b1(2,4) assms(1)
    by (auto simp: image_page_zeros)
  obtain q3 where q3: "init_page 3 leafPageFlag (image_page ps 3 b2) = Inr q3" "length q3 = ?n"
      "page_id q3 = Inr 3" "page_count q3 = Inr 0" "page_flag q3 = Inr leafPageFlag" "page_overflow q3 = Inr 0"
      "drop 16 q3 = drop 16 (image_page ps 3 b2)"
    using init_page_spec [of "image_page ps 3 b2" 3 leafPageFlag] assms(1)
    by (auto simp: b2(4) b1(4) b0(4) image_page_zeros overflow_zeros)
  obtain b3 where b3: "on_page (3 * ?n) (init_page 3 leafPageFlag) b2 = Inr b3" "length b3 = 4 * ?n"
      "image_page ps 3 b3 = q3" "\<And>j. j < 3 \<Longrightarrow> take ?n (image_page ps j b3) = take ?n (image_page ps j b2)"
    using on_image_page [of "init_page 3 leafPageFlag" ps 3 b2 q3 16] q3 b0(4) b1(4) b2(2,4) assms(1)
    by (auto simp: image_page_zeros)
  have len: "length (image_page ps j b3) = (4 - j) * ?n" for j
    using b3(2) by (simp add: image_page_def diff_mult_distrib)
  have t0: "take ?n (image_page ps 0 b3) = take ?n q0" and t1: "take ?n (image_page ps 1 b3) = take ?n q1"
    using b3(4) [of 0] b3(4) [of 1] b2(5) [of 0] b2(5) [of 1] b1(3,5) by simp_all
  have t2: "take ?n (image_page ps 2 b3) = take ?n q2" using b3(4) [of 2] b2(3) by simp
  have "read_meta (image_page ps 0 b3) = read_meta q0" "read_meta (image_page ps 1 b3) = read_meta q1"
    using take_le_eq [OF t0, of 80] take_le_eq [OF t1, of 80] len [of 0] len [of 1] q0(2) q1(2) assms(1)
    by (intro read_meta_cong; simp)+
  moreover have "read_bytes (image_page ps 2 b3) off k = read_bytes q2 off k" if "off + k \<le> 16" for off k
    using read_bytes_take [of off k ?n "image_page ps 2 b3"] read_bytes_take [of off k ?n q2] t2 that
      len [of 2] q2(2) assms(1) by simp
  note header_cong [OF this]
  moreover have "init_image ps = Inr b3"
    using ok [of 0] ok [of 1] ok [of 2] ok [of 3] b0(1) b1(1) b2(1) b3(1) page_offset_no_wrap(2) [OF assms(2), of 0]
    by (simp add: init_image_def Let_def)
  ultimately show ?thesis using q0(3) q1(3) q2 q3 b3 by simp
qed

lemma validate_init_meta: "validate (init_meta_of ps i)"
  by (simp add: validate_def init_meta_of_def)

lemma freeList_read_empty: "page_count p = Inr 0 \<Longrightarrow> freeList_read p f = Inr (reindex (f\<lparr>ids := []\<rparr>))"
  by (simp add: freeList_read_def)

lemma getMeta_init: "getMeta (init_meta_of ps 0) (init_meta_of ps 1) = Inr (init_meta_of ps 1)"
  using validate_init_meta [of ps 1] by (simp add: getMeta_def) (simp add: init_meta_of_def)

text \<open>
  C21: The image that \<open>DB::Init\<close> writes, for every page size from 80 bytes to 512 MiB, is an empty
  database: four pages, both metas valid with the one of transaction 1 current, a freelist page that
  reads as an empty list, and a root page 3 that reads as a leaf without entries.
\<close>

theorem init_image_correct:
  assumes "80 \<le> unat ps" and "unat ps < 2 ^ 29"
  shows "\<exists>img m0 m1. init_image ps = Inr img \<and> length img = 4 * unat ps \<and>
    read_meta (image_page ps 0 img) = Inr m0 \<and> read_meta (image_page ps 1 img) = Inr m1 \<and>
    validate m0 \<and> validate m1 \<and> getMeta m0 m1 = Inr m1 \<and> meta_ok m1 \<and> meta_txid m1 = 1 \<and>
    freeList_read (image_page ps (unat (freeListPageNumber m1)) img) freeList_new = Inr freeList_new \<and>
    Node_read (image_page ps (unat (bh_root (meta_root m1))) img) (Node_new b None) =
      Inr ((Node_new b None)\<lparr>node_pageId := 3, isLeaf := True\<rparr>)"
proof -
  obtain img where img: "init_image ps = Inr img" "length img = 4 * unat ps"
      "read_meta (image_page ps 0 img) = Inr (init_meta_of ps 0)"
      "read_meta (image_page ps 1 img) = Inr (init_meta_of ps 1)"
      "page_count (image_page ps 2 img) = Inr 0"
      "page_id (image_page ps 3 img) = Inr 3" "page_count (image_page ps 3 img) = Inr 0"
      "page_flag (image_page ps 3 img) = Inr leafPageFlag"
    using init_image_spec [OF assms] by blast
  have "reindex (freeList_new\<lparr>ids := []\<rparr>) = freeList_new"
    by (simp add: reindex_def freeList_new_def Let_def)
  moreover have "leafPageFlag AND leafPageFlag \<noteq> 0" by (simp add: leafPageFlag_def)
  moreover have "unat (freeListPageNumber (init_meta_of ps 1)) = 2" "unat (bh_root (meta_root (init_meta_of ps 1))) = 3"
    "meta_txid (init_meta_of ps 1) = 1" "meta_ok (init_meta_of ps 1)"
    by (simp_all add: init_meta_of_def meta_ok_def)
  ultimately show ?thesis
    using img validate_init_meta getMeta_init [of ps]
    by (intro exI [of _ img] exI [of _ "init_meta_of ps 0"] exI [of _ "init_meta_of ps 1"])
      (simp add: freeList_read_empty Node_read_def resize_def Node_new_def Item_reset_def Item_default_def)
qed

theorem init_image_correct_witness:
  "\<exists>img m1. init_image 4096 = Inr img \<and> length img = 16384 \<and>
     read_meta (image_page 4096 1 img) = Inr m1 \<and> meta_txid m1 = 1"
  using init_image_correct [of 4096 "BucketPtr 0"] by auto

section \<open>Opening a new file\<close>

text \<open>An environment in which every system call succeeds and every write is complete.\<close>

definition env_ok :: "environ \<Rightarrow> bool" where
  "env_ok e \<longleftrightarrow> (\<forall>n. sys_ok e n) \<and> (\<forall>n len. sys_pwrite e n len = Some len)"

lemma syscall_ok [act_simps]: "env_ok (env w) \<Longrightarrow> syscall w = Inr (True, w\<lparr>clock := Suc (clock w)\<rparr>)"
  by (simp add: syscall_def env_ok_def)

lemma writeAt_ok [act_simps]:
  "env_ok (env w) \<Longrightarrow> writeAt bs off w =
     Inr (Some (length bs), w\<lparr>clock := Suc (clock w), disk := file_write bs off (disk w)\<rparr>)"
  by (simp add: writeAt_def env_ok_def)

text \<open>A database object before \<open>Open\<close>: nothing mapped, no lock held.\<close>

definition fresh_db :: "world \<Rightarrow> bool" where
  "fresh_db w \<longleftrightarrow> fd w = 0 \<and> \<not> mapped w \<and> \<not> rwLock w \<and> \<not> metaLock w \<and> \<not> mmapWriter w \<and>
     mmapReaders w = 0 \<and> \<not> readOnly w \<and> freelist w = freeList_new"

lemma DB_new_fresh: "fresh_db (DB_new garbage)"
  by (simp add: fresh_db_def DB_new_def)

definition default_options :: options where
  "default_options = \<lparr>opt_NoGrowSync = False, opt_ReadOnly = False, opt_InitialMMapSize = 0\<rparr>"

lemma page_meta_apply:
  "page_meta i w = and_then (page_bytes w (MapPage (mapGen w) i)) (\<lambda>b. and_then (read_meta b) (\<lambda>m. Inr (m, w)))"
  by (cases "page_bytes w (MapPage (mapGen w) i)")
    (simp_all add: page_meta_def getPagePtr_def act_simps)

text \<open>A remap that succeeds: the new mapping shows at least one valid meta.\<close>

lemma initMeta_ok:
  assumes "env_ok (env w)" and "\<not> mmapWriter w" and "mmapReaders w = 0"
    and "pageSize w * 2 \<le> filesz w" and "getMmapSize (max (filesz w) sz) = Inr (0, s)"
    and "read_meta (take (nat (sint s)) (disk w)) = Inr m0"
    and "read_meta (drop (map_offset w 1) (take (nat (sint s)) (disk w))) = Inr m1"
    and "validate m0 \<or> validate m1"
  shows "initMeta sz w = Inr (0, w\<lparr>clock := (if mapped w then 2 else 1) + clock w, mapped := True,
    mapGen := Suc (mapGen w), datasz := sint s, mmapWriter := False\<rparr>)"
  using assms
  by (cases "mapped w")
    (auto simp: initMeta_def act_simps getMmapWLock_def not_less DbMunmap_def mmapDbFile_def page_meta_apply
      map_offset_def unlockMmapLock_def)

text \<open>
  C17: Opening a new, empty file with 4096-byte pages, when every system call succeeds, returns 0
  and leaves a usable database: the file holds the initial image, 32 KiB are mapped, the current
  meta is that of transaction 1, no page is free and no lock is held.
\<close>

theorem open_new_database:
  assumes "fresh_db w" and "env_ok (env w)" and "getpagesize (env w) = 4096" and "disk w = []"
  shows "\<exists>w'. DB_Open default_options w = Inr (0, w') \<and> init_image 4096 = Inr (disk w') \<and>
    mapped w' \<and> datasz w' = 32768 \<and> opened w' \<and> pageSize w' = 4096 \<and> filesz w' = 16384 \<and>
    DB_getMeta w' = Inr (init_meta_of 4096 1, w') \<and> freelist w' = freeList_new \<and>
    \<not> rwLock w' \<and> \<not> metaLock w' \<and> \<not> mmapWriter w' \<and> mmapReaders w' = 0"
proof -
  obtain img where img: "init_image 4096 = Inr img" "length img = 16384"
      "read_meta (image_page 4096 0 img) = Inr (init_meta_of 4096 0)"
      "read_meta (image_page 4096 1 img) = Inr (init_meta_of 4096 1)"
      "page_count (image_page 4096 2 img) = Inr 0"
    using init_image_spec [of 4096] by auto
  have r0: "read_meta (take 4096 img) = Inr (init_meta_of 4096 0)"
    using read_meta_cong [of "take 4096 img" img] img(2,3) by (simp add: image_page_def)
  have fw: "file_write img 0 [] = img" using img(2) by (auto simp: file_write_def)
  have sz: "getMmapSize (max 16384 0) = Inr (0, 32768)"
    by (simp add: getMmapSize_def upt_rec)
  have init: "initMeta 0 v = Inr (0, v\<lparr>clock := (if mapped v then 2 else 1) + clock v, mapped := True,
      mapGen := Suc (mapGen v), datasz := 32768, mmapWriter := False\<rparr>)"
    if "env_ok (env v)" "\<not> mmapWriter v" "mmapReaders v = 0" "pageSize v = 4096" "filesz v = 16384" "disk v = img" for v
    using initMeta_ok [of v 0 32768 "init_meta_of 4096 0" "init_meta_of 4096 1"] that sz img
      validate_init_meta [of 4096 1] by (simp add: image_page_def map_offset_def)
  have fl: "freeList_read (drop 8192 img) freeList_new = Inr freeList_new"
    using img(5) freeList_read_empty [of "drop 8192 img" freeList_new]
    by (simp add: image_page_def reindex_def freeList_new_def)
  have num: "freeListPageNumber (init_meta_of 4096 1) = 2" by (simp add: init_meta_of_def)
  show ?thesis
    using assms img r0 validate_init_meta [of 4096 0] getMeta_init [of 4096] fw
    by (simp add: DB_Open_def default_options_def fresh_db_def act_simps DB_Init_def init
        GetFileSize_def DB_getMeta_def page_meta_apply getPagePtr_def map_offset_def image_page_def fl num
        DEFAULTPAGESIZE_def)
qed

definition env_example :: environ where
  "env_example = \<lparr>sys_ok = (\<lambda>_. True), sys_pwrite = (\<lambda>_ len. Some len), getpagesize = 4096,
     junk = (\<lambda>_ _. []), address = (\<lambda>p. case p of NodePtr a \<Rightarrow> a), page_address = (\<lambda>a. of_nat a),
     stack_address = 0\<rparr>"

definition world_example :: world where
  "world_example = \<lparr>env = env_example, clock = 0, nodeHeap = Map.empty, bucketHeap = Map.empty,
     txHeap = Map.empty, pageHeap = Map.empty, nextPtr = 0, disk = [], fd = 0, mapped = False, mapGen = 0,
     datasz = 0, filesz = 0, pageSize = 0, opened = False, readOnly = False, NoSync = False,
     NoGrowSync = False, AllocSize = 0, rwtx = None, txs = [], freelist = freeList_new, rwLock = False,
     metaLock = False, mmapReaders = 0, mmapWriter = False\<rparr>"

lemma env_example_ok: "env_ok env_example"
  by (simp add: env_ok_def env_example_def)

theorem open_new_database_witness:
  "\<exists>w'. DB_Open default_options world_example = Inr (0, w') \<and> datasz w' = 32768 \<and> opened w'"
proof -
  have "fresh_db world_example" "env_ok (env world_example)" "getpagesize (env world_example) = 4096"
    "disk world_example = []"
    by (simp_all add: fresh_db_def world_example_def env_example_ok) (simp add: env_example_def)
  from open_new_database [OF this] show ?thesis by blast
qed

section \<open>Allocation\<close>

lemma new_page_apply [act_simps]:
  "new_page len w = Inr (HeapPage (nextPtr w), w\<lparr>nextPtr := Suc (nextPtr w),
     pageHeap := (pageHeap w)(nextPtr w \<mapsto> take len (junk (env w) (nextPtr w) len @ replicate len 0))\<rparr>)"
  by (simp add: new_page_def Let_def)

lemma upd_page_apply [act_simps]:
  "pageHeap w a = Some b \<Longrightarrow> f b = Inr b' \<Longrightarrow>
     upd_page (HeapPage a) f w = Inr ((), w\<lparr>pageHeap := (pageHeap w)(a \<mapsto> b')\<rparr>)"
  by (simp add: upd_page_def act_simps)

text \<open>The write transaction and its copy of the meta.\<close>

definition writer :: "world \<Rightarrow> tx_ptr \<Rightarrow> tx \<Rightarrow> meta \<Rightarrow> bool" where
  "writer w t tt m \<longleftrightarrow> rwtx w = Some t \<and> txHeap w t = Some tt \<and> metaData tt = Some m"

lemma set_page_overflow_frame:
  assumes "set_page_overflow x p = Inr p'"
  shows "length p' = length p" and "page_overflow p' = Inr x"
  using assms by (auto simp: header_defs buffer_simps length_set)

lemma fresh_header:
  assumes "16 \<le> length b"
  shows "\<exists>b1. set_page_overflow ov b = Inr b1 \<and> length b1 = length b \<and>
    (\<forall>pid. \<exists>b2. set_page_id pid b1 = Inr b2 \<and> length b2 = length b \<and> page_id b2 = Inr pid \<and>
       page_overflow b2 = Inr ov)"
proof -
  obtain b1 where b1: "set_page_overflow ov b = Inr b1" using set_page_ok(4) [OF assms] by blast
  note f1 = set_page_overflow_frame [OF b1]
  have "\<exists>b2. set_page_id pid b1 = Inr b2 \<and> length b2 = length b \<and> page_id b2 = Inr pid \<and> page_overflow b2 = Inr ov" for pid
  proof -
    obtain b2 where b2: "set_page_id pid b1 = Inr b2" using set_page_ok(1) [of b1 pid] assms f1(1) by auto
    show ?thesis using b2 set_page_id_frame [OF b2] f1 by simp
  qed
  then show ?thesis using b1 f1(1) by blast
qed

lemma DB_allocate_spec:
  assumes "writer w t tt m" and "n < 0x1000" and "16 \<le> unat (n * pageSize w)"
    and "freeList_allocate n (freelist w) = Inr (pg, f')"
    and "pg = 0 \<Longrightarrow> to_int ((totalPageNumber m + ucast n + 1) * ucast (pageSize w)) \<le> datasz w"
  defines "pid \<equiv> if pg = 0 then totalPageNumber m else pg"
    and "m' \<equiv> if pg = 0 then m\<lparr>totalPageNumber := totalPageNumber m + ucast n\<rparr> else m"
  shows "\<exists>b w'. DB_allocate n w = Inr (Some (HeapPage (nextPtr w)), w') \<and>
    w' = w\<lparr>nextPtr := Suc (nextPtr w), pageHeap := (pageHeap w)(nextPtr w \<mapsto> b), freelist := f',
           txHeap := (txHeap w)(t \<mapsto> tt\<lparr>metaData := Some m'\<rparr>)\<rparr> \<and>
    length b = unat (n * pageSize w) \<and> page_id b = Inr pid \<and> page_overflow b = Inr (n - 1)"
proof -
  let ?len = "unat (n * pageSize w)"
  let ?b0 = "take ?len (junk (env w) (nextPtr w) ?len @ replicate ?len 0)"
  have l0: "length ?b0 = ?len" by simp
  have "16 \<le> length ?b0" unfolding l0 by (rule assms(3))
  then obtain b1 b2 where b1: "set_page_overflow (n - 1) ?b0 = Inr b1" and
      b2: "set_page_id pid b1 = Inr b2" "length b2 = length ?b0" "page_id b2 = Inr pid" "page_overflow b2 = Inr (n - 1)"
    using fresh_header [of ?b0 "n - 1"] by blast
  have heap: "txHeap w = (txHeap w)(t \<mapsto> tt\<lparr>metaData := Some m\<rparr>)"
    using assms(1) by (auto simp: writer_def)
  have "DB_allocate n w = Inr (Some (HeapPage (nextPtr w)),
      w\<lparr>nextPtr := Suc (nextPtr w), pageHeap := (pageHeap w)(nextPtr w \<mapsto> b2), freelist := f',
        txHeap := (txHeap w)(t \<mapsto> tt\<lparr>metaData := Some m'\<rparr>)\<rparr>)"
  proof (cases "pg = 0")
    case True
    then show ?thesis
      using assms(1,2,4,5) b1 b2(1) heap
      by (simp add: DB_allocate_def act_simps writer_def tx_meta_def upd_meta_def upd_tx_def Let_def pid_def m'_def not_less)
  next
    case False
    then show ?thesis
      using assms(1,2,4) b1 b2(1) heap
      by (simp add: DB_allocate_def act_simps writer_def pid_def m'_def)
  qed
  then show ?thesis using b2(2-4) unfolding l0 by blast
qed

text \<open>Every page the allocator manages, and every page of a run, is below the page count.\<close>

definition pages_below :: "freeList \<Rightarrow> pgid \<Rightarrow> bool" where
  "pages_below f hi \<longleftrightarrow> (\<forall>q \<in> set (ids f) \<union> set (pending_ids f). q < hi)"

lemma run_above:
  assumes "unat hi + n < 2 ^ 64" and "q \<in> set (page_run hi n)"
  shows "hi \<le> q" and "q < hi + of_nat n"
proof -
  obtain j where j: "j < n" "q = hi + of_nat j" using assms(2) by (auto simp: set_page_run)
  have "unat (hi + of_nat k) = unat hi + k" if "k \<le> n" for k
    using assms(1) that by (simp add: unat_word_ariths unat_of_nat)
  from this [of j] this [of n] j show "hi \<le> q" "q < hi + of_nat n"
    by (simp_all add: word_le_nat_alt word_less_nat_alt)
qed

lemma of_nat_unat_u32: "(of_nat (unat (n :: u32)) :: u64) = ucast n"
  by (simp add: of_nat_unat)

text \<open>
  What an allocation of \<open>n\<close> pages from \<open>pid\<close> on does to the freelist \<open>f\<close> and the meta \<open>m\<close>: the pages come
  from the free ones or from behind the end, and belong to nobody afterwards.
\<close>

definition fresh_run :: "freeList \<Rightarrow> meta \<Rightarrow> u32 \<Rightarrow> pgid \<Rightarrow> freeList \<Rightarrow> meta \<Rightarrow> bool" where
  "fresh_run f m n pid f' m' \<longleftrightarrow> fl_inv f' \<and> pages_below f' (totalPageNumber m') \<and> set (ids f') \<subseteq> set (ids f) \<and>
     pending f' = pending f \<and> m' = m\<lparr>totalPageNumber := totalPageNumber m'\<rparr> \<and> totalPageNumber m \<le> totalPageNumber m' \<and>
     unat (totalPageNumber m') \<le> unat (totalPageNumber m) + unat n \<and> unat pid + unat n \<le> unat (totalPageNumber m') \<and>
     (\<forall>q \<in> set (page_run pid (unat n)). q < totalPageNumber m' \<and> q \<notin> set (ids f') \<and> q \<notin> set (pending_ids f') \<and>
        (q \<in> set (ids f) \<or> totalPageNumber m \<le> q))"

lemma alloc_result_fresh:
  assumes "fl_inv f" and "pages_below f (totalPageNumber m)" and "0 < unat n" and "unat (totalPageNumber m) + unat n < 2 ^ 64"
    and "alloc_result f (unat n) pg f'"
  shows "fresh_run f m n (if pg = 0 then totalPageNumber m else pg) f'
    (if pg = 0 then m\<lparr>totalPageNumber := totalPageNumber m + ucast n\<rparr> else m)"
proof -
  have inv': "fl_inv f'" by (rule alloc_result_inv [OF assms(1,5)])
  show ?thesis
  proof (cases "pg = 0")
    case True
    have sum: "unat (totalPageNumber m + of_nat (unat n)) = unat (totalPageNumber m) + unat n"
      using assms(4) by (simp add: unat_word_ariths unat_of_nat)
    then have top: "totalPageNumber m < totalPageNumber m + of_nat (unat n)" using assms(3) by (simp add: word_less_nat_alt)
    show ?thesis
      using True assms(2,5) inv' top sum run_above [OF assms(4)] less_trans [OF _ top]
      by (auto simp: fresh_run_def alloc_result_def pages_below_def of_nat_unat_u32 dest: leD)
  next
    case False
    have run: "set (page_run pg (unat n)) \<subseteq> set (ids f)" using False assms(5) by (simp add: alloc_result_def)
    obtain k where k: "consec (ids f) k (unat n)" "ids f ! k = pg"
      using page_run_consec [OF fl_inv_ids(1) [OF assms(1)] _ assms(3) run] fl_inv_ids(2) [OF assms(1)] by auto
    have "k + (unat n - 1) < length (ids f)" using k(1) assms(3) by (auto simp: consec_def)
    then have "ids f ! (k + (unat n - 1)) < totalPageNumber m" using assms(2) by (auto simp: pages_below_def)
    then have last: "unat pg + unat n \<le> unat (totalPageNumber m)"
      using consecD [OF k(1), of "unat n - 1"] k(2) assms(3) by (simp add: word_less_nat_alt)
    have "distinct (ids f @ pending_ids f)" using assms(1) by (simp add: fl_inv_def)
    then show ?thesis
      using False run assms(2,5) inv' last by (auto simp: fresh_run_def alloc_result_def pages_below_def pending_ids_def)
  qed
qed

lemma DB_allocate_fresh:
  assumes "writer w t tt m" and "fl_inv (freelist w)" and "pages_below (freelist w) (totalPageNumber m)"
    and "0 < unat n" and "n < 0x1000" and "16 \<le> unat (n * pageSize w)"
    and "unat (totalPageNumber m) + unat n < 2 ^ 64"
    and "to_int ((totalPageNumber m + ucast n + 1) * ucast (pageSize w)) \<le> datasz w"
  obtains b pid f' m' where "fresh_run (freelist w) m n pid f' m'"
    and "DB_allocate n w = Inr (Some (HeapPage (nextPtr w)), w\<lparr>nextPtr := Suc (nextPtr w),
           pageHeap := (pageHeap w)(nextPtr w \<mapsto> b), freelist := f', txHeap := (txHeap w)(t \<mapsto> tt\<lparr>metaData := Some m'\<rparr>)\<rparr>)"
    and "length b = unat (n * pageSize w)" and "page_id b = Inr pid" and "page_overflow b = Inr (n - 1)"
proof -
  obtain pg f' where f': "freeList_allocate n (freelist w) = Inr (pg, f')"
    and res: "alloc_result (freelist w) (unat n) pg f'"
    using freeList_allocate_spec [OF assms(2,4)] by blast
  show thesis
    using DB_allocate_spec [OF assms(1,5,6) f' assms(8)] alloc_result_fresh [OF assms(2,3,4,7) res]
    by (elim exE conjE) (rule that, auto)
qed

text \<open>
  C18: \<open>DB::allocate\<close> hands out pages nobody else owns. With a well-formed freelist whose pages
  are below the page count and a mapping that is large enough, it returns a buffer of
  \<open>numPages\<close> pages with the id and the overflow in its header; the pages of that run are not
  free and not pending afterwards, all pages stay below the (possibly raised) page count, and the
  freelist stays well-formed.
\<close>

theorem allocate_fresh_pages:
  assumes "writer w t tt m" and "fl_inv (freelist w)" and "pages_below (freelist w) (totalPageNumber m)"
    and "0 < unat n" and "n < 0x1000" and "16 \<le> unat (n * pageSize w)"
    and "unat (totalPageNumber m) + unat n < 2 ^ 64"
    and "to_int ((totalPageNumber m + ucast n + 1) * ucast (pageSize w)) \<le> datasz w"
  shows "\<exists>p w' b pid m'. DB_allocate n w = Inr (Some p, w') \<and> page_bytes w' p = Inr b \<and>
    length b = unat (n * pageSize w) \<and> page_id b = Inr pid \<and> page_overflow b = Inr (n - 1) \<and>
    writer w' t (tt\<lparr>metaData := Some m'\<rparr>) m' \<and> fl_inv (freelist w') \<and>
    pages_below (freelist w') (totalPageNumber m') \<and>
    (\<forall>q \<in> set (page_run pid (unat n)). q < totalPageNumber m' \<and>
       q \<notin> set (ids (freelist w')) \<and> q \<notin> set (pending_ids (freelist w')))"
proof -
  obtain b pid f' m' where a: "fresh_run (freelist w) m n pid f' m'"
      "DB_allocate n w = Inr (Some (HeapPage (nextPtr w)), w\<lparr>nextPtr := Suc (nextPtr w),
           pageHeap := (pageHeap w)(nextPtr w \<mapsto> b), freelist := f', txHeap := (txHeap w)(t \<mapsto> tt\<lparr>metaData := Some m'\<rparr>)\<rparr>)"
      "length b = unat (n * pageSize w)" "page_id b = Inr pid" "page_overflow b = Inr (n - 1)"
    by (rule DB_allocate_fresh [OF assms]) (rule that)
  show ?thesis
    using a assms(1) unfolding a(2) fresh_run_def by (intro exI [of _ b] exI [of _ pid] exI [of _ m'] exI conjI) (auto simp: writer_def)
qed

definition tx_example :: tx where
  "tx_example = \<lparr>writable = True, managed = False, tx_db = True, metaData = Some (init_meta_of 4096 2),
     rootBucket = None, dirtyPageTable = [], cursorCount = 0, nodeCount = 0, pageCount = 0, pageAlloc = 0\<rparr>"

definition world_writer :: world where
  "world_writer = world_example\<lparr>txHeap := [TxPtr 1 \<mapsto> tx_example], rwtx := Some (TxPtr 1), pageSize := 4096,
     datasz := 32768, nextPtr := 5\<rparr>"

theorem allocate_fresh_pages_witness:
  "\<exists>p w'. DB_allocate 2 world_writer = Inr (Some p, w') \<and> fl_inv (freelist w')"
proof -
  have w: "writer world_writer (TxPtr 1) tx_example (init_meta_of 4096 2)"
    by (simp add: writer_def world_writer_def tx_example_def)
  have f: "freelist world_writer = freeList_new" "pageSize world_writer = 4096" "datasz world_writer = 32768"
    by (simp_all add: world_writer_def world_example_def)
  have "fl_inv (freelist world_writer)" "pages_below (freelist world_writer) (totalPageNumber (init_meta_of 4096 2))"
    using fl_inv_new by (simp_all add: f pages_below_def)
  moreover have "to_int ((totalPageNumber (init_meta_of 4096 2) + ucast (2 :: u32) + 1) * ucast (pageSize world_writer)) \<le> datasz world_writer"
    by (simp add: f init_meta_of_def to_int_def)
  moreover have "unat (totalPageNumber (init_meta_of 4096 2)) + unat (2 :: u32) < 2 ^ 64"
    by (simp add: init_meta_of_def)
  ultimately show ?thesis using allocate_fresh_pages [OF w, of 2] f by auto
qed

section \<open>Growing\<close>

lemma unat_word_of_int: "0 \<le> k \<Longrightarrow> k < 2 ^ 32 \<Longrightarrow> unat (word_of_int k :: u32) = nat k"
  by (elim nonneg_int_cases) (simp add: unat_of_nat)

text \<open>
  C29: \<open>DB::grow(sz)\<close>, for a size that the mapping covers (which \<open>DB::allocate\<close> sees to) and whose sum with the
  allocation step does not wrap, and whatever the system calls answer, returns 0 or -1, and 0 when they all succeed.
  When it returns 0, the recorded size is at least \<open>sz\<close>; when it returns -1, the recorded size is the old one.
  The file is touched only when the recorded size is smaller than \<open>sz\<close> and neither \<open>NoGrowSync\<close> nor read-only is
  set: then, on success, its length is exactly the recorded size and the bytes it had below that size are kept;
  with \<open>NoGrowSync\<close> or read-only the recorded size grows and the file does not.
\<close>

theorem grow_reaches_size:
  assumes "0 \<le> AllocSize w" and "unat sz \<le> nat (datasz w)" and "0 \<le> datasz w"
    and "datasz w < 2 ^ 31" and "unat sz + nat (AllocSize w) < 2 ^ 32"
  shows "\<exists>rc w'. DB_grow sz w = Inr (rc, w') \<and> rc \<in> {0, - 1} \<and> (env_ok (env w) \<longrightarrow> rc = 0) \<and>
    (if rc = 0 then sz \<le> filesz w' else filesz w' = filesz w) \<and>
    (if filesz w < sz \<and> \<not> NoGrowSync w \<and> \<not> readOnly w
     then rc = 0 \<longrightarrow> length (disk w') = unat (filesz w') \<and> (\<forall>j < min (length (disk w)) (unat (filesz w')). disk w' ! j = disk w ! j)
     else disk w' = disk w)"
proof -
  have d: "unat (word_of_int (datasz w) :: u32) = nat (datasz w)"
    using assms(3,4) by (intro unat_word_of_int) simp_all
  have "nat (AllocSize w) < 2 ^ 32" using assms(5) by simp
  then have "AllocSize w < 2 ^ 32" by simp
  then have "unat (word_of_int (AllocSize w) :: u32) = nat (AllocSize w)"
    using assms(1) by (intro unat_word_of_int) simp_all
  then have a: "unat (sz + word_of_int (AllocSize w)) = unat sz + nat (AllocSize w)"
    using assms(5) by (simp add: unat_add_small)
  have n: "sz \<le> word_of_int (datasz w)" "sz \<le> sz + word_of_int (AllocSize w)" using d a assms(2) by (simp_all add: word_le_nat_alt)
  have trunc: "length (truncate_disk k f) = k" "j < min (length f) k \<Longrightarrow> truncate_disk k f ! j = f ! j" for k f j
    by (auto simp: truncate_disk_def nth_append)
  show ?thesis
  proof (cases "filesz w < sz \<and> \<not> NoGrowSync w \<and> \<not> readOnly w")
    case True
    then show ?thesis
      using n trunc by (auto simp: DB_grow_def act_simps Let_def syscall_def env_ok_def)
  next
    case False
    then show ?thesis using n by (auto simp: DB_grow_def act_simps Let_def)
  qed
qed

theorem grow_reaches_size_witness:
  "\<exists>w'. DB_grow 20480 world_writer = Inr (0, w') \<and> 20480 \<le> filesz w' \<and> length (disk w') = unat (filesz w')"
proof -
  have "env_ok (env world_writer)" "0 \<le> AllocSize world_writer" "datasz world_writer = 32768"
    "AllocSize world_writer = 0" "filesz world_writer = 0" "\<not> NoGrowSync world_writer" "\<not> readOnly world_writer"
    by (simp_all add: world_writer_def world_example_def env_example_ok)
  then show ?thesis using grow_reaches_size [of world_writer 20480] by auto
qed

end
