(* ===== verification/Spare_Pages.thy ===== *)
theory Spare_Pages
  imports Frame Db_Correct
begin

unbundle bit_operations_syntax

text \<open>
  The pages a write transaction may write to. \<open>snap_inv\<close> says of a state within a commit that the free pages
  and the buffers of the dirty pages all lie among the pages that were spare (free, or behind the end of
  the database) when the commit began. Every operation of the transaction keeps it, whatever the tree
  looks like, as an interpretation of \<open>op_frame\<close> shows; the work is in \<open>DB::allocate\<close>.
\<close>

section \<open>Page headers\<close>

definition keeps_header :: "(buffer \<Rightarrow> buffer result) \<Rightarrow> bool" where
  "keeps_header f \<longleftrightarrow> (\<forall>b b'. f b = Inr b' \<longrightarrow> page_id b' = page_id b \<and> page_overflow b' = page_overflow b)"

lemma element_offsets: "16 \<le> leafElementOffset i" "16 \<le> branchElementOffset i"
  by (simp_all add: leafElementOffset_def branchElementOffset_def PAGEHEADERSIZE_def)

lemma write_inodes_header:
  "write_inodes pa ia leaf xs i off p = Inr p' \<Longrightarrow> 16 \<le> off \<Longrightarrow> o' + n \<le> 16 \<Longrightarrow>
     read_bytes p' o' n = read_bytes p o' n"
proof (induction xs arbitrary: i off p)
  case (Cons x xs)
  from Cons.prems(1) obtain p1 kb p2 vb p3 where
    w: "if leaf then setLeafPageElement p i \<lparr>leaf_flag = inode_flag x, leaf_pos = of_nat (off - leafElementOffset i),
             leaf_ksize = item_length (inode_key x), leaf_vsize = item_length (inode_value x)\<rparr> = Inr p1
        else setBranchPageElement p i \<lparr>branch_pos = ucast (pa + of_nat off - ia),
             branch_ksize = item_length (inode_key x), branch_pageId = inode_pageId x\<rparr> = Inr p1"
      "write_bytes p1 off kb = Inr p2" "write_bytes p2 (off + length kb) vb = Inr p3"
      "write_inodes pa ia leaf xs (Suc i) (off + length kb + length vb) p3 = Inr p'"
    by (auto simp: and_then_Inr_iff split: if_splits)
  have "read_bytes p1 o' n = read_bytes p o' n"
    using w(1) element_offsets [of i] Cons.prems(3) setLeafPageElement_frame(2) [of p i _ p1 o' n]
      setBranchPageElement_frame(2) [of p i _ p1 o' n] by (auto split: if_splits)
  then show ?case
    using Cons.IH [OF w(4)] Cons.prems(2,3) read_write_other [OF w(2), of o' n] read_write_other [OF w(3), of o' n] by simp
qed simp

lemma write_ids_header:
  "write_ids p off xs = Inr p' \<Longrightarrow> 16 \<le> off \<Longrightarrow> o' + n \<le> 16 \<Longrightarrow> read_bytes p' o' n = read_bytes p o' n"
  by (induction xs arbitrary: p off) (auto simp: and_then_Inr_iff buffer_simps)

lemma keeps_Node_write: "keeps_header (Node_write pa ia x)"
  unfolding keeps_header_def
proof (intro allI impI)
  fix b b'
  assume "Node_write pa ia x b = Inr b'"
  then obtain a c where a: "or_page_flag (if isLeaf x then leafPageFlag else branchPageFlag) b = Inr a"
    and c: "set_page_count (of_nat (length (inodeList x))) a = Inr c"
    and r: "b' = c \<or> write_inodes pa ia (isLeaf x) (inodeList x) 0 (PAGEHEADERSIZE + length (inodeList x) * pageElementSize x) c = Inr b'"
    by (auto simp: Node_write_def and_then_Inr_iff split: if_splits)
  have "page_id b' = page_id c \<and> page_overflow b' = page_overflow c"
    using r header_cong [OF write_inodes_header] by (auto simp: PAGEHEADERSIZE_def)
  then show "page_id b' = page_id b \<and> page_overflow b' = page_overflow b"
    using or_page_flag_frame(3,4) [OF a] set_page_count_frame(3,5) [OF c] by simp
qed

lemma keeps_freeList_write: "keeps_header (freeList_write fl)"
  unfolding keeps_header_def
proof (intro allI impI)
  fix b b'
  assume "freeList_write fl b = Inr b'"
  then obtain a c n where a: "or_page_flag freelistPageFlag b = Inr a" and c: "set_page_count n a = Inr c"
    and r: "b' = c \<or> write_ids c 16 (copyall fl []) = Inr b' \<or>
      (\<exists>d. set_u64 c 16 (ucast (freeList_count fl)) = Inr d \<and> write_ids d 24 (copyall fl []) = Inr b')"
    by (auto simp: freeList_write_def Let_def and_then_Inr_iff PAGEHEADERSIZE_def split: if_splits)
  have "page_id b' = page_id c \<and> page_overflow b' = page_overflow c" using r
  proof (elim disjE exE conjE)
    fix d
    assume d: "set_u64 c 16 (ucast (freeList_count fl)) = Inr d" "write_ids d 24 (copyall fl []) = Inr b'"
    have "read_bytes b' o' n = read_bytes c o' n" if "o' + n \<le> 16" for o' n
      using write_ids_header [OF d(2), of o' n] set_read_other(3) [OF d(1), of o' n] that by simp
    then show ?thesis using header_cong [of b' c] by blast
  qed (use header_cong [OF write_ids_header] in auto)
  then show "page_id b' = page_id b \<and> page_overflow b' = page_overflow b"
    using or_page_flag_frame(3,4) [OF a] set_page_count_frame(3,5) [OF c] by simp
qed

section \<open>The invariant of a commit\<close>

text \<open>
  \<open>T\<close> is the page count and \<open>S\<close> the set of spare pages (free or behind the end) when the commit began,
  \<open>K\<close> a bound on the objects the process has created by its end. A buffer is spare when its header names
  a run of pages in \<open>S\<close> below the current page count.
\<close>

definition spare_page :: "pgid set \<Rightarrow> pgid \<Rightarrow> world \<Rightarrow> page_ptr \<Rightarrow> bool" where
  "spare_page S n w p \<longleftrightarrow> (\<exists>a b pid ov. p = HeapPage a \<and> a < nextPtr w \<and> pageHeap w a = Some b \<and> page_id b = Inr pid \<and>
     page_overflow b = Inr ov \<and> unat pid + unat ov < unat n \<and> set (page_run pid (Suc (unat ov))) \<subseteq> S)"

text \<open>What a transaction never changes in its meta.\<close>

definition meta_ident :: "meta \<Rightarrow> u32 \<times> u32 \<times> txid" where
  "meta_ident m = (magic m, version m, meta_txid m)"

lemma meta_ident_update [simp]:
  "meta_ident (m\<lparr>totalPageNumber := k\<rparr>) = meta_ident m" "meta_ident (m\<lparr>freeListPageNumber := p\<rparr>) = meta_ident m"
  "meta_ident (m\<lparr>meta_root := h\<rparr>) = meta_ident m" "meta_ident (m\<lparr>checksum := c\<rparr>) = meta_ident m"
  by (simp_all add: meta_ident_def)

definition snap_inv :: "nat \<Rightarrow> pgid set \<Rightarrow> pgid \<Rightarrow> u32 \<Rightarrow> u32 \<times> u32 \<times> txid \<Rightarrow> tx_ptr \<Rightarrow> world \<Rightarrow> bool" where
  "snap_inv K S T ps tid t w \<longleftrightarrow> rwtx w = Some t \<and> pageSize w = ps \<and> ps \<noteq> 0 \<and>
     ascending (ids (freelist w)) \<and> (\<forall>p \<in> set (ids (freelist w)). 2 \<le> p \<and> p \<in> S) \<and>
     (mapped w \<longrightarrow> int (unat T * unat ps) \<le> datasz w \<and> datasz w < 2 ^ 32) \<and> 0 \<le> AllocSize w \<and> AllocSize w < 2 ^ 31 \<and>
     (\<exists>x m. txHeap w t = Some x \<and> metaData x = Some m \<and> meta_ident m = tid \<and> T \<le> totalPageNumber m \<and>
        (unat (totalPageNumber m) + 4096 * (K - nextPtr w) + 1) * unat ps < 2 ^ 31 \<and>
        (\<forall>p \<in> set (ids (freelist w)). p < totalPageNumber m) \<and>
        (\<forall>p \<in> snd ` set (dirtyPageTable x). spare_page S (totalPageNumber m) w p))"

definition snap_rel :: "nat \<Rightarrow> pgid set \<Rightarrow> pgid \<Rightarrow> u32 \<Rightarrow> u32 \<times> u32 \<times> txid \<Rightarrow> tx_ptr \<Rightarrow> world \<Rightarrow> world \<Rightarrow> bool" where
  "snap_rel K S T ps tid t w w' \<longleftrightarrow> nextPtr w \<le> nextPtr w' \<and>
     (nextPtr w' \<le> K \<longrightarrow> snap_inv K S T ps tid t w \<longrightarrow> snap_inv K S T ps tid t w')"

interpretation snap: frame "snap_rel K S T ps tid t" for K S T ps tid t
  by unfold_locales (auto simp: snap_rel_def)

text \<open>States that differ only in what the invariant does not mention.\<close>

lemma spare_page_mono:
  assumes "spare_page S n w p" and "nextPtr w \<le> nextPtr w'" and "n \<le> n'"
    and "\<And>a b. pageHeap w a = Some b \<Longrightarrow> a < nextPtr w \<Longrightarrow>
      \<exists>b'. pageHeap w' a = Some b' \<and> page_id b' = page_id b \<and> page_overflow b' = page_overflow b"
  shows "spare_page S n' w' p"
proof -
  obtain a b pid ov where p: "p = HeapPage a" "a < nextPtr w" "pageHeap w a = Some b" "page_id b = Inr pid" "page_overflow b = Inr ov"
      "unat pid + unat ov < unat n" "set (page_run pid (Suc (unat ov))) \<subseteq> S"
    using assms(1) by (auto simp: spare_page_def)
  moreover obtain b' where "pageHeap w' a = Some b'" "page_id b' = page_id b" "page_overflow b' = page_overflow b"
    using assms(4) [OF p(3,2)] by blast
  ultimately show ?thesis
    using assms(2,3) less_le_trans [of "unat pid + unat ov" "unat n" "unat n'"]
    unfolding spare_page_def by (intro exI [of _ a] exI [of _ b'] exI [of _ pid] exI [of _ ov]) (auto simp: word_le_nat_alt)
qed

lemma budget_mono: "j \<le> k \<Longrightarrow> (u + 4096 * (K - j) + 1) * s < (2 :: nat) ^ 31 \<Longrightarrow> (u + 4096 * (K - k) + 1) * s < 2 ^ 31"
  by (rule le_less_trans [of _ "(u + 4096 * (K - j) + 1) * s"]) (auto intro!: mult_le_mono1)

lemma snap_inv_cong:
  assumes "snap_inv K S T ps tid t w" and "nextPtr w \<le> nextPtr w'" and "rwtx w' = rwtx w" and "pageSize w' = pageSize w"
    and "ids (freelist w') = ids (freelist w)" and "mapped w' = mapped w" and "datasz w' = datasz w"
    and "AllocSize w' = AllocSize w"
    and "\<And>x m. txHeap w t = Some x \<Longrightarrow> metaData x = Some m \<Longrightarrow>
      \<exists>x' m'. txHeap w' t = Some x' \<and> metaData x' = Some m' \<and> totalPageNumber m' = totalPageNumber m \<and>
        meta_ident m' = meta_ident m \<and> dirtyPageTable x' = dirtyPageTable x"
    and "\<And>a b. pageHeap w a = Some b \<Longrightarrow> a < nextPtr w \<Longrightarrow>
      \<exists>b'. pageHeap w' a = Some b' \<and> page_id b' = page_id b \<and> page_overflow b' = page_overflow b"
  shows "snap_inv K S T ps tid t w'"
proof -
  obtain x m where x: "txHeap w t = Some x" "metaData x = Some m" "T \<le> totalPageNumber m"
      "(unat (totalPageNumber m) + 4096 * (K - nextPtr w) + 1) * unat ps < 2 ^ 31"
      "\<forall>p \<in> set (ids (freelist w)). p < totalPageNumber m"
      "\<forall>p \<in> snd ` set (dirtyPageTable x). spare_page S (totalPageNumber m) w p" "meta_ident m = tid"
    using assms(1) unfolding snap_inv_def by blast
  obtain x' m' where x': "txHeap w' t = Some x'" "metaData x' = Some m'" "totalPageNumber m' = totalPageNumber m"
      "meta_ident m' = meta_ident m" "dirtyPageTable x' = dirtyPageTable x" using assms(9) [OF x(1,2)] by blast
  have "spare_page S (totalPageNumber m) w' p" if "p \<in> snd ` set (dirtyPageTable x)" for p
    using spare_page_mono [OF _ assms(2) order_refl assms(10)] x(6) that by blast
  then show ?thesis
    using assms(1,3-8) x x' budget_mono [OF assms(2) x(4)] unfolding snap_inv_def by auto
qed

lemma snap_relI:
  assumes "nextPtr w \<le> nextPtr w'" and "rwtx w' = rwtx w" and "pageSize w' = pageSize w"
    and "ids (freelist w') = ids (freelist w)" and "mapped w' = mapped w" and "datasz w' = datasz w"
    and "AllocSize w' = AllocSize w"
    and "\<And>x m. txHeap w t = Some x \<Longrightarrow> metaData x = Some m \<Longrightarrow>
      \<exists>x' m'. txHeap w' t = Some x' \<and> metaData x' = Some m' \<and> totalPageNumber m' = totalPageNumber m \<and>
        meta_ident m' = meta_ident m \<and> dirtyPageTable x' = dirtyPageTable x"
    and "\<And>a b. pageHeap w a = Some b \<Longrightarrow> a < nextPtr w \<Longrightarrow>
      \<exists>b'. pageHeap w' a = Some b' \<and> page_id b' = page_id b \<and> page_overflow b' = page_overflow b"
  shows "snap_rel K S T ps tid t w w'"
  unfolding snap_rel_def using snap_inv_cong [OF _ assms] assms(1) by blast

lemma snap_objects:
  "snap_rel K S T ps tid t w (w\<lparr>nodeHeap := nh\<rparr>)" "snap_rel K S T ps tid t w (w\<lparr>bucketHeap := bh\<rparr>)"
  "snap_rel K S T ps tid t w (w\<lparr>nextPtr := Suc (nextPtr w), nodeHeap := nh\<rparr>)"
  "snap_rel K S T ps tid t w (w\<lparr>nextPtr := Suc (nextPtr w), bucketHeap := bh\<rparr>)"
  by (rule snap_relI; simp)+

lemma snap_upd_tx:
  assumes "\<And>x. metaData (f x) = metaData x" and "\<And>x. dirtyPageTable (f x) = dirtyPageTable x"
  shows "pres (snap_rel K S T ps tid t) (upd_tx u f)"
  unfolding pres_def
proof (intro allI impI)
  fix w r w'
  assume "upd_tx u f w = Inr (r, w')"
  then obtain y where y: "txHeap w u = Some y" "w' = w\<lparr>txHeap := (txHeap w)(u \<mapsto> f y)\<rparr>"
    by (auto simp: upd_tx_def act_simps result_iffs)
  show "snap_rel K S T ps tid t w w'" by (rule snap_relI) (use y assms in auto)
qed

lemma snap_upd_meta:
  assumes "\<And>m. totalPageNumber (f m) = totalPageNumber m" and "\<And>m. meta_ident (f m) = meta_ident m"
  shows "pres (snap_rel K S T ps tid t) (upd_meta u f)"
  unfolding pres_def
proof (intro allI impI)
  fix w r w'
  assume "upd_meta u f w = Inr (r, w')"
  then obtain y m where y: "txHeap w u = Some y" "metaData y = Some m" "w' = w\<lparr>txHeap := (txHeap w)(u \<mapsto> y\<lparr>metaData := Some (f m)\<rparr>)\<rparr>"
    by (auto simp: upd_meta_def upd_tx_def tx_meta_def act_simps result_iffs)
  show "snap_rel K S T ps tid t w w'" by (rule snap_relI) (use y assms in auto)
qed

lemma freeList_free_ids: "freeList_free tid pid ov f = Inr f' \<Longrightarrow> ids f' = ids f"
  by (auto simp: freeList_free_def and_then_Inr_iff)

lemma snap_Tx_free: "pres (snap_rel K S T ps tid t) (Tx_free u i pg)"
  unfolding pres_def
proof (intro allI impI)
  fix w r w'
  assume "Tx_free u i pg w = Inr (r, w')"
  then obtain fl pid ov where "freeList_free i pid ov (freelist w) = Inr fl" "w' = w\<lparr>freelist := fl\<rparr>"
    by (auto simp: Tx_free_def act_simps and_then_Inr_iff split: if_splits option.splits)
  then show "snap_rel K S T ps tid t w w'" by (intro snap_relI) (auto dest: freeList_free_ids)
qed

lemma snap_upd_page:
  assumes "keeps_header f"
  shows "pres (snap_rel K S T ps tid t) (upd_page p f)"
  unfolding pres_def
proof (intro allI impI)
  fix w r w'
  assume "upd_page p f w = Inr (r, w')"
  then obtain a b b' where "p = HeapPage a" "pageHeap w a = Some b" "f b = Inr b'" "w' = w\<lparr>pageHeap := (pageHeap w)(a \<mapsto> b')\<rparr>"
    by (auto simp: upd_page_def act_simps and_then_Inr_iff of_option_def split: page_ptr.splits option.splits)
  then show "snap_rel K S T ps tid t w w'" using assms by (intro snap_relI) (auto simp: keeps_header_def)
qed

section \<open>Allocation\<close>

text \<open>What a remapping leaves alone, and the size of the new mapping.\<close>

definition heap_part :: "world \<Rightarrow> (tx_ptr \<Rightarrow> tx option) \<times> (nat \<Rightarrow> buffer option) \<times> freeList \<times> tx_ptr option \<times> nat \<times> u32 \<times> int" where
  "heap_part w = (txHeap w, pageHeap w, freelist w, rwtx w, nextPtr w, pageSize w, AllocSize w)"

interpretation parts: map_frame "\<lambda>u v. heap_part v = heap_part u"
  by unfold_locales (auto simp: heap_part_def)

lemma mapping_steps:
  "getMmapWLock u = Inr (r, v) \<Longrightarrow> mapped v = mapped u \<and> datasz v = datasz u \<and> filesz v = filesz u"
  "unlockMmapLock u = Inr (r', v) \<Longrightarrow> mapped v = mapped u \<and> datasz v = datasz u"
  "DbMunmap u = Inr (r, v) \<Longrightarrow> mapped v = mapped u \<and> datasz v = datasz u \<or> \<not> mapped v"
  "mmapDbFile n u = Inr (r, v) \<Longrightarrow> mapped v = mapped u \<and> datasz v = datasz u \<or> datasz v = n"
  "page_meta i u = Inr (m, v) \<Longrightarrow> v = u"
  by (auto simp: getMmapWLock_def unlockMmapLock_def DbMunmap_def mmapDbFile_def page_meta_def getPagePtr_def
      syscall_def act_simps and_then_Inr_iff split: if_splits)

lemma initMeta_mapped: "initMeta sz w = Inr (0, w') \<Longrightarrow> mapped w'"
proof -
  have "page_meta i u = Inr (m, v) \<Longrightarrow> mapped u \<and> v = u" for i u m v
    by (auto simp: page_meta_def getPagePtr_def act_simps and_then_Inr_iff split: if_splits)
  then show "initMeta sz w = Inr (0, w') \<Longrightarrow> mapped w'"
    by (auto simp: initMeta_def act_simps and_then_Inr_iff split: if_splits dest!: mapping_steps(2))
qed

definition remap_rel :: "int \<Rightarrow> world \<Rightarrow> world \<Rightarrow> bool" where
  "remap_rel n u v \<longleftrightarrow> mapped v = mapped u \<and> datasz v = datasz u \<or> \<not> mapped v \<or> datasz v = n"

interpretation remap: frame "remap_rel n" for n
  by unfold_locales (auto simp: remap_rel_def)

lemma remap_steps:
  "pres (remap_rel k) getMmapWLock" "pres (remap_rel k) unlockMmapLock" "pres (remap_rel k) DbMunmap"
  "pres (remap_rel n) (mmapDbFile n)" "pres (remap_rel k) (page_meta i)"
  by (auto simp: pres_def remap_rel_def dest!: mapping_steps)

lemma initMeta_mapping:
  assumes "initMeta sz w = Inr (rc, w')"
  shows "mapped w' = mapped w \<and> datasz w' = datasz w \<or> \<not> mapped w' \<or>
    (\<exists>n. getMmapSize (max (filesz w) sz) = Inr (0, n) \<and> datasz w' = sint n)"
proof -
  define body where "body n = bnd DbMunmap (\<lambda>ok. if \<not> ok then thn unlockMmapLock (ret (- 1))
     else bnd (mmapDbFile n) (\<lambda>ok. if \<not> ok then thn unlockMmapLock (ret (- 1))
     else bnd (page_meta 0) (\<lambda>m0. bnd (page_meta 1) (\<lambda>m1.
       if \<not> validate m0 \<and> \<not> validate m1 then thn unlockMmapLock (ret (- 1)) else thn unlockMmapLock (ret (0 :: int))))))" for n
  have body: "pres (remap_rel n) (body n)" for n unfolding body_def by (intro frame_intro remap_steps)
  obtain b w1 where w1: "getMmapWLock w = Inr (b, w1)" using assms by (cases "getMmapWLock w") (auto simp: initMeta_def act_simps)
  have "(\<exists>r. unlockMmapLock w1 = Inr (r, w')) \<or>
      (\<exists>k n. getMmapSize (max (filesz w1) sz) = Inr (k, n) \<and>
         (if k \<noteq> 0 then \<exists>r. unlockMmapLock w1 = Inr (r, w') else body (sint n) w1 = Inr (rc, w')))"
    using assms w1 unfolding initMeta_def body_def [symmetric] by (auto simp: act_simps and_then_Inr_iff split: if_splits)
  then show ?thesis
    using mapping_steps(1) [OF w1] mapping_steps(2) [of w1 _ w'] presD [OF body, of _ w1 rc w']
    by (auto simp: remap_rel_def split: if_splits)
qed

lemma getMmapSize_ge: "getMmapSize target = Inr (0, n) \<Longrightarrow> target \<le> n \<and> unat n \<le> 2 ^ 30"
  by (auto simp: getMmapSize_def word_le_nat_alt split: option.splits if_splits)

text \<open>The four ways in which \<open>DB::allocate\<close> ends.\<close>

lemma DB_allocate_cases:
  assumes "DB_allocate n w = Inr (r, w')" and "rwtx w = Some t" and "txHeap w t = Some x" and "metaData x = Some m"
  defines "a \<equiv> nextPtr w"
    and "minLen \<equiv> to_int ((totalPageNumber m + ucast n + 1) * ucast (pageSize w))"
  shows "\<exists>b pg fl. n < 0x1000 \<and> freeList_allocate n (freelist w) = Inr (pg, fl) \<and> page_overflow b = Inr (n - 1) \<and>
    page_id b = Inr (if pg = 0 then totalPageNumber m else pg) \<and>
    (pg \<noteq> 0 \<and> r = Some (HeapPage a) \<and>
       w' = w\<lparr>nextPtr := Suc a, pageHeap := (pageHeap w)(a \<mapsto> b), freelist := fl\<rparr> \<or>
     pg = 0 \<and> (\<exists>v ok. (if ok then r = Some (HeapPage a) \<and>
          w' = v\<lparr>txHeap := (txHeap w)(t \<mapsto> x\<lparr>metaData := Some (m\<lparr>totalPageNumber := totalPageNumber m + ucast n\<rparr>)\<rparr>)\<rparr>
        else r = None \<and> w' = v\<lparr>pageHeap := (pageHeap v)(a := None)\<rparr>) \<and> (ok \<longrightarrow> mapped w \<longrightarrow> mapped v) \<and>
       heap_part v = heap_part (w\<lparr>nextPtr := Suc a, pageHeap := (pageHeap w)(a \<mapsto> b), freelist := fl\<rparr>) \<and>
       (mapped v = mapped w \<and> datasz v = datasz w \<or> \<not> mapped v \<or> datasz w < minLen \<and>
          (\<exists>k. max (filesz w) (word_of_int minLen) \<le> k \<and> unat k \<le> 2 ^ 30 \<and> datasz v = sint k))))"
proof -
  let ?b0 = "take (unat (n * pageSize w)) (junk (env w) a (unat (n * pageSize w)) @ replicate (unat (n * pageSize w)) 0)"
  from assms(1) obtain b1 pg fl where n: "n < 0x1000" and b1: "set_page_overflow (n - 1) ?b0 = Inr b1"
    and fl: "freeList_allocate n (freelist w) = Inr (pg, fl)"
    by (auto simp: DB_allocate_def act_simps new_page_def Let_def a_def [symmetric] and_then_Inr_iff upd_page_def result_iffs split: if_splits)
  note run = assms(1) b1 fl n
  show ?thesis
  proof (cases "pg = 0")
    case False
    then obtain b where b: "set_page_id pg b1 = Inr b" "r = Some (HeapPage a)"
        "w' = w\<lparr>nextPtr := Suc a, pageHeap := (pageHeap w)(a \<mapsto> b), freelist := fl\<rparr>"
      using run by (auto simp: DB_allocate_def act_simps new_page_def Let_def a_def [symmetric] result_iffs upd_page_def split: if_splits)
    then show ?thesis
      using n fl False set_page_id_frame [OF b(1)] set_page_overflow_frame(2) [OF b1] by (intro exI [of _ b] exI [of _ pg] exI [of _ fl]) simp
  next
    case True
    obtain b where b: "set_page_id (totalPageNumber m) b1 = Inr b"
      using run True assms(2-4)
      by (auto simp: DB_allocate_def act_simps new_page_def Let_def a_def [symmetric] result_iffs upd_page_def tx_meta_def split: if_splits)
    let ?w = "w\<lparr>nextPtr := Suc a, freelist := fl, pageHeap := (pageHeap w)(a \<mapsto> b)\<rparr>"
    define first where "first = (if datasz w < minLen then bnd syscall (\<lambda>ok. if \<not> ok then fail LogFatal
       else bnd (initMeta (word_of_int minLen)) (\<lambda>rc. ret (rc = 0))) else ret True)"
    define rest where "rest ok = (if \<not> ok then thn (free_page (HeapPage a)) (ret None)
       else thn (upd_meta t (\<lambda>m. m\<lparr>totalPageNumber := totalPageNumber m + ucast n\<rparr>)) (ret (Some (HeapPage a))))" for ok
    have "bnd first rest ?w = DB_allocate n w"
      using b1 fl n True b assms(2-4)
      by (simp add: DB_allocate_def first_def rest_def act_simps new_page_def Let_def a_def [symmetric] minLen_def upd_page_def tx_meta_def
          cong: if_cong)
    then have "bnd first rest ?w = Inr (r, w')" using assms(1) by simp
    then obtain ok v where v: "first ?w = Inr (ok, v)" "rest ok v = Inr (r, w')"
      by (auto simp: act_simps and_then_Inr_iff)
    have f: "if datasz w < minLen then \<exists>c rc. initMeta (word_of_int minLen) (?w\<lparr>clock := c\<rparr>) = Inr (rc, v) \<and> ok = (rc = 0)
          else v = ?w \<and> ok"
      using v(1) by (auto simp: first_def act_simps syscall_def and_then_Inr_iff split: if_splits)
    have part: "heap_part v = heap_part ?w"
      using f presD [OF parts.pres_initMeta] by (auto simp: heap_part_def split: if_splits)
    then have part': "heap_part v = heap_part (w\<lparr>nextPtr := Suc a, pageHeap := (pageHeap w)(a \<mapsto> b), freelist := fl\<rparr>)"
      by (simp add: heap_part_def)
    have "txHeap v = txHeap w" using part by (simp add: heap_part_def)
    then have ret: "if ok then r = Some (HeapPage a) \<and>
          w' = v\<lparr>txHeap := (txHeap w)(t \<mapsto> x\<lparr>metaData := Some (m\<lparr>totalPageNumber := totalPageNumber m + ucast n\<rparr>)\<rparr>)\<rparr>
        else r = None \<and> w' = v\<lparr>pageHeap := (pageHeap v)(a := None)\<rparr>"
      using v(2) assms(3,4) by (auto simp: rest_def upd_meta_def tx_meta_def upd_tx_def free_page_def act_simps split: if_splits)
    have ok: "ok \<longrightarrow> mapped w \<longrightarrow> mapped v" using f initMeta_mapped by (auto split: if_splits)
    have size: "mapped v = mapped w \<and> datasz v = datasz w \<or> \<not> mapped v \<or> datasz w < minLen \<and>
        (\<exists>k. max (filesz w) (word_of_int minLen) \<le> k \<and> unat k \<le> 2 ^ 30 \<and> datasz v = sint k)"
      using f initMeta_mapping [of "word_of_int minLen"] getMmapSize_ge by (fastforce split: if_splits)
    have "page_overflow b = Inr (n - 1) \<and> page_id b = Inr (if pg = 0 then totalPageNumber m else pg)"
      using True set_page_id_frame [OF b] set_page_overflow_frame(2) [OF b1] by simp
    then show ?thesis using n fl True part' ret ok size by blast
  qed
qed

lemma DB_allocate_one:
  assumes "DB_allocate n w = Inr (r, w')" and "rwtx w = Some t" and "txHeap w t = Some x" and "metaData x = Some m"
  shows "nextPtr w' = Suc (nextPtr w)"
  using DB_allocate_cases [OF assms] by (auto simp: heap_part_def split: if_splits)

text \<open>A page the freelist hands out, and one behind the end.\<close>

lemma spare_from_freelist:
  assumes "ascending (ids f)" and "\<forall>p \<in> set (ids f). 2 \<le> p \<and> p \<in> S \<and> p < k" and "0 < n"
    and "freeList_allocate n f = Inr (pg, f')" and "pg \<noteq> 0"
  shows "set (page_run pg (Suc (unat (n - 1)))) \<subseteq> S" and "unat pg + unat (n - 1) < unat k"
    and "ascending (ids f')" and "set (ids f') \<subseteq> set (ids f)"
proof -
  have n: "0 < unat n" using assms(3) by (simp add: word_less_nat_alt)
  then have suc: "Suc (unat (n - 1)) = unat n" using assms(3) by (simp add: unat_minus_one word_neq_0_conv)
  have res: "alloc_result f (unat n) pg f'" using freeList_allocate_ids [OF assms(1) _ n] assms(2,4) by auto
  then have sub: "set (page_run pg (unat n)) \<subseteq> set (ids f)" using assms(5) by (simp add: alloc_result_def)
  then show "set (page_run pg (Suc (unat (n - 1)))) \<subseteq> S" using suc assms(2) by auto
  obtain s where s: "consec (ids f) s (unat n)" "ids f ! s = pg" using page_run_consec [OF assms(1) _ n sub] assms(2) by auto
  have "s + unat (n - 1) < length (ids f)" using s(1) suc by (simp add: consec_def)
  then have "ids f ! (s + unat (n - 1)) < k" using assms(2) by simp
  then show "unat pg + unat (n - 1) < unat k"
    using consecD [OF s(1), of "unat (n - 1)"] s(2) suc by (simp add: word_less_nat_alt)
  show "ascending (ids f')" "set (ids f') \<subseteq> set (ids f)"
    using res assms(1,5) by (auto simp: alloc_result_def sorted_wrt_filter)
qed

lemma spare_behind_end:
  fixes n :: u32 and k :: pgid
  assumes "T \<le> k" and "\<forall>p. T \<le> p \<longrightarrow> p \<in> S" and "0 < n" and "unat k + unat n < 2 ^ 64"
  shows "set (page_run k (Suc (unat (n - 1)))) \<subseteq> S" and "unat k + unat (n - 1) < unat (k + ucast n)"
    and "unat (k + ucast n) = unat k + unat n"
proof -
  have n: "0 < unat n" using assms(3) by (simp add: word_less_nat_alt)
  then have suc: "Suc (unat (n - 1)) = unat n" using assms(3) by (simp add: unat_minus_one word_neq_0_conv)
  show e: "unat (k + ucast n) = unat k + unat n"
    using assms(4) of_nat_unat_u32 [of n, symmetric] by (simp add: unat_word_ariths unat_of_nat)
  show "unat k + unat (n - 1) < unat (k + ucast n)" unfolding e using suc by simp
  show "set (page_run k (Suc (unat (n - 1)))) \<subseteq> S"
    unfolding suc using assms(1,2) run_above(1) [OF assms(4)] order_trans by blast
qed

lemma sint_small:
  fixes x :: u32
  assumes "unat x < 2 ^ 31"
  shows "sint x = int (unat x)"
proof -
  have "int (unat x) < int (2 ^ 31)" using assms by (rule of_nat_less_iff [THEN iffD2])
  moreover have "- (2 ^ 31) \<le> uint x" by (rule order_trans [of _ 0]) simp_all
  ultimately show ?thesis by (simp add: sint_uint signed_take_bit_int_eq_self)
qed

lemma to_int_small: "unat x < 2 ^ 31 \<Longrightarrow> to_int x = int (unat x)"
  using sint_small [of "ucast x"] by (simp add: to_int_def unsigned_ucast_eq take_bit_eq_mod)

text \<open>The size asked of a new mapping covers the pages of the database.\<close>

lemma minLen_covers:
  fixes n ps :: u32
  assumes "(unat k + unat n + 1) * unat ps < 2 ^ 31"
  defines "minLen \<equiv> to_int ((k + ucast n + 1) * ucast ps :: u64)"
  shows "unat (word_of_int minLen :: u32) = (unat k + unat n + 1) * unat ps"
proof (cases "ps = 0")
  case True
  then show ?thesis by (simp add: minLen_def to_int_def)
next
  case False
  then have "0 < unat ps" by (simp add: unat_gt_0)
  then have small: "unat k + unat n + 1 < 2 ^ 31" using assms(1) by (cases "unat ps") auto
  have "unat (ucast n :: u64) = unat n" "unat (ucast ps :: u64) = unat ps"
    using of_nat_unat_u32 unsigned_less [of n, where ?'a = nat] unsigned_less [of ps, where ?'a = nat]
    by (simp_all add: unsigned_ucast_eq take_bit_eq_mod)
  then have "unat ((k + ucast n + 1) * ucast ps) = (unat k + unat n + 1) * unat ps"
    using small assms(1) by (simp add: unat_word_ariths)
  then have "minLen = int ((unat k + unat n + 1) * unat ps)" unfolding minLen_def using assms(1) to_int_small by metis
  then show ?thesis using assms(1) by (simp only: of_int_of_nat_eq unat_of_nat) simp
qed

lemma remap_covers:
  fixes n ps c :: u32
  assumes "T \<le> k" and "(unat k + unat n + 1) * unat ps < 2 ^ 31"
    and "word_of_int (to_int ((k + ucast n + 1) * ucast ps)) \<le> c" and "unat c \<le> 2 ^ 30"
  shows "int (unat T * unat ps) \<le> sint c \<and> sint c < 2 ^ 32"
proof -
  have "unat T * unat ps \<le> (unat k + unat n + 1) * unat ps" using assms(1) by (intro mult_le_mono1) (simp add: word_le_nat_alt)
  also have "\<dots> \<le> unat c" using assms(3) minLen_covers [OF assms(2)] by (simp add: word_le_nat_alt)
  finally have "int (unat T * unat ps) \<le> int (unat c)" by (rule of_nat_mono)
  moreover have c: "sint c = int (unat c)" using sint_small [of c] assms(4) by simp
  moreover have "int (unat c) \<le> int (2 ^ 30)" using assms(4) by (rule of_nat_mono)
  ultimately show ?thesis unfolding c by (auto simp del: of_nat_mult)
qed

text \<open>Arithmetic of one allocation.\<close>

lemma budget_step:
  fixes n ps :: u32
  assumes "(u + 4096 * (K - j) + 1) * unat ps < 2 ^ 31" and "n < 0x1000" and "Suc j \<le> K" and "ps \<noteq> 0"
  shows "(u + unat n + 4096 * (K - Suc j) + 1) * unat ps < 2 ^ 31" and "(u + unat n + 1) * unat ps < 2 ^ 31"
    and "u + unat n < 2 ^ 64"
proof -
  have n: "unat n < 4096" using assms(2) by (simp add: word_less_nat_alt)
  have le: "u + unat n + 4096 * (K - Suc j) + 1 \<le> u + 4096 * (K - j) + 1" using n assms(3) by simp
  show g: "(u + unat n + 4096 * (K - Suc j) + 1) * unat ps < 2 ^ 31" by (rule le_less_trans [OF mult_le_mono1 [OF le] assms(1)])
  have "(u + unat n + 1) * unat ps \<le> (u + unat n + 4096 * (K - Suc j) + 1) * unat ps" by (intro mult_le_mono1) simp
  then show h: "(u + unat n + 1) * unat ps < 2 ^ 31" using g by (rule le_less_trans)
  have "u + unat n + 1 \<le> (u + unat n + 1) * unat ps" using assms(4) by (cases "unat ps") (auto simp: unat_eq_zero)
  then have "u + unat n + 1 < 2 ^ 31" using h by (rule le_less_trans)
  then show "u + unat n < 2 ^ 64" by simp
qed

lemma DB_allocate_snap:
  assumes "snap_inv K S T ps tid t w" and "DB_allocate n w = Inr (r, w')" and "0 < n" and "Suc (nextPtr w) \<le> K"
    and "\<forall>p. T \<le> p \<longrightarrow> p \<in> S"
  shows "snap_inv K S T ps tid t w'"
    and "\<forall>p x m. r = Some p \<and> txHeap w' t = Some x \<and> metaData x = Some m \<longrightarrow> spare_page S (totalPageNumber m) w' p"
proof -
  obtain x m where x: "txHeap w t = Some x" "metaData x = Some m" "T \<le> totalPageNumber m"
      "(unat (totalPageNumber m) + 4096 * (K - nextPtr w) + 1) * unat ps < 2 ^ 31"
      "\<forall>p \<in> set (ids (freelist w)). p < totalPageNumber m"
      "\<forall>p \<in> snd ` set (dirtyPageTable x). spare_page S (totalPageNumber m) w p" "meta_ident m = tid"
    and base: "rwtx w = Some t" "pageSize w = ps" "ps \<noteq> 0" "ascending (ids (freelist w))"
      "\<forall>p \<in> set (ids (freelist w)). 2 \<le> p \<and> p \<in> S" "mapped w \<longrightarrow> int (unat T * unat ps) \<le> datasz w \<and> datasz w < 2 ^ 32"
      "0 \<le> AllocSize w" "AllocSize w < 2 ^ 31"
    using assms(1) unfolding snap_inv_def by (elim exE conjE) (rule that)
  let ?a = "nextPtr w" and ?k = "totalPageNumber m"
  obtain b pg fl where b: "n < 0x1000" "freeList_allocate n (freelist w) = Inr (pg, fl)" "page_overflow b = Inr (n - 1)"
      "page_id b = Inr (if pg = 0 then ?k else pg)"
    and ends: "pg \<noteq> 0 \<and> r = Some (HeapPage ?a) \<and>
       w' = w\<lparr>nextPtr := Suc ?a, pageHeap := (pageHeap w)(?a \<mapsto> b), freelist := fl\<rparr> \<or>
     pg = 0 \<and> (\<exists>v ok. (if ok then r = Some (HeapPage ?a) \<and>
          w' = v\<lparr>txHeap := (txHeap w)(t \<mapsto> x\<lparr>metaData := Some (m\<lparr>totalPageNumber := ?k + ucast n\<rparr>)\<rparr>)\<rparr>
        else r = None \<and> w' = v\<lparr>pageHeap := (pageHeap v)(?a := None)\<rparr>) \<and> (ok \<longrightarrow> mapped w \<longrightarrow> mapped v) \<and>
       heap_part v = heap_part (w\<lparr>nextPtr := Suc ?a, pageHeap := (pageHeap w)(?a \<mapsto> b), freelist := fl\<rparr>) \<and>
       (mapped v = mapped w \<and> datasz v = datasz w \<or> \<not> mapped v \<or> datasz w < to_int ((?k + ucast n + 1) * ucast (pageSize w)) \<and>
          (\<exists>k. max (filesz w) (word_of_int (to_int ((?k + ucast n + 1) * ucast (pageSize w)))) \<le> k \<and> unat k \<le> 2 ^ 30 \<and> datasz v = sint k)))"
    using DB_allocate_cases [OF assms(2) base(1) x(1,2)] by (elim exE conjE) (rule that)
  have old: "spare_page S k' v p" if "p \<in> snd ` set (dirtyPageTable x)" "nextPtr v = Suc ?a" "?k \<le> k'"
      "\<forall>c. c < ?a \<longrightarrow> pageHeap v c = pageHeap w c" for p v k'
    using spare_page_mono [of S ?k w p v k'] x(6) that by auto
  note step = budget_step [OF x(4) b(1) assms(4) base(3)]
  have "snap_inv K S T ps tid t w' \<and>
    (\<forall>p x m. r = Some p \<and> txHeap w' t = Some x \<and> metaData x = Some m \<longrightarrow> spare_page S (totalPageNumber m) w' p)"
  proof (cases "pg = 0")
    case False
    then have pg: "pg \<noteq> 0" "r = Some (HeapPage ?a)"
      and w': "w' = w\<lparr>nextPtr := Suc ?a, pageHeap := (pageHeap w)(?a \<mapsto> b), freelist := fl\<rparr>" using ends by simp_all
    note sp = spare_from_freelist [OF base(4) _ assms(3) b(2) pg(1), of S ?k]
    show ?thesis
      using w' pg b sp x base old [of _ w' ?k] budget_mono [of ?a "Suc ?a" "unat ?k" K "unat ps"]
      by (auto simp: snap_inv_def spare_page_def)
  next
    case pg: True
    then obtain v ok where part: "heap_part v = heap_part (w\<lparr>nextPtr := Suc ?a, pageHeap := (pageHeap w)(?a \<mapsto> b), freelist := fl\<rparr>)"
      and fin: "if ok then r = Some (HeapPage ?a) \<and>
          w' = v\<lparr>txHeap := (txHeap w)(t \<mapsto> x\<lparr>metaData := Some (m\<lparr>totalPageNumber := ?k + ucast n\<rparr>)\<rparr>)\<rparr>
        else r = None \<and> w' = v\<lparr>pageHeap := (pageHeap v)(?a := None)\<rparr>"
      and size: "mapped v = mapped w \<and> datasz v = datasz w \<or> \<not> mapped v \<or> datasz w < to_int ((?k + ucast n + 1) * ucast (pageSize w)) \<and>
          (\<exists>k. max (filesz w) (word_of_int (to_int ((?k + ucast n + 1) * ucast (pageSize w)))) \<le> k \<and> unat k \<le> 2 ^ 30 \<and> datasz v = sint k)"
      using ends by blast
    note sp = spare_behind_end [OF x(3) assms(5,3) step(3)]
    have fl: "fl = freelist w"
      using freeList_allocate_ids [OF base(4), of n] base(5) assms(3) b(2) pg by (auto simp: alloc_result_def word_less_nat_alt)
    have v: "txHeap v = txHeap w" "pageHeap v = (pageHeap w)(?a \<mapsto> b)" "freelist v = freelist w" "rwtx v = rwtx w"
      "nextPtr v = Suc ?a" "pageSize v = ps" "AllocSize v = AllocSize w" using part fl base(2) by (simp_all add: heap_part_def)
    have map: "mapped v \<longrightarrow> int (unat T * unat ps) \<le> datasz v \<and> datasz v < 2 ^ 32"
      using size base(2,6) remap_covers [OF x(3) step(2)] by auto
    have le: "?k \<le> ?k + ucast n" using sp(3) by (simp add: word_le_nat_alt)
    show ?thesis
    proof (cases ok)
      case True
      then show ?thesis
        using fin v map b(3,4) pg sp x base le order_trans [OF x(3) le] less_le_trans [OF _ le] step(1) old [of _ w' "?k + ucast n"]
        by (auto simp: snap_inv_def spare_page_def)
    next
      case False
      then show ?thesis
        using fin v map x base budget_mono [of ?a "Suc ?a" "unat ?k" K "unat ps"] old [of _ w' ?k]
        by (auto simp: snap_inv_def)
    qed
  qed
  then show "snap_inv K S T ps tid t w'"
    "\<forall>p x m. r = Some p \<and> txHeap w' t = Some x \<and> metaData x = Some m \<longrightarrow> spare_page S (totalPageNumber m) w' p"
    by blast+
qed

text \<open>Objects are only ever added.\<close>

interpretation growing: frame "\<lambda>u v. nextPtr u \<le> nextPtr v"
  by unfold_locales auto

lemma DB_allocate_next: "pres (\<lambda>u v. nextPtr u \<le> nextPtr v) (DB_allocate n)"
proof -
  have p: "pres (\<lambda>u v. nextPtr u \<le> nextPtr v) (new_page len)" "pres (\<lambda>u v. nextPtr u \<le> nextPtr v) (upd_page q f)"
    "pres (\<lambda>u v. nextPtr u \<le> nextPtr v) (modify (\<lambda>w. w\<lparr>freelist := fl\<rparr>))" "pres (\<lambda>u v. nextPtr u \<le> nextPtr v) (tx_meta t)"
    "pres (\<lambda>u v. nextPtr u \<le> nextPtr v) (upd_meta t g)" "pres (\<lambda>u v. nextPtr u \<le> nextPtr v) (free_page q)"
    "pres (\<lambda>u v. nextPtr u \<le> nextPtr v) syscall" for len q f fl t g
    by (auto simp: pres_def new_page_def upd_page_def tx_meta_def upd_meta_def upd_tx_def free_page_def syscall_def act_simps
        Let_def and_then_Inr_iff split: page_ptr.splits)
  have "pres (\<lambda>u v. nextPtr u \<le> nextPtr v) (initMeta sz)" for sz
    using parts.pres_initMeta [of sz] by (auto simp: pres_def heap_part_def)
  then show ?thesis unfolding DB_allocate_def by (intro frame_intro p)
qed

lemma set_updateD: "(i, j) \<in> set (AList.update k v al) \<Longrightarrow> j = v \<or> (i, j) \<in> set al"
  by (induction al) (auto split: if_splits)

lemma snap_Tx_allocate:
  assumes "\<forall>p. T \<le> p \<longrightarrow> p \<in> S" and "0 < n"
  shows "pres (snap_rel K S T ps tid t) (Tx_allocate u n)"
  unfolding pres_def
proof (intro allI impI)
  fix w r w'
  assume run: "Tx_allocate u n w = Inr (r, w')"
  then obtain q w1 where q: "DB_allocate n w = Inr (q, w1)"
    by (auto simp: Tx_allocate_def act_simps and_then_Inr_iff split: if_splits)
  have mono: "nextPtr w \<le> nextPtr w1" using presD [OF DB_allocate_next q] .
  have fin: "w' = w1 \<and> r = None \<or> (\<exists>p pid y c d. q = Some p \<and> txHeap w1 u = Some y \<and>
      w' = w1\<lparr>txHeap := (txHeap w1)(u \<mapsto> y\<lparr>dirtyPageTable := AList.update pid p (dirtyPageTable y), pageCount := c, pageAlloc := d\<rparr>)\<rparr>)"
    using run q by (auto simp: Tx_allocate_def act_simps result_iffs upd_tx_def split: if_splits option.splits)
  show "snap_rel K S T ps tid t w w'"
    unfolding snap_rel_def
  proof (intro conjI impI)
    show "nextPtr w \<le> nextPtr w'" using mono fin by auto
    assume "nextPtr w' \<le> K" and inv: "snap_inv K S T ps tid t w"
    moreover have "nextPtr w1 = Suc (nextPtr w)"
      using inv q by (auto simp: snap_inv_def dest: DB_allocate_one)
    ultimately have "Suc (nextPtr w) \<le> K" using fin by auto
    note a = DB_allocate_snap [OF inv q assms(2) this assms(1)]
    have "snap_inv K S T ps tid t w'" if "q = Some p" "txHeap w1 u = Some y"
      "w' = w1\<lparr>txHeap := (txHeap w1)(u \<mapsto> y\<lparr>dirtyPageTable := AList.update pid p (dirtyPageTable y), pageCount := c, pageAlloc := d\<rparr>)\<rparr>"
      for p pid y c d
    proof -
      have same: "spare_page S k (w1\<lparr>txHeap := h\<rparr>) z = spare_page S k w1 z" for k z h by (simp add: spare_page_def)
      show ?thesis
      proof (cases "u = t")
        case True
        then show ?thesis
          using a that unfolding snap_inv_def by (fastforce simp: same dest!: set_updateD)
      next
        case False
        then show ?thesis using a(1) that(3) unfolding snap_inv_def by (simp add: same)
      qed
    qed
    then show "snap_inv K S T ps tid t w'" using a(1) fin by auto
  qed
qed

lemma Tx_allocate_mapped:
  assumes "Tx_allocate u n w = Inr (Some p, w')" and "rwtx w = Some t" and "txHeap w t = Some x" and "metaData x = Some m" and "mapped w"
  shows "mapped w'"
proof -
  obtain q w1 where q: "DB_allocate n w = Inr (Some q, w1)" "mapped w' = mapped w1"
    using assms(1) by (auto simp: Tx_allocate_def act_simps result_iffs upd_tx_def split: if_splits option.splits)
  show ?thesis using DB_allocate_cases [OF q(1) assms(2-4)] q(2) assms(5) by (auto split: if_splits)
qed

section \<open>Every operation keeps the invariant\<close>

abbreviation keeps_snap :: "nat \<Rightarrow> pgid set \<Rightarrow> pgid \<Rightarrow> u32 \<Rightarrow> u32 \<times> u32 \<times> txid \<Rightarrow> tx_ptr \<Rightarrow> world \<Rightarrow> world \<Rightarrow> bool" where
  "keeps_snap K F T \<equiv> snap_rel K (F \<union> {T..}) T"

interpretation snap: op_frame "keeps_snap K F T ps tid t" for K F T ps tid t
proof (unfold_locales, goal_cases)
  case (5 u)
  then show ?case unfolding increaseCurserCount_def by (rule snap_upd_tx) simp_all
next
  case (7 n u)
  then show ?case by (intro snap_Tx_allocate) auto
qed (rule snap_objects snap_Tx_free snap_upd_page [OF keeps_Node_write])+

lemma snap_commit_freelist: "pres (keeps_snap K F T ps tid t) (commit_freelist u)"
  unfolding commit_freelist_def
  by (intro frame_intro snap_upd_page keeps_freeList_write snap_upd_meta) simp_all

end
