(* ===== verification/Db_Tx_Correct.thy ===== *)
theory Db_Tx_Correct
  imports Frame Db_Correct
begin

text \<open>
  Properties of transactions as a whole: what \<open>DB::update\<close> and \<open>DB::view\<close> do with the locks and the
  list of open transactions, and which pages a new writer may reuse.
\<close>

section \<open>Locks\<close>

text \<open>
  What is assumed of a user function: it does not itself begin or end transactions.
\<close>

definition user_fn :: "(tx_ptr \<Rightarrow> int act) \<Rightarrow> bool" where
  "user_fn fn \<longleftrightarrow> (\<forall>t. pres same_tx_state (fn t))"

text \<open>What \<open>beginRWTx\<close> does once it holds the locks, and the state in which it does it.\<close>

definition begin_body :: "tx_ptr \<Rightarrow> unit act" where
  "begin_body t = thn (setWriteable t True) (thn (Tx_init t) (bnd (gets txs) (\<lambda>ts. bnd (min_txid ts (- 1)) (\<lambda>minId.
     if 0 < minId then modify (\<lambda>w. w\<lparr>freelist := freeList_release (minId - 1) (freelist w)\<rparr>) else ret ()))))"

definition begin_world :: "world \<Rightarrow> world" where
  "begin_world w = w\<lparr>rwLock := True, metaLock := True, nextPtr := Suc (nextPtr w),
     txHeap := (txHeap w)(TxPtr (nextPtr w) \<mapsto> Tx_new), rwtx := Some (TxPtr (nextPtr w))\<rparr>"

lemma beginRWTx_free:
  assumes "beginRWTx w = Inr (r, w')" and "opened w" and "\<not> readOnly w"
  shows "\<not> rwLock w \<and> \<not> metaLock w"
  using assms by (auto simp: beginRWTx_def act_simps lock_rwLock_def lock_metaLock_def split: if_splits)

lemma beginRWTx_run:
  assumes "beginRWTx w = Inr (r, w')" and "opened w" and "\<not> readOnly w"
  obtains w2 where "begin_body (TxPtr (nextPtr w)) (begin_world w) = Inr ((), w2)" and "r = Some (TxPtr (nextPtr w))"
    and "w' = w2\<lparr>metaLock := False\<rparr>"
proof -
  let ?t = "TxPtr (nextPtr w)"
  have "beginRWTx w = and_then (begin_body ?t (begin_world w)) (\<lambda>xw. Inr (Some ?t, (snd xw)\<lparr>metaLock := False\<rparr>))"
    using beginRWTx_free [OF assms] assms(2,3)
    by (simp add: beginRWTx_def act_simps lock_rwLock_def lock_metaLock_def unlock_metaLock_def new_tx_def
        Let_def begin_world_def begin_body_def and_then_assoc)
  then show thesis using assms(1) that by (cases "begin_body ?t (begin_world w)") auto
qed

lemma beginRWTx_none:
  assumes "beginRWTx w = Inr (r, w')" and "readOnly w \<or> \<not> opened w"
  shows "r = None \<and> tx_state w' = tx_state w"
  using assms
  by (auto simp: beginRWTx_def act_simps lock_rwLock_def lock_metaLock_def writerLeave_def unlock_metaLock_def
      tx_state_def split: if_splits)

lemma beginRWTx_state:
  assumes "beginRWTx w = Inr (Some t, w')"
  shows "tx_state w' = (True, False, Some t, txs w, True, False)"
proof -
  have open_w: "opened w" "\<not> readOnly w" using beginRWTx_none [OF assms] by auto
  from beginRWTx_run [OF assms open_w] obtain w2 where w2: "begin_body (TxPtr (nextPtr w)) (begin_world w) = Inr ((), w2)"
    "t = TxPtr (nextPtr w)" "w' = w2\<lparr>metaLock := False\<rparr>" by (metis option.inject)
  have "pres same_tx_state (begin_body (TxPtr (nextPtr w)))" unfolding begin_body_def by (intro frame_intro)
  then have "tx_state w2 = tx_state (begin_world w)" using w2(1) by (rule presD)
  then show ?thesis using w2(2,3) open_w by (simp add: tx_state_def begin_world_def)
qed

lemma beginRWTx_blocked: "rwLock w \<Longrightarrow> \<not> readOnly w \<Longrightarrow> beginRWTx w = Inl Deadlock"
  by (simp add: beginRWTx_def act_simps lock_rwLock_def)

lemma set_managed_locks: "pres same_tx_state (set_managed t v)"
  unfolding set_managed_def by (intro frame_intro)

text \<open>An update that started: the user function ran and what followed.\<close>

lemma update_run:
  assumes "DB_update fuel hs fn w = Inr (rc, w')" and "opened w" and "\<not> readOnly w" and "user_fn fn"
  obtains t w1 w2 w3 r where "tx_state w1 = (True, False, Some t, txs w, True, False)" and "fn t w1 = Inr (r, w2)"
    and "tx_state w3 = tx_state w1"
    and "r \<noteq> 0 \<Longrightarrow> \<exists>k. Tx_rollback t w3 = Inr (k, w')" and "r \<noteq> 0 \<Longrightarrow> rc = - 1"
    and "r = 0 \<Longrightarrow> \<exists>w4. Tx_commit fuel hs t w3 = Inr (rc, w4) \<and> closeTx (Some t) w4 = Inr ((), w')"
proof -
  from assms(1) obtain tx w0 where b: "beginRWTx w = Inr (tx, w0)" by (auto simp: DB_update_def act_simps and_then_Inr_iff)
  obtain t where t: "tx = Some t" using beginRWTx_run [OF b assms(2,3)] by metis
  have ts: "tx_state w0 = (True, False, Some t, txs w, True, False)" using beginRWTx_state b t by metis
  from assms(1) b t obtain w1 r w2 w3 where
    r: "set_managed t True w0 = Inr ((), w1)" "fn t w1 = Inr (r, w2)" "set_managed t False w2 = Inr ((), w3)"
    and rest: "(if r \<noteq> 0 then thn (Tx_rollback t) (ret (- 1))
       else bnd (Tx_commit fuel hs t) (\<lambda>result. thn (closeTx (Some t)) (ret result))) w3 = Inr (rc, w')"
    by (auto simp: DB_update_def act_simps and_then_Inr_iff)
  have "pres same_tx_state (fn t)" using assms(4) by (simp add: user_fn_def)
  then have "tx_state w2 = tx_state w1" using r(2) by (rule presD)
  then have s: "tx_state w1 = tx_state w0" "tx_state w3 = tx_state w1"
    using presD [OF set_managed_locks r(1)] presD [OF set_managed_locks r(3)] by auto
  show thesis
    by (rule that [OF _ r(2)]) (use s ts rest in \<open>auto simp: act_simps and_then_Inr_iff\<close>)
qed

text \<open>
  C15: \<open>DB::update\<close> gives the writer lock back. Whenever the user function returns 0 and the call of
  \<open>update\<close> ends, whether the commit succeeded or not, the writer lock is free and no write transaction is
  open, and the open read transactions are the same as before.
\<close>

theorem update_releases_lock:
  assumes "DB_update fuel hs fn w = Inr (rc, w')" and "opened w" and "\<not> readOnly w" and "user_fn fn"
    and "\<forall>h \<in> set hs. pres same_tx_state h" and "\<forall>t u r v. fn t u = Inr (r, v) \<longrightarrow> r = 0"
  shows "tx_state w' = (False, False, None, txs w, True, False)"
proof -
  from update_run [OF assms(1-4)] obtain t w1 w2 w3 r where u:
    "tx_state w1 = (True, False, Some t, txs w, True, False)" "fn t w1 = Inr (r, w2)" "tx_state w3 = tx_state w1"
    "r = 0 \<Longrightarrow> \<exists>w4. Tx_commit fuel hs t w3 = Inr (rc, w4) \<and> closeTx (Some t) w4 = Inr ((), w')" by metis
  have "r = 0" using assms(6) u(2) by blast
  with u(4) obtain w4 where c: "Tx_commit fuel hs t w3 = Inr (rc, w4)" "closeTx (Some t) w4 = Inr ((), w')" by blast
  have "tx_state w4 = tx_state w3" using presD [OF Tx_commit_locks c(1)] assms(5) by blast
  then show ?thesis using c(2) u(1,3)
    by (auto simp: closeTx_def resetRWTX_def writerLeave_def act_simps tx_state_def)
qed

text \<open>
  C36: A failing user function blocks all later writers. When it returns a non-zero value, \<open>update\<close> rolls
  back and returns -1 without closing the transaction: the writer lock stays locked, and every later
  \<open>update\<close> waits for it forever.
\<close>

theorem failed_update_blocks_writers:
  assumes "DB_update fuel hs fn w = Inr (rc, w')" and "opened w" and "\<not> readOnly w" and "user_fn fn"
    and "\<forall>t u r v. fn t u = Inr (r, v) \<longrightarrow> r \<noteq> 0"
  shows "rc = - 1 \<and> rwLock w' \<and> DB_update fuel' hs' fn' w' = Inl Deadlock"
proof -
  from update_run [OF assms(1-4)] obtain t w1 w2 w3 r where u:
    "tx_state w1 = (True, False, Some t, txs w, True, False)" "fn t w1 = Inr (r, w2)" "tx_state w3 = tx_state w1"
    "r \<noteq> 0 \<Longrightarrow> \<exists>k. Tx_rollback t w3 = Inr (k, w')" "r \<noteq> 0 \<Longrightarrow> rc = - 1" by metis
  have "r \<noteq> 0" using assms(5) u(2) by blast
  then obtain k where "Tx_rollback t w3 = Inr (k, w')" "rc = - 1" using u(4,5) by blast
  then have "tx_state w' = tx_state w1" using presD [OF on_locks.pres_rollback] u(3) by metis
  then have "rwLock w'" "\<not> readOnly w'" using u(1) by (simp_all add: tx_state_def)
  then show ?thesis using \<open>rc = - 1\<close> beginRWTx_blocked by (simp add: DB_update_def act_simps)
qed

section \<open>An open database\<close>

text \<open>The state \<open>DB::Open\<close> leaves behind for a new file.\<close>

definition opened_new :: "world \<Rightarrow> bool" where
  "opened_new w \<longleftrightarrow> init_image 4096 = Inr (disk w) \<and> mapped w \<and> datasz w = 32768 \<and> pageSize w = 4096"

lemma opened_new_pages:
  assumes "opened_new w"
  shows "DB_getMeta w = Inr (init_meta_of 4096 1, w)"
    and "\<exists>b. page_bytes w (MapPage (mapGen w) 2) = Inr b \<and> page_id b = Inr 2 \<and> page_count b = Inr 0"
proof -
  have w: "mapped w" "datasz w = 32768" "pageSize w = 4096" using assms by (simp_all add: opened_new_def)
  obtain img where img: "disk w = img" "length img = 16384"
      "read_meta (image_page 4096 0 img) = Inr (init_meta_of 4096 0)"
      "read_meta (image_page 4096 1 img) = Inr (init_meta_of 4096 1)"
      "page_id (image_page 4096 2 img) = Inr 2" "page_count (image_page 4096 2 img) = Inr 0"
    using init_image_spec [of 4096] assms by (auto simp: opened_new_def)
  show "DB_getMeta w = Inr (init_meta_of 4096 1, w)"
    using w img getMeta_init [of 4096]
    by (simp add: DB_getMeta_def act_simps page_meta_apply map_offset_def image_page_def)
  show "\<exists>b. page_bytes w (MapPage (mapGen w) 2) = Inr b \<and> page_id b = Inr 2 \<and> page_count b = Inr 0"
    using w img by (simp add: map_offset_def image_page_def)
qed

lemma opened_new_cong:
  "opened_new w \<Longrightarrow> disk v = disk w \<Longrightarrow> mapped v = mapped w \<Longrightarrow> datasz v = datasz w \<Longrightarrow> pageSize v = pageSize w \<Longrightarrow> opened_new v"
  by (simp add: opened_new_def)

definition world_open :: world where
  "world_open = world_example\<lparr>disk := (case init_image 4096 of Inr img \<Rightarrow> img | Inl _ \<Rightarrow> []), mapped := True,
     mapGen := 1, datasz := 32768, filesz := 16384, pageSize := 4096, opened := True, fd := 3,
     AllocSize := DEFAULTALLOCSIZE\<rparr>"

lemma world_open_new: "opened_new world_open"
  using init_image_spec [of 4096] by (auto simp: opened_new_def world_open_def)

lemma beginRWTx_open:
  "\<exists>w t. beginRWTx world_open = Inr (Some t, w) \<and> opened_new w \<and> mapGen w = 1 \<and> freelist w = freeList_new \<and>
     txHeap w t = Some \<lparr>writable = True, managed = False, tx_db = True, metaData = Some (init_meta_of 4096 2),
       rootBucket = Some (BucketPtr 1), dirtyPageTable = [], cursorCount = 0, nodeCount = 0, pageCount = 0, pageAlloc = 0\<rparr>"
proof -
  have m: "DB_getMeta v = Inr (init_meta_of 4096 1, v)" if "disk v = disk world_open" "mapped v = mapped world_open"
    "datasz v = datasz world_open" "pageSize v = pageSize world_open" for v
    using opened_new_pages(1) [OF opened_new_cong [OF world_open_new that]] .
  have i: "(init_meta_of 4096 1)\<lparr>meta_txid := meta_txid (init_meta_of 4096 1) + 1\<rparr> = init_meta_of 4096 2"
    by (simp add: init_meta_of_def)
  have f: "\<not> readOnly world_open" "\<not> rwLock world_open" "\<not> metaLock world_open" "opened world_open" "txs world_open = []"
    "nextPtr world_open = 0" "freelist world_open = freeList_new" "mapGen world_open = 1"
    by (simp_all add: world_open_def world_example_def)
  have r: "freeList_release x freeList_new = freeList_new" for x
    by (simp add: freeList_release_def freeList_new_def mergeids_def)
  show ?thesis
    using opened_new_cong [OF world_open_new]
    by (simp add: beginRWTx_def act_simps f lock_rwLock_def lock_metaLock_def new_tx_def Let_def setWriteable_def upd_tx_def
        Tx_new_def Tx_init_def newBucket_def new_bucket_def m setBucketHeader_def upd_bucket_def isWritable_def upd_meta_def
        tx_meta_def i unlock_metaLock_def r)
qed

lemma user_fn_examples: "user_fn (\<lambda>t. ret 1)" "user_fn (\<lambda>t. thn (setWriteable t False) (ret 0))"
  unfolding user_fn_def by (intro allI frame_intro)+

theorem update_releases_lock_witness:
  "\<exists>rc w'. DB_update 9 [] (\<lambda>t. thn (setWriteable t False) (ret 0)) world_open = Inr (rc, w') \<and> \<not> rwLock w' \<and> rwtx w' = None"
proof -
  let ?fn = "\<lambda>t. thn (setWriteable t False) (ret (0 :: int))"
  obtain w t where w: "beginRWTx world_open = Inr (Some t, w)" "txHeap w t = Some \<lparr>writable = True, managed = False, tx_db = True,
      metaData = Some (init_meta_of 4096 2), rootBucket = Some (BucketPtr 1), dirtyPageTable = [], cursorCount = 0, nodeCount = 0,
      pageCount = 0, pageAlloc = 0\<rparr>" using beginRWTx_open by blast
  have "\<exists>rc w'. DB_update 9 [] ?fn world_open = Inr (rc, w')"
    using w beginRWTx_state [OF w(1)]
    by (auto simp: DB_update_def act_simps set_managed_def upd_tx_def setWriteable_def Tx_commit_def closeTx_def resetRWTX_def
        writerLeave_def tx_state_def)
  then obtain rc w' where u: "DB_update 9 [] ?fn world_open = Inr (rc, w')" by blast
  have "opened world_open" "\<not> readOnly world_open" by (simp_all add: world_open_def world_example_def)
  from update_releases_lock [OF u this user_fn_examples(2)] have "tx_state w' = (False, False, None, txs world_open, True, False)"
    by (auto simp: act_simps and_then_Inr_iff)
  then show ?thesis using u by (auto simp: tx_state_def)
qed

theorem failed_update_blocks_writers_witness:
  "\<exists>w'. DB_update 9 [] (\<lambda>t. ret 1) world_open = Inr (- 1, w') \<and> DB_update 9 [] (\<lambda>t. ret 0) w' = Inl Deadlock"
proof -
  obtain w t where w: "beginRWTx world_open = Inr (Some t, w)" "opened_new w" "freelist w = freeList_new"
      "txHeap w t = Some \<lparr>writable = True, managed = False, tx_db = True,
      metaData = Some (init_meta_of 4096 2), rootBucket = Some (BucketPtr 1), dirtyPageTable = [], cursorCount = 0, nodeCount = 0,
      pageCount = 0, pageAlloc = 0\<rparr>" using beginRWTx_open by blast
  let ?v = "w\<lparr>txHeap := (txHeap w)(t \<mapsto> (the (txHeap w t))), freelist := freeList_rollback 2 freeList_new\<rparr>"
  have num: "freeListPageNumber (init_meta_of 4096 2) = 2" "meta_txid (init_meta_of 4096 2) = 2" by (simp_all add: init_meta_of_def)
  have "opened_new ?v" using w(2) by (rule opened_new_cong) simp_all
  then obtain b where b: "page_bytes ?v (MapPage (mapGen w) 2) = Inr b" "page_count b = Inr 0" using opened_new_pages(2) [of ?v] by auto
  obtain f where f: "freeList_reload b (freeList_rollback 2 freeList_new) = Inr f"
    using b(2) by (simp add: freeList_reload_def freeList_read_empty)
  have "mapped w" using w(2) by (simp add: opened_new_def)
  then have "\<exists>rc w'. DB_update 9 [] (\<lambda>t. ret 1) world_open = Inr (rc, w')"
    using w b(1) f
    by (auto simp: DB_update_def act_simps set_managed_def upd_tx_def Tx_rollback_def tx_meta_def num getPagePtr_def map_offset_def)
  then obtain rc w' where u: "DB_update 9 [] (\<lambda>t. ret 1) world_open = Inr (rc, w')" by blast
  have "opened world_open" "\<not> readOnly world_open" by (simp_all add: world_open_def world_example_def)
  from failed_update_blocks_writers [OF u this user_fn_examples(1)] show ?thesis using u by (auto simp: act_simps)
qed

section \<open>Reading\<close>

text \<open>A user function that only reads: it also leaves the mapping lock alone.\<close>

definition read_state :: "world \<Rightarrow> nat \<times> bool \<times> bool \<times> bool \<times> tx_ptr option \<times> tx_ptr list \<times> bool \<times> bool" where
  "read_state w = (mmapReaders w, mmapWriter w, tx_state w)"

definition reader_fn :: "(tx_ptr \<Rightarrow> int act) \<Rightarrow> bool" where
  "reader_fn fn \<longleftrightarrow> (\<forall>t w r w'. fn t w = Inr (r, w') \<longrightarrow> read_state w' = read_state w)"

abbreviation same_read_state :: "world \<Rightarrow> world \<Rightarrow> bool" where
  "same_read_state u v \<equiv> read_state v = read_state u"

interpretation on_reads: frame same_read_state
  by unfold_locales auto

lemma reading_locks:
  "pres same_read_state (get_tx t)" "pres same_read_state (upd_tx t f)" "pres same_read_state (newBucket t)"
  "pres same_read_state (setBucketHeader b h)" "pres same_read_state (upd_meta t mf)" "pres same_read_state (isWritable t)"
  "pres same_read_state DB_getMeta" "pres same_read_state (set_managed t v)" "pres same_read_state (tx_meta t)"
  "pres same_read_state (getPagePtr i)" "pres same_read_state (get_page q)"
  "pres same_read_state (modify (\<lambda>w. w\<lparr>freelist := g w\<rparr>))"
  by (auto simp: pres_def act_simps and_then_Inr_iff upd_tx_def newBucket_def new_bucket_def setBucketHeader_def upd_bucket_def
      upd_meta_def tx_meta_def isWritable_def DB_getMeta_def page_meta_def getPagePtr_def set_managed_def read_state_def
      tx_state_def Let_def)

lemma reading_ops: "pres same_read_state (Tx_init t)" "pres same_read_state (Tx_rollback t)"
  unfolding Tx_init_def Tx_rollback_def by (intro frame_intro reading_locks)+

lemma beginTx_state:
  assumes "beginTx w = Inr (r, w')" and "opened w"
  shows "r = Some (TxPtr (nextPtr w)) \<and>
    read_state w' = (Suc (mmapReaders w), False, rwLock w, False, rwtx w, txs w @ [TxPtr (nextPtr w)], True, readOnly w) \<and>
    \<not> mmapWriter w \<and> \<not> metaLock w"
proof -
  let ?t = "TxPtr (nextPtr w)"
  define w1 where "w1 = w\<lparr>metaLock := True, mmapReaders := Suc (mmapReaders w), nextPtr := Suc (nextPtr w),
    txHeap := (txHeap w)(?t \<mapsto> Tx_new), txs := txs w @ [?t]\<rparr>"
  have l: "\<not> metaLock w" "\<not> mmapWriter w"
    using assms by (auto simp: beginTx_def act_simps lock_metaLock_def getMmapRLock_def split: if_splits)
  have "beginTx w = and_then (Tx_init ?t w1) (\<lambda>xw. Inr (Some ?t, (snd xw)\<lparr>metaLock := False\<rparr>))"
    using assms(2) l by (simp add: beginTx_def act_simps lock_metaLock_def getMmapRLock_def unlock_metaLock_def new_tx_def
        Let_def w1_def)
  then obtain w2 where w2: "Tx_init ?t w1 = Inr ((), w2)" "r = Some ?t" "w' = w2\<lparr>metaLock := False\<rparr>"
    using assms(1) by (cases "Tx_init ?t w1") auto
  have "read_state w2 = read_state w1" using presD [OF reading_ops(1) w2(1)] .
  then show ?thesis using w2(2,3) assms(2) l by (simp add: read_state_def tx_state_def w1_def)
qed

text \<open>
  C16: \<open>DB::view\<close> cleans up on every path. Whatever the user function returns, when the call ends the
  locks, the number of holders of the mapping lock, and the lists of open transactions are those from
  before the call.
\<close>

theorem view_restores_locks:
  assumes "DB_view fn w = Inr (rc, w')" and "opened w" and "reader_fn fn"
    and "TxPtr (nextPtr w) \<notin> set (txs w)" and "rwtx w \<noteq> Some (TxPtr (nextPtr w))"
  shows "read_state w' = read_state w"
proof -
  let ?t = "TxPtr (nextPtr w)"
  from assms(1) obtain tx w0 where b: "beginTx w = Inr (tx, w0)" by (auto simp: DB_view_def act_simps and_then_Inr_iff)
  note bs = beginTx_state [OF b assms(2)]
  from assms(1) b bs obtain w1 r w2 w3 k w4 where
    r: "set_managed ?t True w0 = Inr ((), w1)" "fn ?t w1 = Inr (r, w2)" "set_managed ?t False w2 = Inr ((), w3)"
      "Tx_rollback ?t w3 = Inr (k, w4)" "closeTx (Some ?t) w4 = Inr ((), w')"
    by (auto simp: DB_view_def act_simps and_then_Inr_iff split: if_splits)
  have "read_state w2 = read_state w1" using assms(3) r(2) by (auto simp: reader_fn_def)
  then have s: "read_state w4 = read_state w0"
    using presD [OF reading_locks(8) r(1)] presD [OF reading_locks(8) r(3)] presD [OF reading_ops(2) r(4)] by simp
  have rm: "remove1 ?t (txs w @ [?t]) = txs w" using assms(4) by (simp add: remove1_append remove1_idem)
  show ?thesis using r(5) s bs assms(2,5) rm
    by (auto simp: closeTx_def removeTx_def act_simps unlockMmapLock_def lock_metaLock_def unlock_metaLock_def
        read_state_def tx_state_def split: if_splits)
qed

theorem view_restores_locks_witness:
  "\<exists>w'. DB_view (\<lambda>t. ret 3) world_open = Inr (- 1, w') \<and> mmapReaders w' = 0 \<and> txs w' = []"
proof -
  have m: "DB_getMeta v = Inr (init_meta_of 4096 1, v)" if "disk v = disk world_open" "mapped v = mapped world_open"
    "datasz v = datasz world_open" "pageSize v = pageSize world_open" for v
    using opened_new_pages(1) [OF opened_new_cong [OF world_open_new that]] .
  have f: "\<not> readOnly world_open" "\<not> rwLock world_open" "\<not> metaLock world_open" "opened world_open" "txs world_open = []"
    "nextPtr world_open = 0" "rwtx world_open = None" "\<not> mmapWriter world_open" "mmapReaders world_open = 0"
    by (simp_all add: world_open_def world_example_def)
  have "\<exists>w'. DB_view (\<lambda>t. ret 3) world_open = Inr (- 1, w')"
    by (simp add: DB_view_def beginTx_def act_simps f lock_metaLock_def getMmapRLock_def new_tx_def Let_def upd_tx_def
        Tx_new_def Tx_init_def newBucket_def new_bucket_def m setBucketHeader_def upd_bucket_def isWritable_def upd_meta_def
        tx_meta_def unlock_metaLock_def set_managed_def Tx_rollback_def closeTx_def removeTx_def unlockMmapLock_def)
  then obtain w' where u: "DB_view (\<lambda>t. ret 3) world_open = Inr (- 1, w')" by blast
  have "reader_fn (\<lambda>t. ret 3)" by (simp add: reader_fn_def act_simps)
  from view_restores_locks [OF u f(4) this] show ?thesis using f u by (auto simp: read_state_def tx_state_def)
qed

section \<open>Readers and the freelist\<close>

lemma min_txid_spec:
  "min_txid ts k0 u = Inr (k, v) \<Longrightarrow> v = u \<and> k \<le> k0 \<and>
     (\<forall>r x m. r \<in> set ts \<longrightarrow> txHeap u r = Some x \<longrightarrow> metaData x = Some m \<longrightarrow> k \<le> meta_txid m)"
proof (induction ts arbitrary: k0)
  case Nil
  then show ?case by (simp add: act_simps)
next
  case (Cons t ts)
  from Cons.prems obtain x m where x: "txHeap u t = Some x" "metaData x = Some m"
    and rest: "min_txid ts (min k0 (meta_txid m)) u = Inr (k, v)"
    by (auto simp: act_simps tx_meta_def and_then_Inr_iff of_option_Inr_iff)
  then show ?case using Cons.IH [OF rest] by auto
qed

text \<open>Initialising a transaction changes no other transaction and not the freelist.\<close>

abbreviation same_others :: "tx_ptr \<Rightarrow> world \<Rightarrow> world \<Rightarrow> bool" where
  "same_others t u v \<equiv> freelist v = freelist u \<and> (\<forall>r. r \<noteq> t \<longrightarrow> txHeap v r = txHeap u r) \<and> txs v = txs u"

interpretation on_others: frame "same_others t" for t
  by unfold_locales auto

lemma init_others: "pres (same_others t) (Tx_init t)" "pres (same_others t) (setWriteable t b)"
proof -
  have p: "pres (same_others t) (upd_tx t f)" "pres (same_others t) (newBucket t)"
    "pres (same_others t) (setBucketHeader bp h)" "pres (same_others t) (upd_meta t mf)" "pres (same_others t) (isWritable t)"
    "pres (same_others t) DB_getMeta" for f bp h mf
    by (auto simp: pres_def act_simps and_then_Inr_iff upd_tx_def newBucket_def new_bucket_def setBucketHeader_def
        upd_bucket_def upd_meta_def tx_meta_def isWritable_def DB_getMeta_def page_meta_def getPagePtr_def Let_def)
  show "pres (same_others t) (Tx_init t)" unfolding Tx_init_def by (intro frame_intro p)
  show "pres (same_others t) (setWriteable t b)" unfolding setWriteable_def by (rule p)
qed

lemma below_predecessor: "0 < (k :: u64) \<Longrightarrow> k \<le> t \<Longrightarrow> \<not> t \<le> k - 1"
  using unat_gt_0 [of k] by (auto simp: word_le_nat_alt word_less_nat_alt unat_minus_one)

lemma beginRWTx_release:
  assumes "beginRWTx w = Inr (Some t, w')"
  obtains k where "freelist w' = (if 0 < k then freeList_release (k - 1) (freelist w) else freelist w)"
    and "\<And>r x m. r \<in> set (txs w) \<Longrightarrow> r \<noteq> TxPtr (nextPtr w) \<Longrightarrow> txHeap w r = Some x \<Longrightarrow> metaData x = Some m \<Longrightarrow> k \<le> meta_txid m"
proof -
  let ?t = "TxPtr (nextPtr w)"
  have open_w: "opened w" "\<not> readOnly w" using beginRWTx_none [OF assms] by auto
  from beginRWTx_run [OF assms open_w] obtain w5 where b: "begin_body ?t (begin_world w) = Inr ((), w5)"
    "w' = w5\<lparr>metaLock := False\<rparr>" by blast
  from b(1) obtain w2 w3 k w4 where c: "setWriteable ?t True (begin_world w) = Inr ((), w2)" "Tx_init ?t w2 = Inr ((), w3)"
    "min_txid (txs w3) (- 1) w3 = Inr (k, w4)"
    "(if 0 < k then modify (\<lambda>w. w\<lparr>freelist := freeList_release (k - 1) (freelist w)\<rparr>) else ret ()) w4 = Inr ((), w5)"
    unfolding begin_body_def by (auto simp: act_simps and_then_Inr_iff cong: if_cong)
  have s: "same_others ?t (begin_world w) w3" using presD [OF init_others(2) c(1)] presD [OF init_others(1) c(2)] by auto
  note m = min_txid_spec [OF c(3)]
  have "freelist w' = (if 0 < k then freeList_release (k - 1) (freelist w) else freelist w)"
    using b(2) c(4) m s by (auto simp: act_simps begin_world_def split: if_splits)
  moreover have "k \<le> meta_txid mm" if "r \<in> set (txs w)" "r \<noteq> ?t" "txHeap w r = Some x" "metaData x = Some mm" for r x mm
    using m s that by (auto simp: begin_world_def)
  ultimately show thesis by (rule that)
qed

text \<open>
  C14: A new writer takes no page from an open reader. Let a read transaction work on the snapshot of
  transaction \<open>n\<close>. When \<open>beginRWTx\<close> releases pending pages for reuse, every page that a transaction
  numbered \<open>n\<close> or higher gave up stays pending and is not allocatable, and the freelist stays well-formed.
\<close>

theorem writer_respects_readers:
  assumes "beginRWTx w = Inr (Some t, w')" and "fl_inv (freelist w)"
    and "r \<in> set (txs w)" and "r \<noteq> TxPtr (nextPtr w)" and "txHeap w r = Some x" and "metaData x = Some m"
    and "meta_txid m \<le> tid"
  shows "fl_inv (freelist w') \<and> pending_of (freelist w') tid = pending_of (freelist w) tid \<and>
    (\<forall>p \<in> set (pending_of (freelist w) tid). p \<notin> set (ids (freelist w')))"
proof -
  from beginRWTx_release [OF assms(1)] obtain k where
    k: "freelist w' = (if 0 < k then freeList_release (k - 1) (freelist w) else freelist w)"
    and "k \<le> meta_txid m" using assms(3-6) by metis
  then have le: "k \<le> tid" using assms(7) by simp
  have inv: "fl_inv (freelist w')" using k freeList_release_spec(1) [OF assms(2)] assms(2) by simp
  have pend: "pending_of (freelist w') tid = pending_of (freelist w) tid"
    using k freeList_release_spec(3) [OF assms(2), of "k - 1"] below_predecessor [OF _ le] by auto
  have "p \<notin> set (ids (freelist w'))" if "p \<in> set (pending_of (freelist w') tid)" for p
  proof -
    have "p \<in> set (pending_ids (freelist w'))"
      using that map_of_SomeD [of "pending (freelist w')" tid]
      by (force simp: pending_of_def pending_ids_def split: option.splits)
    then show ?thesis using inv by (auto simp: fl_inv_def)
  qed
  then show ?thesis using inv pend by simp
qed

definition reader_example :: tx where
  "reader_example = Tx_new\<lparr>tx_db := True, metaData := Some (init_meta_of 4096 1)\<rparr>"

definition world_reader :: world where
  "world_reader = world_open\<lparr>txs := [TxPtr 5], txHeap := [TxPtr 5 \<mapsto> reader_example],
     freelist := \<lparr>ids = [], pending = [(1, [7])], cache = Map.empty\<rparr>\<rparr>"

theorem writer_respects_readers_witness:
  "\<exists>t w'. beginRWTx world_reader = Inr (Some t, w') \<and> pending_of (freelist w') 1 = [7] \<and> 7 \<notin> set (ids (freelist w'))"
proof -
  have nw: "opened_new world_reader" using world_open_new by (rule opened_new_cong) (simp_all add: world_reader_def)
  have m: "DB_getMeta v = Inr (init_meta_of 4096 1, v)" if "disk v = disk world_reader" "mapped v = mapped world_reader"
    "datasz v = datasz world_reader" "pageSize v = pageSize world_reader" for v
    using opened_new_pages(1) [OF opened_new_cong [OF nw that]] .
  have f: "\<not> readOnly world_reader" "\<not> rwLock world_reader" "\<not> metaLock world_reader" "opened world_reader"
    "txs world_reader = [TxPtr 5]" "nextPtr world_reader = 0" "txHeap world_reader = [TxPtr 5 \<mapsto> reader_example]"
    "freelist world_reader = \<lparr>ids = [], pending = [(1, [7])], cache = Map.empty\<rparr>"
    by (simp_all add: world_reader_def world_open_def world_example_def)
  have "\<exists>t w'. beginRWTx world_reader = Inr (Some t, w')"
    by (simp add: beginRWTx_def act_simps f lock_rwLock_def lock_metaLock_def new_tx_def Let_def setWriteable_def upd_tx_def
        Tx_new_def Tx_init_def newBucket_def new_bucket_def m setBucketHeader_def upd_bucket_def isWritable_def upd_meta_def
        tx_meta_def unlock_metaLock_def reader_example_def)
  then obtain t w' where u: "beginRWTx world_reader = Inr (Some t, w')" by blast
  have "fl_inv (freelist world_reader)" by (simp add: f fl_inv_def pending_ids_def)
  from writer_respects_readers [OF u this, of "TxPtr 5" reader_example "init_meta_of 4096 1" 1]
  show ?thesis using u by (auto simp: f reader_example_def init_meta_of_def pending_of_def)
qed

end
