(* ===== verification/Commit_Safety.thy ===== *)
theory Commit_Safety
  imports Spare_Pages Db_Tx_Correct
begin

unbundle bit_operations_syntax

text \<open>
  The phases of a commit: before the meta page is written, however the commit ends, the bytes of every page
  that was in use when it began are the same, since the writes go to buffers that \<open>Spare_Pages\<close> shows to be
  spare; then one meta page is replaced. \<open>Commit_Atomic\<close> states what this gives.
\<close>

section \<open>Bytes that stay\<close>

definition keeps_bytes :: "nat set \<Rightarrow> buffer \<Rightarrow> buffer \<Rightarrow> bool" where
  "keeps_bytes J f g \<longleftrightarrow> (\<forall>j \<in> J. j < length f \<longrightarrow> j < length g \<and> g ! j = f ! j)"

text \<open>The bytes of the pages below \<open>T\<close> that are not in \<open>F\<close>.\<close>

definition used_bytes :: "pgid set \<Rightarrow> pgid \<Rightarrow> u32 \<Rightarrow> nat set" where
  "used_bytes F T ps = {j. j div unat ps < unat T \<and> of_nat (j div unat ps) \<notin> F}"

lemma keeps_bytes_refl [simp]: "keeps_bytes J f f"
  by (simp add: keeps_bytes_def)

lemma keeps_bytes_trans: "keeps_bytes J f g \<Longrightarrow> keeps_bytes J g h \<Longrightarrow> keeps_bytes J f h"
  by (auto simp: keeps_bytes_def)

lemma file_write_keeps:
  assumes "\<forall>j \<in> J. j < off \<or> off + length bs \<le> j"
  shows "keeps_bytes J f (file_write bs off f)"
  unfolding keeps_bytes_def
proof (intro ballI impI)
  fix j
  assume j: "j \<in> J" "j < length f"
  consider "j < off" | "off + length bs \<le> j" using assms j(1) by blast
  then show "j < length (file_write bs off f) \<and> file_write bs off f ! j = f ! j"
    using j(2) by cases (auto simp: file_write_def nth_append min_def)
qed

lemma truncate_keeps: "\<forall>j \<in> J. j < n \<Longrightarrow> keeps_bytes J f (truncate_disk n f)"
  by (auto simp: keeps_bytes_def truncate_disk_def nth_append)

lemma writeAt_keeps:
  assumes "writeAt bs off w = Inr (r, w')" and "\<forall>j \<in> J. j < off \<or> off + length bs \<le> j"
  shows "keeps_bytes J (disk w) (disk w')" and "w' = w\<lparr>clock := clock w', disk := disk w'\<rparr>"
  using assms file_write_keeps [of J off "take k bs" "disk w" for k]
  by (auto simp: writeAt_def split: option.splits) (metis (no_types, lifting) le_trans min.cobounded1 nat_add_left_cancel_le)+

section \<open>Writing the dirty pages\<close>

lemma spare_range:
  fixes ov ps :: u32
  assumes "unat pid + unat ov < unat n" and "set (page_run pid (Suc (unat ov))) \<subseteq> F \<union> {T..}"
    and "unat n * unat ps < 2 ^ 31" and "ps \<noteq> 0" and "j \<in> used_bytes F T ps"
  shows "j < unat (pid * ucast ps) \<or> unat (pid * ucast ps) + unat ((ov + 1) * ps) \<le> j"
proof (rule ccontr)
  assume "\<not> ?thesis"
  then have j: "unat (pid * ucast ps) \<le> j" "j < unat (pid * ucast ps) + unat ((ov + 1) * ps)" by simp_all
  have ps: "0 < unat ps" using assms(4) by (simp add: unat_gt_0)
  have "unat pid * unat ps \<le> unat n * unat ps" using assms(1) by (intro mult_le_mono1) simp
  from le_less_trans [OF this assms(3)] have "unat pid * unat ps < 2 ^ 64" by simp
  then have off: "unat (pid * ucast ps) = unat pid * unat ps"
    using of_nat_unat_u32 [of ps, symmetric] unsigned_less [of ps, where ?'a = nat] by (simp add: unat_word_ariths unat_of_nat)
  have "unat ((ov + 1) * ps) \<le> unat (ov + 1) * unat ps" by (simp add: unat_word_ariths)
  also have "\<dots> \<le> Suc (unat ov) * unat ps" by (intro mult_le_mono1) (simp add: unat_word_ariths)
  finally have len: "j < (unat pid + Suc (unat ov)) * unat ps" using j(2) off by (simp add: algebra_simps)
  let ?q = "j div unat ps"
  have "?q < unat pid + Suc (unat ov)" using len ps by (simp add: div_less_iff_less_mult)
  moreover have "unat pid \<le> ?q" using j(1) off ps by (simp add: less_eq_div_iff_mult_less_eq)
  ultimately have q: "unat pid \<le> ?q" "?q \<le> unat pid + unat ov" by simp_all
  then have "of_nat ?q = pid + of_nat (?q - unat pid)" "?q - unat pid < Suc (unat ov)" by (simp_all add: of_nat_diff)
  then have "of_nat ?q \<in> set (page_run pid (Suc (unat ov)))" by (auto simp: set_page_run)
  then have "(of_nat ?q :: pgid) \<in> F \<union> {T..}" using assms(2) by blast
  moreover have "unat (of_nat ?q :: pgid) = ?q"
    using assms(5) unsigned_less [of T, where ?'a = nat] by (simp add: used_bytes_def unat_of_nat)
  ultimately show False using assms(5) by (auto simp: used_bytes_def word_le_nat_alt)
qed

lemma write_pages_keeps:
  assumes "write_pages pages w = Inr (ok, w')" and "\<forall>p \<in> set pages. spare_page (F \<union> {T..}) n w p"
    and "pageSize w = ps" and "unat n * unat ps < 2 ^ 31" and "ps \<noteq> 0"
  shows "keeps_bytes (used_bytes F T ps) (disk w) (disk w')"
  using assms(1-3)
proof (induction pages arbitrary: w)
  case (Cons p pages)
  from Cons.prems(2) obtain a b pid ov where p: "p = HeapPage a" "pageHeap w a = Some b" "page_id b = Inr pid" "page_overflow b = Inr ov"
      "unat pid + unat ov < unat n" "set (page_run pid (Suc (unat ov))) \<subseteq> F \<union> {T..}" by (auto simp: spare_page_def)
  from Cons.prems(1,3) p(1-4) obtain bs r w1 where w1: "read_bytes b 0 (unat ((ov + 1) * ps)) = Inr bs"
      "writeAt bs (unat (pid * ucast ps)) w = Inr (r, w1)" "w' = w1 \<or> write_pages pages w1 = Inr (ok, w')"
    by (auto simp: act_simps and_then_Inr_iff Let_def split: if_splits)
  have "length bs = unat ((ov + 1) * ps)" using length_read_bytes [OF w1(1)] .
  then have out: "\<forall>j \<in> used_bytes F T ps. j < unat (pid * ucast ps) \<or> unat (pid * ucast ps) + length bs \<le> j"
    using spare_range [OF p(5,6) assms(4,5)] by simp
  note k = writeAt_keeps [OF w1(2) out]
  have "\<forall>p \<in> set pages. spare_page (F \<union> {T..}) n w1 p" "pageSize w1 = ps"
    using Cons.prems(2,3) k(2) by (cases w1; auto simp: spare_page_def)+
  then show ?case using w1(3) Cons.IH [of w1] k(1) keeps_bytes_trans by blast
qed (simp add: act_simps)

section \<open>Growing the file\<close>

lemma keeps_bytes_subset: "keeps_bytes J f g \<Longrightarrow> I \<subseteq> J \<Longrightarrow> keeps_bytes I f g"
  by (auto simp: keeps_bytes_def)

lemma writing_parts:
  "pres (\<lambda>u v. heap_part v = heap_part u) (writeAt bs off)" "pres (\<lambda>u v. heap_part v = heap_part u) (DB_grow sz)"
  "pres (\<lambda>u v. heap_part v = heap_part u) syscall" "pres (\<lambda>u v. heap_part v = heap_part u) (get_page p)"
  by (auto simp: pres_def writeAt_def DB_grow_def act_simps syscall_def and_then_Inr_iff heap_part_def Let_def
      split: option.splits if_splits)

lemma DB_grow_mapping: "pres (\<lambda>u v. mapped v = mapped u \<and> datasz v = datasz u) (DB_grow sz)"
  by (auto simp: pres_def DB_grow_def act_simps syscall_def and_then_Inr_iff Let_def split: if_splits)

lemma write_pages_parts: "pres (\<lambda>u v. heap_part v = heap_part u) (write_pages ps)"
  by (induction ps) (simp_all only: write_pages.simps, (intro frame_intro writing_parts | assumption)+)

lemma writing_env: "pres same_env (writeAt bs off)" "pres same_env (DB_grow sz)" "pres same_env (Tx_write t)"
proof -
  show w: "pres same_env (writeAt bs off)" "pres same_env (DB_grow sz)" for bs off
    by (auto simp: pres_def writeAt_def DB_grow_def act_simps syscall_def and_then_Inr_iff Let_def split: option.splits if_splits)
  have "pres same_env (write_pages ps)" for ps
    by (induction ps) (simp_all only: write_pages.simps, (intro frame_intro w | assumption)+)
  then show "pres same_env (Tx_write t)" unfolding Tx_write_def by (intro frame_intro)
qed

text \<open>The file is never cut below the pages the database had when the commit began.\<close>

lemma DB_grow_keeps:
  fixes k :: pgid
  assumes "DB_grow (ucast ((k + 1) * ucast ps)) w = Inr (rc, w')" and "(unat k + 1) * unat ps < 2 ^ 31" and "T \<le> k"
    and "int (unat T * unat ps) \<le> datasz w" and "datasz w < 2 ^ 32" and "0 \<le> AllocSize w" and "AllocSize w < 2 ^ 31" and "ps \<noteq> 0"
  shows "keeps_bytes (used_bytes F T ps) (disk w) (disk w')"
proof -
  let ?sz = "ucast ((k + 1) * ucast ps) :: u32"
  define n where "n = unat (if datasz w \<le> AllocSize w then word_of_int (datasz w) else ?sz + word_of_int (AllocSize w))"
  have sz: "unat ?sz = (unat k + 1) * unat ps" using minLen_covers [of k 0 ps] assms(2) by (simp add: to_int_def)
  have T: "unat T * unat ps \<le> (unat k + 1) * unat ps" using assms(3) by (intro mult_le_mono1) (simp add: word_le_nat_alt)
  have "0 \<le> datasz w" by (rule order_trans [OF _ assms(4)]) simp
  then have "unat T * unat ps \<le> unat (word_of_int (datasz w) :: u32)"
    using unat_word_of_int [of "datasz w"] assms(4,5) by (simp only: le_nat_iff)
  moreover have a: "unat (word_of_int (AllocSize w) :: u32) = nat (AllocSize w)" using unat_word_of_int [OF assms(6)] assms(7) by simp
  moreover have "nat (AllocSize w) < 2 ^ 31" using assms(6,7) by simp
  then have "unat (?sz + word_of_int (AllocSize w)) = unat ?sz + nat (AllocSize w)"
    using assms(2) a unfolding sz [symmetric] by (simp only: unat_word_ariths) simp
  ultimately have "unat T * unat ps \<le> n" using T sz unfolding n_def by simp
  then have "\<forall>j \<in> used_bytes F T ps. j < n"
    using assms(8) by (auto simp: used_bytes_def div_less_iff_less_mult unat_gt_0)
  moreover have "disk w' = disk w \<or> disk w' = truncate_disk n (disk w)"
    using assms(1) by (auto simp: DB_grow_def act_simps syscall_def and_then_Inr_iff Let_def n_def split: if_splits)
  ultimately show ?thesis using truncate_keeps by auto
qed

section \<open>Writing the meta page\<close>

lemma Tx_write_keeps:
  assumes "Tx_write t w = Inr (rc, w')" and "snap_inv K (F \<union> {T..}) T ps tid t w"
  shows "keeps_bytes (used_bytes F T ps) (disk w) (disk w')"
    and "\<exists>x m. txHeap w' t = Some x \<and> metaData x = Some m \<and> meta_ident m = tid"
proof -
  obtain x m where x: "txHeap w t = Some x" "metaData x = Some m" "meta_ident m = tid"
      "(unat (totalPageNumber m) + 4096 * (K - nextPtr w) + 1) * unat ps < 2 ^ 31"
      "\<forall>p \<in> snd ` set (dirtyPageTable x). spare_page (F \<union> {T..}) (totalPageNumber m) w p" "pageSize w = ps" "ps \<noteq> 0"
    using assms(2) unfolding snap_inv_def by blast
  let ?w = "w\<lparr>txHeap := (txHeap w)(t \<mapsto> x\<lparr>dirtyPageTable := []\<rparr>)\<rparr>"
    and ?pages = "sort_key (page_order w) (map snd (dirtyPageTable x))"
  obtain ok v where v: "write_pages ?pages ?w = Inr (ok, v)" "w' = v \<or> (\<exists>c. w' = v\<lparr>clock := c\<rparr>)"
    using assms(1) x(1) by (auto simp: Tx_write_def act_simps upd_tx_def syscall_def and_then_Inr_iff split: if_splits)
  have "unat (totalPageNumber m) * unat ps \<le> (unat (totalPageNumber m) + 4096 * (K - nextPtr w) + 1) * unat ps"
    by (intro mult_le_mono1) simp
  from le_less_trans [OF this x(4)] show "keeps_bytes (used_bytes F T ps) (disk w) (disk w')"
    using write_pages_keeps [OF v(1), of F T "totalPageNumber m" ps] v(2) x(5-7) by (auto simp: spare_page_def)
  have "txHeap v = txHeap ?w" using presD [OF write_pages_parts v(1)] by (simp add: heap_part_def)
  then show "\<exists>x m. txHeap w' t = Some x \<and> metaData x = Some m \<and> meta_ident m = tid"
    using v(2) x(2,3) by auto
qed

lemma meta_write_page:
  assumes "meta_write m p = Inr (m', b)" and "80 \<le> length p"
  shows "length b = length p" and "page_id b = Inr (meta_txid m mod 2)" and "read_meta b = Inr m'"
proof -
  have "bh_root (meta_root m) < totalPageNumber m" "freeListPageNumber m < totalPageNumber m"
    using assms(1) by (auto simp: meta_write_def and_then_Inr_iff check_def split: if_splits)
  from meta_write_spec [OF this assms(2)] show "length b = length p" "page_id b = Inr (meta_txid m mod 2)" "read_meta b = Inr m'"
    using assms(1) by auto
qed

text \<open>\<open>Tx::writeMeta\<close> is one write of a meta page to the place of page \<open>txid % 2\<close>.\<close>

lemma Tx_writeMeta_run:
  assumes "Tx_writeMeta t w = Inr (rc, w')" and "txHeap w t = Some x" and "metaData x = Some m"
  obtains b k where "meta_write m (replicate 4096 0) = Inr (m\<lparr>checksum := 0\<rparr>, b)" and "length b = 4096"
    and "\<exists>c. sys_pwrite (env w) c 4096 = k"
    and "disk w' = (case k of None \<Rightarrow> disk w | Some n \<Rightarrow> file_write (take n b) (unat (meta_txid m mod 2) * 4096) (disk w))"
    and "rc = 0 \<Longrightarrow> \<exists>n \<ge> 4096. k = Some n"
proof -
  let ?p = "meta_txid m mod 2"
  obtain m' b r v where b: "meta_write m (replicate 4096 0) = Inr (m', b)" and p: "page_id b = Inr ?p"
    and v: "writeAt b (unat (?p * 4096)) (w\<lparr>txHeap := (txHeap w)(t \<mapsto> x\<lparr>metaData := Some m'\<rparr>)\<rparr>) = Inr (r, v)" "disk w' = disk v"
    and z: "rc = 0 \<Longrightarrow> r = Some 4096"
    using assms meta_write_page [of m "replicate 4096 0"]
    by (auto simp: Tx_writeMeta_def act_simps tx_meta_def upd_meta_def upd_tx_def syscall_def and_then_Inr_iff result_iffs split: if_splits)
  have len: "length b = 4096" using meta_write_page(1) [OF b] by simp
  have m': "m' = m\<lparr>checksum := 0\<rparr>" using b by (auto simp: meta_write_def and_then_Inr_iff Let_def)
  have "unat ?p < 2" by (simp add: unat_mod)
  then have off: "unat (?p * 4096) = unat ?p * 4096" by (simp add: unat_word_ariths)
  show thesis
    by (rule that [of b "sys_pwrite (env w) (clock w) 4096"])
      (use b m' len v z off in \<open>auto simp: writeAt_def split: option.splits\<close>)
qed

lemma meta_page_keeps:
  assumes "length b = 4096"
  shows "keeps_bytes (used_bytes (insert p F) T 4096) f (file_write (take n b) (unat p * 4096) f)"
proof (rule file_write_keeps, intro ballI)
  fix j
  assume j: "j \<in> used_bytes (insert p F) T 4096"
  have "j < unat p * 4096 \<or> unat p * 4096 + 4096 \<le> j"
  proof (rule ccontr)
    assume "\<not> ?thesis"
    then have "j div 4096 = unat p" by (simp add: div_nat_eqI)
    then show False using j by (simp add: used_bytes_def)
  qed
  then show "j < unat p * 4096 \<or> unat p * 4096 + length (take n b) \<le> j" using assms by auto
qed

section \<open>Committing\<close>

text \<open>Handlers may create objects but do not write to the file.\<close>

abbreviation quiet :: "world \<Rightarrow> world \<Rightarrow> bool" where
  "quiet u v \<equiv> disk v = disk u \<and> nextPtr u \<le> nextPtr v"

interpretation quiet: frame quiet
  by unfold_locales auto

lemma abandon_quiet: "pres quiet (abandon t)"
proof -
  have "pres quiet (tx_meta t)" "pres quiet (get_tx t)" "pres quiet (modify (\<lambda>w. w\<lparr>freelist := f w\<rparr>))"
    "pres quiet (getPagePtr i)" "pres quiet (get_page p)" for f i p
    by (auto simp: pres_def act_simps tx_meta_def getPagePtr_def and_then_Inr_iff)
  then show ?thesis unfolding abandon_def Tx_rollback_def by (intro frame_intro)
qed

lemma handlers_quiet: "\<forall>h \<in> set hs. pres quiet h \<Longrightarrow> pres quiet (iterA (\<lambda>h. h) hs)"
  by (induction hs) (auto intro: frame_intro)

abbreviation keeps :: "nat set \<Rightarrow> world \<Rightarrow> world \<Rightarrow> bool" where
  "keeps J u v \<equiv> keeps_bytes J (disk u) (disk v)"

lemma grow_step:
  assumes "(if pageId < totalPageNumber m then DB_grow (ucast ((totalPageNumber m + 1) * ucast ps)) else ret 0) w = Inr (r, w')"
    and "snap_inv K (F \<union> {T..}) T ps tid t w" and "mapped w" and "txHeap w t = Some x" and "metaData x = Some m"
  shows "keeps_bytes (used_bytes F T ps) (disk w) (disk w')" and "snap_inv K (F \<union> {T..}) T ps tid t w'"
proof -
  have x: "T \<le> totalPageNumber m" "(unat (totalPageNumber m) + 4096 * (K - nextPtr w) + 1) * unat ps < 2 ^ 31"
    and base: "ps \<noteq> 0" "int (unat T * unat ps) \<le> datasz w" "datasz w < 2 ^ 32" "0 \<le> AllocSize w" "AllocSize w < 2 ^ 31"
    using assms(2-5) unfolding snap_inv_def by auto
  have "(unat (totalPageNumber m) + 1) * unat ps \<le> (unat (totalPageNumber m) + 4096 * (K - nextPtr w) + 1) * unat ps"
    by (intro mult_le_mono1) simp
  note len = le_less_trans [OF this x(2)]
  show "keeps_bytes (used_bytes F T ps) (disk w) (disk w')"
    using assms(1) DB_grow_keeps [OF _ len x(1) base(2-5,1)] by (auto simp: act_simps split: if_splits)
  have "heap_part w' = heap_part w" "mapped w' = mapped w" "datasz w' = datasz w"
    using assms(1) presD [OF writing_parts(2)] presD [OF DB_grow_mapping] by (auto simp: act_simps split: if_splits)
  then show "snap_inv K (F \<union> {T..}) T ps tid t w'"
    by (intro snap_inv_cong [OF assms(2)]) (auto simp: heap_part_def)
qed

lemma commit_write_next:
  assumes "\<forall>h \<in> set hs. pres quiet h"
  shows "pres (\<lambda>u v. nextPtr u \<le> nextPtr v) (commit_write hs t pageId)"
proof -
  have p: "pres (\<lambda>u v. nextPtr u \<le> nextPtr v) (write_pages ps)" "pres (\<lambda>u v. nextPtr u \<le> nextPtr v) (DB_grow sz)"
      "pres (\<lambda>u v. nextPtr u \<le> nextPtr v) (writeAt bs off)" "pres (\<lambda>u v. nextPtr u \<le> nextPtr v) syscall" for ps bs off sz
    using write_pages_parts writing_parts unfolding pres_def heap_part_def by fastforce+
  have q: "pres (\<lambda>u v. nextPtr u \<le> nextPtr v) (get_tx t)" "pres (\<lambda>u v. nextPtr u \<le> nextPtr v) (upd_tx t f)"
      "pres (\<lambda>u v. nextPtr u \<le> nextPtr v) (tx_meta t)" "pres (\<lambda>u v. nextPtr u \<le> nextPtr v) (upd_meta t g)" for f g
    by (auto simp: pres_def act_simps upd_tx_def tx_meta_def upd_meta_def and_then_Inr_iff)
  have r: "pres (\<lambda>u v. nextPtr u \<le> nextPtr v) (abandon t)" "pres (\<lambda>u v. nextPtr u \<le> nextPtr v) (iterA (\<lambda>h. h) hs)"
    using abandon_quiet [of t] handlers_quiet [OF assms] by (auto simp: pres_def)
  show ?thesis unfolding commit_write_def Tx_write_def Tx_writeMeta_def by (rule r p q frame_intro)+
qed

text \<open>
  What the second half of a commit does to the file: first it keeps every page in use, then it gives up
  or writes the meta page.
\<close>

definition meta_written :: "tx_ptr \<Rightarrow> u32 \<times> u32 \<times> txid \<Rightarrow> int \<Rightarrow> world \<Rightarrow> buffer \<Rightarrow> bool" where
  "meta_written t tid rc v d \<longleftrightarrow> (\<exists>x m r u. Tx_writeMeta t v = Inr (r, u) \<and> txHeap v t = Some x \<and> metaData x = Some m \<and>
     meta_ident m = tid \<and> d = disk u \<and> (rc = 0 \<longrightarrow> r = 0))"

lemma commit_write_phases:
  assumes "commit_write hs t pageId w = Inr (rc, w')" and "snap_inv K (F \<union> {T..}) T 4096 tid t w" and "mapped w"
    and "\<forall>h \<in> set hs. pres quiet h"
  shows "\<exists>v. keeps (used_bytes F T 4096) w v \<and> env v = env w \<and> (disk w' = disk v \<and> rc \<noteq> 0 \<or> meta_written t tid rc v (disk w'))"
proof -
  obtain x m where x: "txHeap w t = Some x" "metaData x = Some m" "pageSize w = 4096"
    using assms(2) unfolding snap_inv_def by blast
  define last where "last = (\<lambda>rc. if rc \<noteq> (0 :: int) then abandon t else thn (iterA (\<lambda>h. h) hs) (ret 0))"
  define mid where "mid = (\<lambda>rc. if rc \<noteq> (0 :: int) then abandon t else bnd (Tx_writeMeta t) last)"
  have ab: "disk v' = disk v \<and> r \<noteq> 0" if "abandon t v = Inr (r, v')" for v r v'
    using presD [OF abandon_quiet that] that by (auto simp: abandon_def act_simps and_then_Inr_iff)
  obtain r1 w1 where g: "(if pageId < totalPageNumber m then DB_grow (ucast ((totalPageNumber m + 1) * ucast (4096 :: u32))) else ret 0) w
      = Inr (r1, w1)" "(if r1 \<noteq> 0 then abandon t else bnd (Tx_write t) mid) w1 = Inr (rc, w')"
    using assms(1) x unfolding commit_write_def mid_def last_def by (auto simp: act_simps tx_meta_def and_then_Inr_iff cong: if_cong)
  note k1 = grow_step [OF g(1) assms(2,3) x(1,2)]
  have e1: "env w1 = env w" using g(1) presD [OF writing_env(2)] by (auto simp: act_simps split: if_splits)
  show ?thesis
  proof (cases "r1 = 0")
    case False
    then show ?thesis using g(2) ab [of w1] k1(1) e1 by (intro exI [of _ w1]) auto
  next
    case True
    then obtain r2 w2 where t: "Tx_write t w1 = Inr (r2, w2)" "mid r2 w2 = Inr (rc, w')"
      using g(2) by (auto simp: act_simps and_then_Inr_iff)
    note k2 = Tx_write_keeps [OF t(1) k1(2)]
    have "keeps (used_bytes F T 4096) w w2" "env w2 = env w"
      using keeps_bytes_trans [OF k1(1) k2(1)] e1 presD [OF writing_env(3) t(1)] by simp_all
    moreover have "disk w' = disk w2 \<and> rc \<noteq> 0 \<or> meta_written t tid rc w2 (disk w')"
    proof (cases "r2 = 0")
      case False
      then show ?thesis using t(2) ab [of w2] by (auto simp: mid_def)
    next
      case True
      then obtain r3 w3 where m: "Tx_writeMeta t w2 = Inr (r3, w3)" "last r3 w3 = Inr (rc, w')"
        using t(2) by (auto simp: mid_def act_simps and_then_Inr_iff)
      have "disk w' = disk w3 \<and> (rc = 0 \<longrightarrow> r3 = 0)"
        using m(2) ab [of w3] presD [OF handlers_quiet [OF assms(4)]] by (auto simp: last_def act_simps and_then_Inr_iff split: if_splits)
      then show ?thesis using m(1) k2(2) unfolding meta_written_def by blast
    qed
    ultimately show ?thesis by blast
  qed
qed

lemma commit_freelist_mapped:
  assumes "commit_freelist t w = Inr (True, w')" and "rwtx w = Some t"
  shows "mapped w'"
proof -
  obtain x m w1 p w2 where x: "txHeap w t = Some x" "metaData x = Some m" "mapped w"
      "Tx_free t (meta_txid m) (Some (MapPage (mapGen w) (freeListPageNumber m))) w = Inr ((), w1)"
      "Tx_allocate t (freeList_size (freelist w1) div 4096 + 1) w1 = Inr (Some p, w2)" and w2: "mapped w' = mapped w2"
    using assms(1)
    by (auto simp: commit_freelist_def act_simps tx_meta_def getPagePtr_def and_then_Inr_iff result_iffs upd_page_def upd_meta_def
        upd_tx_def Tx_free_def split: option.splits if_splits page_ptr.splits)
  have "txHeap w1 = txHeap w" "mapped w1 = mapped w" "rwtx w1 = rwtx w"
    using x(4) by (auto simp: Tx_free_def act_simps and_then_Inr_iff split: if_splits)
  then show ?thesis using Tx_allocate_mapped [OF x(5), of t x m] x(1-3) assms(2) w2 by simp
qed

text \<open>A commit up to the point where it gives up or begins to write.\<close>

abbreviation calm :: "nat \<Rightarrow> pgid set \<Rightarrow> pgid \<Rightarrow> u32 \<Rightarrow> u32 \<times> u32 \<times> txid \<Rightarrow> tx_ptr \<Rightarrow> world \<Rightarrow> world \<Rightarrow> bool" where
  "calm K F T ps tid t u v \<equiv> keeps_snap K F T ps tid t u v \<and> disk v = disk u \<and> rwtx v = rwtx u \<and> env v = env u"

interpretation calm: frame "calm K F T ps tid t" for K F T ps tid t
  by unfold_locales (auto intro: snap.R_refl snap.R_trans)

lemma calm_steps:
  "pres (calm K F T ps tid t) (tx_root t)" "pres (calm K F T ps tid t) (Bucket_rebalance fuel b)"
  "pres (calm K F T ps tid t) (Bucket_spill fuel b)" "pres (calm K F T ps tid t) (getRootPage b)"
  "pres (calm K F T ps tid t) (upd_meta t (\<lambda>m. m\<lparr>meta_root := (meta_root m)\<lparr>bh_root := rt\<rparr>\<rparr>))"
  "pres (calm K F T ps tid t) (commit_freelist t)"
proof -
  have both: "pres (calm K F T ps tid t) a"
    if "pres (keeps_snap K F T ps tid t) a" "pres same_disk a" "pres same_tx_state a" "pres same_env a" for a :: "'a act"
    using that by (fastforce simp: pres_def tx_state_def)
  show "pres (calm K F T ps tid t) (tx_root t)" by (rule both) (unfold tx_root_def, (intro frame_intro)+)
  show "pres (calm K F T ps tid t) (Bucket_rebalance fuel b)" "pres (calm K F T ps tid t) (Bucket_spill fuel b)"
    "pres (calm K F T ps tid t) (getRootPage b)" by (rule both; rule frame_intro)+
  show "pres (calm K F T ps tid t) (upd_meta t (\<lambda>m. m\<lparr>meta_root := (meta_root m)\<lparr>bh_root := rt\<rparr>\<rparr>))"
    by (rule both, rule snap_upd_meta) (simp_all add: frame_intro)
  show "pres (calm K F T ps tid t) (commit_freelist t)" by (rule both) (rule snap_commit_freelist frame_intro)+
qed

lemma commit_run:
  assumes "Tx_commit fuel hs t w = Inr (rc, w')" and "rwtx w = Some t"
  shows "\<exists>v. calm K F T ps tid t w v \<and> (w' = v \<and> rc \<noteq> 0 \<or> abandon t v = Inr (rc, w') \<or>
    mapped v \<and> (\<exists>pageId. commit_write hs t pageId v = Inr (rc, w')))"
proof (cases "w' = w \<and> rc = - 1")
  case True
  then show ?thesis using calm.R_refl [of K F T ps tid t w] by (intro exI [of _ w]) simp
next
  case False
  then obtain b w1 w2 ok where s: "tx_root t w = Inr (b, w)" "Bucket_rebalance fuel b w = Inr ((), w1)"
      "Bucket_spill fuel b w1 = Inr (ok, w2)"
    and rest: "(if \<not> ok then abandon t else bnd (getRootPage b) (\<lambda>rt.
         thn (upd_meta t (\<lambda>m. m\<lparr>meta_root := (meta_root m)\<lparr>bh_root := rt\<rparr>\<rparr>)) (bnd (tx_meta t) (\<lambda>m.
         bnd (commit_freelist t) (\<lambda>ok. if \<not> ok then abandon t else commit_write hs t (totalPageNumber m)))))) w2 = Inr (rc, w')"
    using assms(1) by (auto simp: Tx_commit_def tx_root_def act_simps and_then_Inr_iff result_iffs split: if_splits)
  have c2: "calm K F T ps tid t w w2"
    by (rule calm.R_trans [OF presD [OF calm_steps(2) s(2)] presD [OF calm_steps(3) s(3)]])
  show ?thesis
  proof (cases ok)
    case False
    then show ?thesis using rest c2 by auto
  next
    case True
    with rest obtain rt w3 ok' w4 and m :: meta where f: "getRootPage b w2 = Inr (rt, w2)"
        "upd_meta t (\<lambda>m. m\<lparr>meta_root := (meta_root m)\<lparr>bh_root := rt\<rparr>\<rparr>) w2 = Inr ((), w3)"
        "commit_freelist t w3 = Inr (ok', w4)" "(if \<not> ok' then abandon t else commit_write hs t (totalPageNumber m)) w4 = Inr (rc, w')"
      by (auto simp: act_simps and_then_Inr_iff tx_meta_def getRootPage_def result_iffs cong: if_cong)
    have c3: "calm K F T ps tid t w w3" by (rule calm.R_trans [OF c2 presD [OF calm_steps(5) f(2)]])
    have "calm K F T ps tid t w w4" by (rule calm.R_trans [OF c3 presD [OF calm_steps(6) f(3)]])
    then show ?thesis using f(3,4) commit_freelist_mapped [of t w3 w4] c3 assms(2) by (cases ok') auto
  qed
qed

text \<open>
  The state in which a transaction \<open>t\<close> with the meta \<open>m\<close> may be committed: nothing is dirty yet, the
  freelist is sorted and holds pages of the database only, the mapping covers the database, and the
  database stays below 2 GB when the commit creates up to \<open>n\<close> objects of up to 4096 pages each.
\<close>

definition commit_ready :: "nat \<Rightarrow> tx_ptr \<Rightarrow> meta \<Rightarrow> world \<Rightarrow> bool" where
  "commit_ready n t m w \<longleftrightarrow> rwtx w = Some t \<and> pageSize w = 4096 \<and>
     (\<exists>x. txHeap w t = Some x \<and> metaData x = Some m \<and> dirtyPageTable x = []) \<and>
     ascending (ids (freelist w)) \<and> (\<forall>p \<in> set (ids (freelist w)). 2 \<le> p \<and> p < totalPageNumber m) \<and>
     (mapped w \<longrightarrow> int (unat (totalPageNumber m) * 4096) \<le> datasz w \<and> datasz w < 2 ^ 32) \<and>
     0 \<le> AllocSize w \<and> AllocSize w < 2 ^ 31 \<and> (unat (totalPageNumber m) + 4096 * n + 1) * 4096 < 2 ^ 31"

lemma commit_phases:
  assumes "Tx_commit fuel hs t w = Inr (rc, w')" and "commit_ready (nextPtr w' - nextPtr w) t m w" and "\<forall>h \<in> set hs. pres quiet h"
  shows "\<exists>v. keeps (used_bytes (set (ids (freelist w))) (totalPageNumber m) 4096) w v \<and> env v = env w \<and>
    (disk w' = disk v \<and> rc \<noteq> 0 \<or> meta_written t (meta_ident m) rc v (disk w'))"
proof -
  let ?F = "set (ids (freelist w))" and ?T = "totalPageNumber m" and ?tid = "meta_ident m" and ?K = "nextPtr w'"
  have "snap_inv ?K (?F \<union> {?T..}) ?T 4096 ?tid t w" using assms(2) by (auto simp: snap_inv_def commit_ready_def)
  moreover obtain v where v: "calm ?K ?F ?T 4096 ?tid t w v" "w' = v \<and> rc \<noteq> 0 \<or> abandon t v = Inr (rc, w') \<or>
      mapped v \<and> (\<exists>pageId. commit_write hs t pageId v = Inr (rc, w'))"
    using commit_run [OF assms(1)] assms(2) unfolding commit_ready_def by blast
  ultimately have inv: "snap_inv ?K (?F \<union> {?T..}) ?T 4096 ?tid t v" if "nextPtr v \<le> ?K" using that by (simp add: snap_rel_def)
  have "\<exists>u. keeps (used_bytes ?F ?T 4096) v u \<and> env u = env v \<and> (disk w' = disk u \<and> rc \<noteq> 0 \<or> meta_written t ?tid rc u (disk w'))"
    using v(2)
  proof (elim disjE conjE exE)
    assume "abandon t v = Inr (rc, w')"
    then have "disk w' = disk v" "rc \<noteq> 0"
      using presD [OF abandon_quiet] by (auto simp: abandon_def act_simps and_then_Inr_iff)
    then show ?thesis by (intro exI [of _ v]) simp
  next
    fix pageId
    assume c: "mapped v" "commit_write hs t pageId v = Inr (rc, w')"
    show ?thesis by (rule commit_write_phases [OF c(2) inv [OF presD [OF commit_write_next [OF assms(3)] c(2)]] c(1) assms(3)])
  qed (intro exI [of _ v], simp)
  then show ?thesis using v(1) by auto
qed

section \<open>The current meta\<close>

text \<open>The meta that opening the file finds: \<open>DB::getMeta\<close> on pages 0 and 1.\<close>

definition file_meta :: "buffer \<Rightarrow> meta result" where
  "file_meta d = and_then (read_meta d) (\<lambda>m0. and_then (read_meta (drop 4096 d)) (\<lambda>m1. getMeta m0 m1))"

lemma get_prefix:
  assumes "take n p = take n q"
  shows "off + 4 \<le> n \<Longrightarrow> get_u32 p off = get_u32 q off" and "off + 8 \<le> n \<Longrightarrow> get_u64 p off = get_u64 q off"
proof -
  have "read_bytes p off k = read_bytes q off k" if "off + k \<le> n" for k
  proof -
    have "min n (length p) = min n (length q)" using arg_cong [OF assms, of length] by simp
    moreover have "take k (drop off p) = take k (drop off q)"
      using arg_cong [OF assms, of "\<lambda>b. take k (drop off b)"] that by (simp add: drop_take min_absorb1 del: take_drop)
    ultimately show ?thesis using that by (auto simp: read_bytes_def min_def split: if_splits)
  qed
  then show "off + 4 \<le> n \<Longrightarrow> get_u32 p off = get_u32 q off" "off + 8 \<le> n \<Longrightarrow> get_u64 p off = get_u64 q off"
    by (simp_all add: get_defs)
qed

lemma read_meta_prefix: "take 80 p = take 80 q \<Longrightarrow> read_meta p = read_meta q"
  using get_prefix [of 80 p q] by (simp add: read_meta_def read_bucketHeader_def metaPtr_def PAGEHEADERSIZE_def)

lemma file_meta_prefix:
  assumes "take 8192 d = take 8192 d'"
  shows "file_meta d = file_meta d'"
proof -
  have "take 80 d = take 80 d'" "take 80 (drop 4096 d) = take 80 (drop 4096 d')"
    using arg_cong [OF assms, of "take 80"] arg_cong [OF assms, of "\<lambda>b. take 80 (drop 4096 b)"]
    by (simp_all add: drop_take del: take_drop)
  then show ?thesis using read_meta_prefix [of d d'] read_meta_prefix [of "drop 4096 d" "drop 4096 d'"] by (simp add: file_meta_def)
qed

text \<open>A complete write of a meta page: the page holds the new meta and the other one what it held.\<close>

lemma meta_page_write:
  assumes "length b = 4096" and "read_meta b = Inr m" and "8192 \<le> length d" and "p < 2"
  shows "read_meta (drop (p * 4096) (file_write b (p * 4096) d)) = Inr m"
    and "read_meta (drop ((1 - p) * 4096) (file_write b (p * 4096) d)) = read_meta (drop ((1 - p) * 4096) d)"
proof -
  let ?d = "file_write b (p * 4096) d"
  have d: "?d = take (p * 4096) d @ b @ drop (p * 4096 + 4096) d" "length (take (p * 4096) d) = p * 4096"
    using assms(1,3,4) by (auto simp: file_write_def)
  have "take 80 (drop (p * 4096) ?d) = take 80 b" using d assms(1) by simp
  then show "read_meta (drop (p * 4096) ?d) = Inr m" using read_meta_prefix assms(2) by metis
  have "take 80 (drop ((1 - p) * 4096) ?d) = take 80 (drop ((1 - p) * 4096) d)"
    using assms d by (cases "p = 0") (simp_all del: take_drop)
  then show "read_meta (drop ((1 - p) * 4096) ?d) = read_meta (drop ((1 - p) * 4096) d)" by (rule read_meta_prefix)
qed

lemma file_meta_written:
  assumes "length b = 4096" and "read_meta b = Inr m" and "8192 \<le> length d" and "validate m"
    and "read_meta (drop ((1 - unat (meta_txid m mod 2)) * 4096) d) = Inr m0" and "meta_txid m0 < meta_txid m"
  shows "file_meta (file_write b (unat (meta_txid m mod 2) * 4096) d) = Inr m"
proof -
  let ?p = "unat (meta_txid m mod 2)"
  have p: "?p < 2" by (simp add: unat_mod)
  show ?thesis
    using meta_page_write [OF assms(1-3) p] assms(4-6) p by (cases "?p = 0") (auto simp: file_meta_def getMeta_def less_2_cases_iff)
qed

lemma meta_pages_keep:
  assumes "keeps_bytes (used_bytes F T 4096) d d'" and "8192 \<le> length d" and "\<forall>p \<in> F. 2 \<le> p" and "2 \<le> T"
  shows "take 8192 d' = take 8192 d \<and> 8192 \<le> length d'"
proof -
  have "j \<in> used_bytes F T 4096" if "j < 8192" for j
  proof -
    have q: "j div 4096 < 2" using that by simp
    then have "unat (of_nat (j div 4096) :: pgid) = j div 4096" by (simp add: unat_of_nat)
    then have "\<not> (2 :: pgid) \<le> of_nat (j div 4096)" using q by (simp add: word_le_nat_alt)
    moreover have "2 \<le> unat T" using assms(4) by (simp add: word_le_nat_alt)
    ultimately show ?thesis using q assms(3) by (auto simp: used_bytes_def)
  qed
  then have k: "j < length d' \<and> d' ! j = d ! j" if "j < 8192" for j using assms(1,2) that by (auto simp: keeps_bytes_def)
  from k [of 8191] have "8192 \<le> length d'" by linarith
  then show ?thesis using k assms(2) by (auto intro!: nth_equalityI)
qed

lemma same_meta_page:
  assumes "take 8192 d' = take 8192 d"
  shows "read_meta (drop (unat (t mod 2 :: txid) * 4096) d') = read_meta (drop (unat (t mod 2) * 4096) d)"
proof (rule read_meta_prefix)
  have "unat (t mod 2) < 2" by (simp add: unat_mod)
  then show "take 80 (drop (unat (t mod 2) * 4096) d') = take 80 (drop (unat (t mod 2) * 4096) d)"
    using arg_cong [OF assms, of "\<lambda>b. take 80 (drop (unat (t mod 2) * 4096) b)"] by (auto simp: drop_take less_2_cases_iff simp del: take_drop)
qed

lemma file_meta_valid: "file_meta d = Inr m \<Longrightarrow> validate m"
  by (auto simp: file_meta_def getMeta_def and_then_Inr_iff Let_def split: if_splits)

text \<open>The next transaction leaves the page of the current meta alone.\<close>

lemma other_meta_page:
  assumes "take 8192 d' = take 8192 d" and "read_meta (drop (unat (meta_txid m0 mod 2) * 4096) d) = Inr m0"
    and "meta_txid m = meta_txid m0 + 1" and "meta_txid m0 \<noteq> - 1"
  shows "read_meta (drop ((1 - unat (meta_txid m mod 2)) * 4096) d') = Inr m0" and "meta_txid m0 < meta_txid m"
proof -
  let ?p = "unat (meta_txid m mod 2)"
  have "unat (meta_txid m0 mod 2) < 2" "?p < 2" by (simp_all add: unat_mod)
  moreover have "?p = 0 \<longleftrightarrow> unat (meta_txid m0 mod 2) \<noteq> 0"
    using slot_alternates [OF assms(4)] unfolding assms(3) unat_eq_zero .
  ultimately have q: "unat (meta_txid m0 mod 2) = 1 - ?p" by linarith
  have "take 80 (drop ((1 - ?p) * 4096) d') = take 80 (drop ((1 - ?p) * 4096) d)"
    using arg_cong [OF assms(1), of "\<lambda>b. take 80 (drop ((1 - ?p) * 4096) b)"] by (cases "?p = 0") (simp_all add: drop_take del: take_drop)
  then show "read_meta (drop ((1 - ?p) * 4096) d') = Inr m0" using read_meta_prefix assms(2) q by metis
  show "meta_txid m0 < meta_txid m" using unat_succ [OF assms(4)] assms(3) by (simp add: word_less_nat_alt)
qed

end
