(* ===== verification/Cursor_Correct.thy ===== *)
theory Cursor_Correct
  imports Cursor Node_Store Db_Correct
begin

unbundle bit_operations_syntax

text \<open>
  The cursor finds what the tree holds. A position of the cursor, whether it refers to a cached
  node or to a page, is viewed as a list of inodes; on this view the page searches of the cursor
  equal the node's search, and \<open>seek\<close> on a well-formed tree of pages and nodes ends in the leaf
  whose key range contains the wanted key, at the key's place, within the height of the tree.
\<close>

section \<open>Pages as lists of inodes\<close>

definition page_inodes :: "buffer \<Rightarrow> (bool \<times> inode list) result" where
  "page_inodes p =
     and_then (page_flag p) (\<lambda>fl. and_then (page_count p) (\<lambda>cnt.
     and_then (check (fl AND (branchPageFlag OR leafPageFlag) \<noteq> 0) LogFatal) (\<lambda>_.
     let leaf = (fl AND leafPageFlag \<noteq> 0) in
     and_then (read_inodes p leaf 0 (replicate (unat cnt) Inode_default)) (\<lambda>xs. Inr (leaf, xs)))))"

lemma read_inodes_nth:
  "read_inodes p leaf i its = Inr xs \<Longrightarrow> length xs = length its \<and>
     (\<forall>j < length its. read_inode p leaf (i + j) (its ! j) = Inr (xs ! j))"
proof (induction its arbitrary: i xs)
  case (Cons it its)
  then obtain x ys where x: "read_inode p leaf i it = Inr x" "read_inodes p leaf (Suc i) its = Inr ys" "xs = x # ys"
    by (auto simp: and_then_Inr_iff)
  from Cons.IH [OF x(2)] x(1,3) show ?case by (auto simp: less_Suc_eq_0_disj)
qed simp

lemma leaf_inode_fields:
  assumes "read_inode p True j it = Inr x"
  shows "\<exists>el. getLeafPageElement p j = Inr el \<and> leafPageElement_key p j = Inr (inode_key x) \<and>
    leafPageElement_value p j = Inr (inode_value x) \<and> inode_flag x = leaf_flag el"
  using assms by (auto simp: read_inode_def and_then_Inr_iff)

lemma branch_inode_fields:
  assumes "read_inode p False j it = Inr x"
  shows "\<exists>el. getBranchPageElement p j = Inr el \<and> branchPageElement_key p j = Inr (inode_key x) \<and>
    inode_pageId x = branch_pageId el"
  using assms by (auto simp: read_inode_def and_then_Inr_iff)

section \<open>Searching a page\<close>

lemma page_mid: "b < e \<Longrightarrow> e \<le> n \<Longrightarrow> (b + e) div 2 < (n :: nat)"
  by linarith

lemma binarySearchLeaf_eq:
  assumes "read_inodes p True 0 its = Inr xs" and "e \<le> length xs"
  shows "binarySearchLeaf_loop p key b e = Inr (binarySearch_loop xs key b e)"
  using assms
proof (induction xs key b e rule: binarySearch_loop.induct)
  case (1 xs key b e)
  show ?case
  proof (cases "b < e")
    case True
    let ?mid = "(b + e) div 2"
    have "?mid < length xs" by (rule page_mid [OF True "1.prems"(2)])
    then have "leafPageElement_key p ?mid = Inr (inode_key (xs ! ?mid))"
      using read_inodes_nth [OF "1.prems"(1)] leaf_inode_fields by fastforce
    then show ?thesis
      using 1 True by (subst binarySearchLeaf_loop.simps, subst binarySearch_loop.simps)
        (auto simp: Let_def Item_greater_def Item_eq_def)
  next
    case False
    then show ?thesis by (subst binarySearchLeaf_loop.simps, subst binarySearch_loop.simps) simp
  qed
qed

lemma binarySearchBranch_eq:
  assumes "read_inodes p False 0 its = Inr xs" and "e \<le> length xs"
  shows "binarySearchBranch_loop p key b e = Inr (binarySearch_loop xs key b e)"
  using assms
proof (induction xs key b e rule: binarySearch_loop.induct)
  case (1 xs key b e)
  show ?case
  proof (cases "b < e")
    case True
    let ?mid = "(b + e) div 2"
    have "?mid < length xs" by (rule page_mid [OF True "1.prems"(2)])
    then have "branchPageElement_key p ?mid = Inr (inode_key (xs ! ?mid))"
      using read_inodes_nth [OF "1.prems"(1)] branch_inode_fields by fastforce
    then show ?thesis
      using 1 True by (subst binarySearchBranch_loop.simps, subst binarySearch_loop.simps)
        (auto simp: Let_def)
  next
    case False
    then show ?thesis by (subst binarySearchBranch_loop.simps, subst binarySearch_loop.simps) simp
  qed
qed

text \<open>
  The keys of a page of \<open>n\<close> elements, when all of them can be read, and the two page searches as
  instances of the search contract.
\<close>

definition page_keys :: "bool \<Rightarrow> buffer \<times> nat \<Rightarrow> byte list list option" where
  "page_keys leaf c = (case read_inodes (fst c) leaf 0 (replicate (snd c) Inode_default) of
     Inl _ \<Rightarrow> None
   | Inr xs \<Rightarrow> Some (map (\<lambda>i. item_data (inode_key i)) xs))"

interpretation leaf_search: key_search "page_keys True" "\<lambda>c. binarySearchLeaf_loop (fst c)"
proof (unfold_locales, goal_cases)
  case (1 c ks e key b)
  then obtain xs where xs: "read_inodes (fst c) True 0 (replicate (snd c) Inode_default) = Inr xs"
      "ks = map (\<lambda>i. item_data (inode_key i)) xs"
    by (auto simp: page_keys_def split: sum.splits)
  then have "e \<le> length xs" using 1 by simp
  moreover have "b < e \<Longrightarrow> (b + e) div 2 < length xs" by (rule page_mid [OF _ calculation])
  ultimately show ?case
    using node_search.loop_unfold [OF refl, of e xs key b] binarySearchLeaf_eq [OF xs(1)] xs(2)
    by (auto simp: Let_def)
qed

interpretation branch_search: key_search "page_keys False" "\<lambda>c. binarySearchBranch_loop (fst c)"
proof (unfold_locales, goal_cases)
  case (1 c ks e key b)
  then obtain xs where xs: "read_inodes (fst c) False 0 (replicate (snd c) Inode_default) = Inr xs"
      "ks = map (\<lambda>i. item_data (inode_key i)) xs"
    by (auto simp: page_keys_def split: sum.splits)
  then have "e \<le> length xs" using 1 by simp
  moreover have "b < e \<Longrightarrow> (b + e) div 2 < length xs" by (rule page_mid [OF _ calculation])
  ultimately show ?case
    using node_search.loop_unfold [OF refl, of e xs key b] binarySearchBranch_eq [OF xs(1)] xs(2)
    by (auto simp: Let_def)
qed

section \<open>Positions as lists of inodes\<close>

definition ref_content :: "world \<Rightarrow> elementRef \<Rightarrow> (bool \<times> inode list) result" where
  "ref_content w r = (case er_node r of
     Some n \<Rightarrow> and_then (of_option NullDeref (nodeHeap w n)) (\<lambda>x. Inr (isLeaf x, inodeList x))
   | None \<Rightarrow> (case er_page r of
       None \<Rightarrow> Inl AssertFail
     | Some p \<Rightarrow> and_then (page_bytes w p) page_inodes))"

text \<open>What a bucket shows under a page id: the cached node or the page.\<close>

definition content :: "world \<Rightarrow> bucket_ptr \<Rightarrow> pgid \<Rightarrow> (bool \<times> inode list) result" where
  "content w b pid =
     and_then (getPageNode b pid w) (\<lambda>((node, page), w'). ref_content w (ElementRef page node))"

lemma Tx_getPage_pure: "Tx_getPage t pid w = Inr (r, w') \<Longrightarrow> w' = w"
  by (auto simp: Tx_getPage_def act_simps result_iffs tx_meta_def getPagePtr_def split: if_splits option.splits)

lemma getPageNode_pure: "getPageNode b pid w = Inr (r, w') \<Longrightarrow> w' = w"
  by (auto simp: getPageNode_def act_simps result_iffs split: if_splits option.splits dest: Tx_getPage_pure)

lemma page_inodes_Inr:
  assumes "page_inodes p = Inr (leaf, xs)"
  shows "\<exists>fl cnt. page_flag p = Inr fl \<and> page_count p = Inr cnt \<and> fl AND (branchPageFlag OR leafPageFlag) \<noteq> 0 \<and>
    leaf = (fl AND leafPageFlag \<noteq> 0) \<and> length xs = unat cnt \<and>
    read_inodes p leaf 0 (replicate (unat cnt) Inode_default) = Inr xs"
  using assms read_inodes_nth by (fastforce simp: page_inodes_def result_iffs Let_def)

lemma ref_content_index [simp]: "ref_content w (r\<lparr>er_index := i\<rparr>) = ref_content w r"
  by (simp add: ref_content_def split: option.split)

lemma ref_content_facts:
  assumes "ref_content w r = Inr (leaf, xs)"
  shows "ElementRef_isLeaf r w = Inr (leaf, w) \<and> ElementRef_count r w = Inr (of_nat (length xs), w)"
proof (cases "er_node r")
  case (Some n)
  then show ?thesis
    using assms by (auto simp: ref_content_def ElementRef_isLeaf_def ElementRef_count_def act_simps result_iffs)
next
  case None
  then obtain p b where p: "er_page r = Some p" "page_bytes w p = Inr b" "page_inodes b = Inr (leaf, xs)"
    using assms by (auto simp: ref_content_def result_iffs split: option.splits)
  obtain fl cnt where b: "page_flag b = Inr fl" "page_count b = Inr cnt" "leaf = (fl AND leafPageFlag \<noteq> 0)"
      "length xs = unat cnt"
    using page_inodes_Inr [OF p(3)] by auto
  have "(ucast cnt :: u64) = of_nat (length xs)" by (simp add: b(4) of_nat_unat)
  then show ?thesis
    using None p b by (simp add: ElementRef_isLeaf_def ElementRef_count_def ref_page_def act_simps)
qed

lemma search_leaf_step:
  assumes "content w (cur_bucket c) pid = Inr (True, xs)"
  shows "\<exists>r. Cursor_search (Suc fuel) key pid c w = Inr (push r c, w) \<and> ref_content w r = Inr (True, xs) \<and>
    er_index r = of_nat (fst (binarySearch xs key)) \<and>
    getPageNode (cur_bucket c) pid w = Inr ((er_node r, er_page r), w)"
proof -
  obtain node page where g: "getPageNode (cur_bucket c) pid w = Inr ((node, page), w)"
      and r: "ref_content w (ElementRef page node) = Inr (True, xs)"
    using assms getPageNode_pure by (fastforce simp: content_def result_iffs)
  let ?r = "(ElementRef page node)\<lparr>er_index := of_nat (fst (binarySearch xs key))\<rparr>"
  have c: "ref_content w ?r = Inr (True, xs)" using r by simp
  have "Cursor_search (Suc fuel) key pid c w = Inr (push ?r c, w)"
  proof (cases node)
    case (Some n)
    have "page = None" using g Some
      by (auto simp: getPageNode_def act_simps result_iffs split: if_splits option.splits)
    then show ?thesis
      using g r Some ref_content_facts [OF r]
      by (auto simp: act_simps Let_def searchLeaf_def top_ref_def push_def set_top_index_def ElementRef_def
          ref_content_def Node_search_def result_iffs)
  next
    case None
    then obtain p b where p: "page = Some p" "page_bytes w p = Inr b" "page_inodes b = Inr (True, xs)"
      using r by (auto simp: ref_content_def ElementRef_def result_iffs split: option.splits)
    obtain fl cnt where b: "page_flag b = Inr fl" "page_count b = Inr cnt" "fl AND (branchPageFlag OR leafPageFlag) \<noteq> 0"
        "length xs = unat cnt" "read_inodes b True 0 (replicate (unat cnt) Inode_default) = Inr xs"
      using page_inodes_Inr [OF p(3)] by auto
    have "binarySearchLeaf b key (unat cnt) = Inr (binarySearch xs key)"
      using binarySearchLeaf_eq [OF b(5), of "unat cnt" key 0] b(4)
      by (simp add: binarySearchLeaf_def binarySearch_def)
    then show ?thesis
      using g None p b ref_content_facts [OF r]
      by (simp add: act_simps Let_def searchLeaf_def top_ref_def push_def set_top_index_def ElementRef_def
          ref_page_def split_def)
  qed
  then show ?thesis using c g by (intro exI [of _ ?r]) (simp add: ElementRef_def)
qed

lemma search_branch_step:
  assumes "content w (cur_bucket c) pid = Inr (False, xs)" and "branch_index (binarySearch xs key) < length xs"
  shows "\<exists>r. Cursor_search (Suc fuel) key pid c w =
      Cursor_search fuel key (inode_pageId (xs ! branch_index (binarySearch xs key))) (push r c) w \<and>
    ref_content w r = Inr (False, xs) \<and> er_index r = of_nat (branch_index (binarySearch xs key))"
proof -
  let ?i = "branch_index (binarySearch xs key)"
  obtain node page where g: "getPageNode (cur_bucket c) pid w = Inr ((node, page), w)"
      and r: "ref_content w (ElementRef page node) = Inr (False, xs)"
    using assms(1) getPageNode_pure by (fastforce simp: content_def result_iffs)
  let ?r = "(ElementRef page node)\<lparr>er_index := of_nat ?i\<rparr>"
  have c: "ref_content w ?r = Inr (False, xs)" using r by simp
  have "Cursor_search (Suc fuel) key pid c w = Cursor_search fuel key (inode_pageId (xs ! ?i)) (push ?r c) w"
  proof (cases node)
    case (Some n)
    have "page = None" using g Some
      by (auto simp: getPageNode_def act_simps result_iffs split: if_splits option.splits)
    then show ?thesis
      using g r Some ref_content_facts [OF r] assms(2)
      by (auto simp: act_simps Let_def push_def set_top_index_def ElementRef_def getInode_def
          ref_content_def Node_search_def result_iffs)
  next
    case None
    then obtain p b where p: "page = Some p" "page_bytes w p = Inr b" "page_inodes b = Inr (False, xs)"
      using r by (auto simp: ref_content_def ElementRef_def result_iffs split: option.splits)
    obtain fl cnt where b: "page_flag b = Inr fl" "page_count b = Inr cnt" "fl AND (branchPageFlag OR leafPageFlag) \<noteq> 0"
        "length xs = unat cnt" "read_inodes b False 0 (replicate (unat cnt) Inode_default) = Inr xs"
      using page_inodes_Inr [OF p(3)] by auto
    have "binarySearchBranch b key (unat cnt) = Inr (binarySearch xs key)"
      using binarySearchBranch_eq [OF b(5), of "unat cnt" key 0] b(4)
      by (simp add: binarySearchBranch_def binarySearch_def)
    moreover obtain el where "getBranchPageElement b ?i = Inr el" "branch_pageId el = inode_pageId (xs ! ?i)"
      using read_inodes_nth [OF b(5)] branch_inode_fields assms(2) by fastforce
    ultimately show ?thesis
      using g None p b ref_content_facts [OF r]
      by (simp add: act_simps Let_def push_def set_top_index_def ElementRef_def ref_page_def)
  qed
  then show ?thesis using c by auto
qed

section \<open>Well-formed trees\<close>

abbreviation keys_of :: "inode list \<Rightarrow> byte list list" where
  "keys_of xs \<equiv> map (\<lambda>i. item_data (inode_key i)) xs"

text \<open>
  The tree of height at most \<open>h\<close> under a page id, whose keys satisfy \<open>R\<close>: keys ascend in every
  page, and the keys under the child at index \<open>i\<close> of a branch lie between the branch's keys at
  \<open>i\<close> and \<open>i + 1\<close> (the first child also takes the keys below its own).
\<close>

definition child_range :: "byte list list \<Rightarrow> (byte list \<Rightarrow> bool) \<Rightarrow> nat \<Rightarrow> byte list \<Rightarrow> bool" where
  "child_range ks R i k \<longleftrightarrow> R k \<and> (0 < i \<longrightarrow> ks ! i \<le> k) \<and> (Suc i < length ks \<longrightarrow> k < ks ! Suc i)"

fun wf_tree :: "nat \<Rightarrow> (pgid \<Rightarrow> (bool \<times> inode list) result) \<Rightarrow> (byte list \<Rightarrow> bool) \<Rightarrow> pgid \<Rightarrow> bool" where
  "wf_tree 0 C R pid = False"
| "wf_tree (Suc h) C R pid = (case C pid of
     Inl _ \<Rightarrow> False
   | Inr (leaf, xs) \<Rightarrow>
       ascending (keys_of xs) \<and> length xs < 2 ^ 32 \<and>
       (if leaf then \<forall>k \<in> set (keys_of xs). R k
        else xs \<noteq> [] \<and> (\<forall>i \<in> set [0..<length xs].
               wf_tree h C (child_range (keys_of xs) R i) (inode_pageId (xs ! i)))))"

fun tree_entries :: "nat \<Rightarrow> (pgid \<Rightarrow> (bool \<times> inode list) result) \<Rightarrow> pgid \<Rightarrow> inode list" where
  "tree_entries 0 C pid = []"
| "tree_entries (Suc h) C pid = (case C pid of
     Inl _ \<Rightarrow> []
   | Inr (leaf, xs) \<Rightarrow>
       if leaf then xs else concat (map (\<lambda>x. tree_entries h C (inode_pageId x)) xs))"

lemma tree_entries_branch:
  assumes "C pid = Inr (False, xs)"
  shows "x \<in> set (tree_entries (Suc h) C pid) \<longleftrightarrow>
    (\<exists>i < length xs. x \<in> set (tree_entries h C (inode_pageId (xs ! i))))"
  using assms by simp (metis in_set_conv_nth)

lemma tree_in_range:
  "wf_tree h C R pid \<Longrightarrow> x \<in> set (tree_entries h C pid) \<Longrightarrow> R (item_data (inode_key x))"
proof (induction h arbitrary: R pid)
  case (Suc h)
  then obtain leaf xs where C: "C pid = Inr (leaf, xs)" by (auto split: sum.splits)
  show ?case
  proof (cases leaf)
    case True
    then show ?thesis using Suc.prems C by auto
  next
    case False
    then obtain i where i: "i < length xs" "x \<in> set (tree_entries h C (inode_pageId (xs ! i)))"
      using Suc.prems(2) tree_entries_branch [of C pid xs x h] C by auto
    then have "wf_tree h C (child_range (keys_of xs) R i) (inode_pageId (xs ! i))"
      using Suc.prems(1) C False by simp
    from Suc.IH [OF this i(2)] show ?thesis by (simp add: child_range_def)
  qed
qed simp

text \<open>The descent chooses the only child whose range contains the key.\<close>

lemma branch_index_range:
  assumes "ascending ks" and "ks \<noteq> []" and "R k"
  defines "i \<equiv> branch_index (lower_bound ks k, k \<in> set ks)"
  shows "i < length ks" and "child_range ks R i k"
proof -
  let ?lb = "lower_bound ks k"
  have lt: "ks ! a < ks ! b" if "a < b" "b < length ks" for a b
    by (rule sorted_wrt_nth_less [OF assms(1) that])
  have "i < length ks \<and> child_range ks R i k"
  proof (cases "k \<in> set ks")
    case True
    then have "?lb < length ks" "ks ! ?lb = k" using lower_bound_mem [OF assms(1), of k] by auto
    moreover have "i = ?lb" using True by (simp add: i_def branch_index_def)
    ultimately show ?thesis using lt [of ?lb "Suc ?lb"] assms(3) by (simp add: child_range_def)
  next
    case False
    have up: "k < ks ! j" if "?lb \<le> j" "j < length ks" for j
      using lower_bound_ge [OF assms(1) that] False that(2) nth_mem [of j ks] by (auto simp: order_le_less)
    show ?thesis
    proof (cases "?lb = 0")
      case True
      then have "i = 0" using False by (simp add: i_def branch_index_def)
      then show ?thesis using up [of 1] True assms(2,3) by (simp add: child_range_def)
    next
      case nz: False
      then have "i = ?lb - 1" using False by (simp add: i_def branch_index_def)
      then show ?thesis
        using nz up [of ?lb] lower_bound_less [of "?lb - 1" ks k] lower_bound_le [of ks k] assms(3)
        by (auto simp: child_range_def)
    qed
  qed
  then show "i < length ks" "child_range ks R i k" by auto
qed

lemma child_range_unique:
  assumes "ascending ks" and "child_range ks R i k" and "child_range ks R j k" and "i < length ks" and "j < length ks"
  shows "i = j"
proof (rule ccontr)
  have no: False if r: "child_range ks R a k" "child_range ks R b k" "a < b" "b < length ks" for a b
  proof -
    have "k < ks ! Suc a" "ks ! b \<le> k" using r by (auto simp: child_range_def)
    moreover have "ks ! Suc a \<le> ks ! b"
      using r(3,4) sorted_wrt_nth_less [OF assms(1), of "Suc a" b] by (cases "Suc a = b") auto
    ultimately show False by simp
  qed
  assume "i \<noteq> j"
  then show False using no [of i j] no [of j i] assms(2-5) by (cases "i < j") auto
qed

section \<open>Seeking\<close>

lemma Cursor_search_spec:
  assumes "wf_tree h (content w (cur_bucket c)) R pid" and "R (item_data key)"
  shows "\<exists>r c' xs. Cursor_search (h + d) key pid c w = Inr (c', w) \<and> cur_bucket c' = cur_bucket c \<and>
    (\<exists>rs. elements c' = r # rs) \<and> ref_content w r = Inr (True, xs) \<and> ascending (keys_of xs) \<and>
    length xs < 2 ^ 32 \<and> er_index r = of_nat (lower_bound (keys_of xs) (item_data key)) \<and>
    (\<forall>x. item_data (inode_key x) = item_data key \<longrightarrow>
       x \<in> set xs \<longleftrightarrow> x \<in> set (tree_entries h (content w (cur_bucket c)) pid))"
  using assms
proof (induction h arbitrary: R pid c)
  case (Suc h)
  let ?C = "content w (cur_bucket c)" and ?k = "item_data key"
  obtain leaf xs where C: "?C pid = Inr (leaf, xs)" using Suc.prems(1) by (auto split: sum.splits)
  then have wf: "ascending (keys_of xs)" "length xs < 2 ^ 32" using Suc.prems(1) by simp_all
  note bs = binarySearch_spec [OF wf(1), of key]
  show ?case
  proof (cases leaf)
    case True
    then obtain r where "Cursor_search (Suc (h + d)) key pid c w = Inr (push r c, w)" "ref_content w r = Inr (True, xs)"
        "er_index r = of_nat (fst (binarySearch xs key))"
      using search_leaf_step [of w c pid xs "h + d" key] C by auto
    then show ?thesis using C True wf bs by (auto simp: push_def)
  next
    case False
    let ?i = "branch_index (binarySearch xs key)"
    have Cf: "?C pid = Inr (False, xs)" using C False by simp
    note te = tree_entries_branch [of ?C, OF Cf]
    have i: "?i < length xs" "child_range (keys_of xs) R ?i ?k"
      using branch_index_range [OF wf(1), of R ?k] Suc.prems C False by (simp_all add: bs)
    obtain r where r: "Cursor_search (Suc (h + d)) key pid c w =
        Cursor_search (h + d) key (inode_pageId (xs ! ?i)) (push r c) w"
      using search_branch_step [of w c pid xs key "h + d"] C False i(1) by auto
    have bk: "cur_bucket (push r c) = cur_bucket c" by (simp add: push_def)
    have child: "wf_tree h ?C (child_range (keys_of xs) R j) (inode_pageId (xs ! j))" if "j < length xs" for j
      using Suc.prems(1) C False that by simp
    have "x \<in> set (tree_entries h ?C (inode_pageId (xs ! ?i))) \<longleftrightarrow> x \<in> set (tree_entries (Suc h) ?C pid)"
      if x: "item_data (inode_key x) = ?k" for x
    proof
      assume "x \<in> set (tree_entries h ?C (inode_pageId (xs ! ?i)))"
      then show "x \<in> set (tree_entries (Suc h) ?C pid)"
        using te i(1) by blast
    next
      assume "x \<in> set (tree_entries (Suc h) ?C pid)"
      then obtain j where j: "j < length xs" "x \<in> set (tree_entries h ?C (inode_pageId (xs ! j)))"
        using te by blast
      have "child_range (keys_of xs) R j ?k" using tree_in_range [OF child [OF j(1)] j(2)] x by simp
      then have "j = ?i" using child_range_unique [OF wf(1) _ i(2)] j(1) i(1) by simp
      then show "x \<in> set (tree_entries h ?C (inode_pageId (xs ! ?i)))" using j(2) by simp
    qed
    then show ?thesis
      using Suc.IH [of "push r c" "child_range (keys_of xs) R ?i" "inode_pageId (xs ! ?i)"] child [OF i(1)] i(2) r bk
      by (auto simp del: tree_entries.simps)
  qed
qed simp

text \<open>What a position shows; the pointer is null unless the position is one of a page.\<close>

definition shown_at :: "elementRef \<Rightarrow> nat \<Rightarrow> inode \<Rightarrow> shown" where
  "shown_at r i e = \<lparr>sh_ptr = (if er_node r = None then map_option (\<lambda>p. (p, i)) (er_page r) else None),
     sh_key = inode_key e, sh_value = inode_value e, sh_flag = inode_flag e\<rparr>"

lemma shown_at_simps [simp]:
  "sh_key (shown_at r i e) = inode_key e" "sh_value (shown_at r i e) = inode_value e" "sh_flag (shown_at r i e) = inode_flag e"
  by (simp_all add: shown_at_def)

lemma keyValue_at:
  assumes "elements c = r # rs" and "ref_content w r = Inr (True, xs)" and "length xs < 2 ^ 32"
    and "er_index r = of_nat i" and "i < length xs"
  shows "keyValue c s w = Inr (shown_at r i (xs ! i), w)"
proof -
  have u: "unat (of_nat i :: u64) = i" "unat (of_nat (length xs) :: u64) = length xs"
    using assms(3,5) by (simp_all add: unat_of_nat)
  have in_range: "\<not> ((of_nat (length xs) :: u64) = 0 \<or> (of_nat (length xs) :: u64) \<le> of_nat i)"
    using u assms(5) by (auto simp: word_le_nat_alt word_unat_eq_iff)
  note count = ref_content_facts [OF assms(2)]
  show ?thesis
  proof (cases "er_node r")
    case (Some n)
    then show ?thesis
      using assms in_range count u
      by (auto simp: keyValue_def act_simps ref_content_def result_iffs getInode_def shown_at_def)
  next
    case None
    then obtain p b where p: "er_page r = Some p" "page_bytes w p = Inr b" "page_inodes b = Inr (True, xs)"
      using assms(2) by (auto simp: ref_content_def result_iffs split: option.splits)
    obtain cnt :: u16 where cnt: "length xs = unat cnt" "read_inodes b True 0 (replicate (unat cnt) Inode_default) = Inr xs"
      using page_inodes_Inr [OF p(3)] by blast
    have "read_inode b True i Inode_default = Inr (xs ! i)"
      using read_inodes_nth [OF cnt(2)] cnt(1) assms(5) by simp
    from leaf_inode_fields [OF this] obtain el where "getLeafPageElement b i = Inr el" "leafPageElement_key b i = Inr (inode_key (xs ! i))"
        "leafPageElement_value b i = Inr (inode_value (xs ! i))" "inode_flag (xs ! i) = leaf_flag el"
      by blast
    then show ?thesis
      using assms None in_range count u p by (simp add: keyValue_def act_simps ref_page_def Let_def shown_at_def)
  qed
qed

lemma seek_spec:
  assumes "getRootPage (cur_bucket c) w = Inr (rt, w)" and "wf_tree h (content w (cur_bucket c)) (\<lambda>_. True) rt"
    and "item_data key \<noteq> []"
  shows "\<exists>s c' r rs xs. seek (h + d) key c w = Inr ((s, c'), w) \<and> cur_bucket c' = cur_bucket c \<and>
    elements c' = r # rs \<and> ref_content w r = Inr (True, xs) \<and> ascending (keys_of xs) \<and> length xs < 2 ^ 32 \<and>
    er_index r = of_nat (lower_bound (keys_of xs) (item_data key)) \<and>
    (\<forall>x. item_data (inode_key x) = item_data key \<longrightarrow>
       x \<in> set xs \<longleftrightarrow> x \<in> set (tree_entries h (content w (cur_bucket c)) rt)) \<and>
    (if item_data key \<in> set (keys_of xs)
     then sh_key s = inode_key (xs ! lower_bound (keys_of xs) (item_data key)) \<and>
       sh_value s = inode_value (xs ! lower_bound (keys_of xs) (item_data key)) \<and>
       sh_flag s = inode_flag (xs ! lower_bound (keys_of xs) (item_data key))
     else item_data (sh_key s) \<noteq> item_data key)"
proof -
  let ?k = "item_data key" and ?c = "clearElements c"
  have bk: "cur_bucket ?c = cur_bucket c" by (simp add: clearElements_def)
  obtain r c' xs where cs: "Cursor_search (h + d) key rt ?c w = Inr (c', w)" "cur_bucket c' = cur_bucket c"
      "\<exists>rs. elements c' = r # rs" "ref_content w r = Inr (True, xs)" "ascending (keys_of xs)" "length xs < 2 ^ 32"
      "er_index r = of_nat (lower_bound (keys_of xs) ?k)"
      "\<forall>x. item_data (inode_key x) = ?k \<longrightarrow>
         x \<in> set xs \<longleftrightarrow> x \<in> set (tree_entries h (content w (cur_bucket c)) rt)"
    using Cursor_search_spec [of h w ?c "\<lambda>_. True" rt key d] assms(2) bk by auto
  then obtain rs where rs: "elements c' = r # rs" by blast
  let ?i = "lower_bound (keys_of xs) ?k"
  have le: "?i \<le> length xs" using lower_bound_le [of "keys_of xs" ?k] by simp
  have cmp: "(of_nat (length xs) :: u64) \<le> of_nat ?i \<longleftrightarrow> length xs \<le> ?i"
    using cs(6) le by (simp add: word_le_nat_alt unat_of_nat)
  have in_keys: "?k \<in> set (keys_of xs) \<longleftrightarrow> ?i < length xs \<and> item_data (inode_key (xs ! ?i)) = ?k"
    using lower_bound_mem [OF cs(5), of ?k] by auto
  note run = assms(1) bk cs(1,7) rs ref_content_facts [OF cs(4)] cmp
  show ?thesis
  proof (cases "?i < length xs")
    case True
    then show ?thesis
      using run cs(2-8) in_keys keyValue_at [OF rs cs(4,6,7) True, of shown_reset]
      by (auto simp: seek_def do_seek_def act_simps top_ref_def simp del: set_map)
  next
    case False
    then show ?thesis
      using run cs(2-8) in_keys assms(3)
      by (auto simp: seek_def do_seek_def act_simps top_ref_def shown_reset_def Item_default_def simp del: set_map)
  qed
qed

lemma seek_lookup:
  assumes "getRootPage (cur_bucket c) w = Inr (rt, w)"
    and "wf_tree h (content w (cur_bucket c)) (\<lambda>_. True) rt" and "item_data key \<noteq> []" and "h \<le> fuel"
  shows "\<exists>s c'. seek fuel key c w = Inr ((s, c'), w) \<and>
    (\<forall>x \<in> set (tree_entries h (content w (cur_bucket c)) rt). item_data (inode_key x) = item_data key \<longrightarrow>
       sh_key s = inode_key x \<and> sh_value s = inode_value x \<and> sh_flag s = inode_flag x) \<and>
    (item_data key \<notin> set (keys_of (tree_entries h (content w (cur_bucket c)) rt)) \<longrightarrow>
       item_data (sh_key s) \<noteq> item_data key)"
proof -
  let ?k = "item_data key" and ?es = "tree_entries h (content w (cur_bucket c)) rt"
  obtain s c' r rs xs where sk: "seek (h + (fuel - h)) key c w = Inr ((s, c'), w)" "ascending (keys_of xs)"
      "\<forall>x. item_data (inode_key x) = ?k \<longrightarrow> x \<in> set xs \<longleftrightarrow> x \<in> set ?es"
      "if ?k \<in> set (keys_of xs) then sh_key s = inode_key (xs ! lower_bound (keys_of xs) ?k) \<and>
         sh_value s = inode_value (xs ! lower_bound (keys_of xs) ?k) \<and>
         sh_flag s = inode_flag (xs ! lower_bound (keys_of xs) ?k)
       else item_data (sh_key s) \<noteq> ?k"
    using seek_spec [OF assms(1-3), of "fuel - h"] by blast
  have hit: "x = xs ! lower_bound (keys_of xs) ?k \<and> ?k \<in> set (keys_of xs)"
    if x: "x \<in> set ?es" "item_data (inode_key x) = ?k" for x
  proof -
    have "x \<in> set xs" using sk(3) x by blast
    then have "?k \<in> set (keys_of xs)" using x(2) by (metis (no_types, lifting) image_eqI list.set_map)
    moreover obtain j where j: "j < length xs" "xs ! j = x" using \<open>x \<in> set xs\<close> by (auto simp: in_set_conv_nth)
    then have "lower_bound (keys_of xs) ?k = j"
      using sorted_wrt_nth_less [OF sk(2), of _ j] x(2) by (intro lower_bound_eqI) auto
    ultimately show ?thesis using j(2) by simp
  qed
  have miss: "item_data (sh_key s) \<noteq> ?k" if "?k \<notin> set (keys_of ?es)"
  proof -
    have "?k \<notin> set (keys_of xs)" using that sk(3) by auto
    then show ?thesis using sk(4) by presburger
  qed
  show ?thesis using sk(1,4) hit miss assms(4) by (intro exI [of _ s] exI [of _ c']) (auto simp del: set_map)
qed

text \<open>
  C5: \<open>Cursor::seek\<close> is correct on every well-formed tree, of cached nodes, pages or both. With a
  recursion depth of at least the height of the tree it returns, changes nothing, and shows the
  key, value and flag of the entry with the wanted key if the tree has one, and another key (or
  none) otherwise.
\<close>

theorem seek_correct:
  assumes "getRootPage (cur_bucket c) w = Inr (rt, w)"
    and "wf_tree h (content w (cur_bucket c)) (\<lambda>_. True) rt" and "item_data key \<noteq> []" and "h \<le> fuel"
  shows "\<exists>s c'. seek fuel key c w = Inr ((s, c'), w) \<and>
    (\<forall>x \<in> set (tree_entries h (content w (cur_bucket c)) rt). item_data (inode_key x) = item_data key \<longrightarrow>
       sh_key s = inode_key x \<and> sh_value s = inode_value x \<and> sh_flag s = inode_flag x) \<and>
    (item_data key \<notin> set (keys_of (tree_entries h (content w (cur_bucket c)) rt)) \<longrightarrow>
       item_data (sh_key s) \<noteq> item_data key)"
  using seek_lookup [OF assms] .

definition inode_example :: "byte list \<Rightarrow> byte list \<Rightarrow> u32 \<Rightarrow> pgid \<Rightarrow> inode" where
  "inode_example k v f pid = \<lparr>inode_flag = f, inode_pageId = pid, inode_key = Item_string k, inode_value = Item_string v\<rparr>"

definition bucket_example :: bucket where
  "bucket_example = \<lparr>bucketHeader = \<lparr>bh_root = 3, bh_sequence = 0\<rparr>, bucket_tx = TxPtr 1, buckets = [],
     bucket_page = None, rootNode = None, nodes = [(3, NodePtr 10), (4, NodePtr 11), (5, NodePtr 12)],
     fillPercent = DEFAULTFILLPERCENT, bucket_parentNode = None\<rparr>"

definition world_tree :: world where
  "world_tree = world_writer\<lparr>bucketHeap := [BucketPtr 9 \<mapsto> bucket_example],
     nodeHeap := [NodePtr 10 \<mapsto> (Node_new (BucketPtr 9) None)\<lparr>
                    inodeList := [inode_example [1] [] 0 4, inode_example [5] [] 0 5]\<rparr>,
                  NodePtr 11 \<mapsto> (Node_new (BucketPtr 9) None)\<lparr>isLeaf := True,
                    inodeList := [inode_example [1] [11] 0 0, inode_example [3] [33] 0 0]\<rparr>,
                  NodePtr 12 \<mapsto> (Node_new (BucketPtr 9) None)\<lparr>isLeaf := True,
                    inodeList := [inode_example [5] [55] 0 0, inode_example [7] [77] 1 0]\<rparr>]\<rparr>"

lemma world_tree_content:
  "content world_tree (BucketPtr 9) 3 = Inr (False, [inode_example [1] [] 0 4, inode_example [5] [] 0 5])"
  "content world_tree (BucketPtr 9) 4 = Inr (True, [inode_example [1] [11] 0 0, inode_example [3] [33] 0 0])"
  "content world_tree (BucketPtr 9) 5 = Inr (True, [inode_example [5] [55] 0 0, inode_example [7] [77] 1 0])"
  by (simp_all add: content_def getPageNode_def act_simps world_tree_def bucket_example_def ref_content_def
      ElementRef_def Node_new_def)

lemma world_tree_leaves:
  "wf_tree (Suc 0) (content world_tree (BucketPtr 9)) (child_range [[1], [5]] (\<lambda>_. True) 0) 4"
  "wf_tree (Suc 0) (content world_tree (BucketPtr 9)) (child_range [[1], [5]] (\<lambda>_. True) (Suc 0)) 5"
  by (simp_all add: world_tree_content inode_example_def child_range_def)

lemma world_tree_wf: "wf_tree (Suc (Suc 0)) (content world_tree (BucketPtr 9)) (\<lambda>_. True) 3"
proof -
  have "wf_tree (Suc 0) (content world_tree (BucketPtr 9)) (child_range [[1], [5]] (\<lambda>_. True) i)
      (inode_pageId ([inode_example [1] [] 0 4, inode_example [5] [] 0 5] ! i))" if "i < 2" for i
    using that world_tree_leaves less_2_cases [of i] by (auto simp: inode_example_def simp del: wf_tree.simps)
  then show ?thesis by (subst wf_tree.simps) (simp add: world_tree_content inode_example_def del: wf_tree.simps)
qed

lemma world_tree_entries:
  "tree_entries (Suc (Suc 0)) (content world_tree (BucketPtr 9)) 3 =
     [inode_example [1] [11] 0 0, inode_example [3] [33] 0 0, inode_example [5] [55] 0 0, inode_example [7] [77] 1 0]"
  by (simp add: world_tree_content inode_example_def)

lemma world_tree_bucket:
  "bucketHeap world_tree (BucketPtr 9) = Some bucket_example" "txHeap world_tree (TxPtr 1) = Some tx_example"
  by (simp_all add: world_tree_def world_writer_def)

theorem seek_correct_witness:
  "\<exists>s c'. seek 2 (Item_string [3]) (Cursor_new (BucketPtr 9)) world_tree = Inr ((s, c'), world_tree) \<and>
     sh_value s = Item_string [33]"
proof -
  have "getRootPage (cur_bucket (Cursor_new (BucketPtr 9))) world_tree = Inr (3, world_tree)"
    by (simp add: Cursor_new_def getRootPage_def act_simps world_tree_bucket) (simp add: bucket_example_def)
  from seek_correct [OF this, of "Suc (Suc 0)" "Item_string [3]" 2] world_tree_wf world_tree_entries show ?thesis
    by (auto simp: Cursor_new_def inode_example_def simp del: tree_entries.simps wf_tree.simps)
qed

end
