(* ===== verification/Bucket_Correct.thy ===== *)
theory Bucket_Correct
  imports Bucket Cursor_Correct
begin

unbundle bit_operations_syntax

text \<open>
  What a bucket promises to its reader: \<open>get\<close> reads the tree the bucket stands for, of any height, and
  changes nothing but the cursor counter.
\<close>

section \<open>Counting cursors changes nothing else\<close>

definition count_cursor :: "bucket_ptr \<Rightarrow> world \<Rightarrow> world" where
  "count_cursor b w = (case bucketHeap w b of None \<Rightarrow> w | Some x \<Rightarrow>
     (case txHeap w (bucket_tx x) of None \<Rightarrow> w | Some t \<Rightarrow>
        w\<lparr>txHeap := (txHeap w)(bucket_tx x \<mapsto> t\<lparr>cursorCount := cursorCount t + 1\<rparr>)\<rparr>))"

lemma count_cursor_simps [simp]:
  "nodeHeap (count_cursor b w) = nodeHeap w" "bucketHeap (count_cursor b w) = bucketHeap w"
  "pageHeap (count_cursor b w) = pageHeap w" "nextPtr (count_cursor b w) = nextPtr w"
  "env (count_cursor b w) = env w" "disk (count_cursor b w) = disk w" "mapGen (count_cursor b w) = mapGen w"
  by (simp_all add: count_cursor_def split: option.split)

lemma createCursor_apply:
  "bucketHeap w b = Some x \<Longrightarrow> txHeap w (bucket_tx x) = Some t \<Longrightarrow>
     createCursor b w = Inr (Cursor_new b, count_cursor b w)"
  by (simp add: createCursor_def act_simps increaseCurserCount_def upd_tx_def count_cursor_def)

lemma txHeap_count_cursor:
  "txHeap (count_cursor b w) q =
     (case bucketHeap w b of
        Some x \<Rightarrow> if q = bucket_tx x then map_option (\<lambda>t. t\<lparr>cursorCount := cursorCount t + 1\<rparr>) (txHeap w q)
                  else txHeap w q
      | None \<Rightarrow> txHeap w q)"
  by (simp add: count_cursor_def split: option.split)

lemma page_bytes_count_cursor [simp]: "page_bytes (count_cursor b w) p = page_bytes w p"
  by (induction p) (simp_all add: count_cursor_def map_offset_def split: option.split)

text \<open>An action that only reads: its result does not depend on the cursor counters.\<close>

lemma Tx_getPage_count_cursor:
  "Tx_getPage t pid (count_cursor b w) = and_then (Tx_getPage t pid w) (\<lambda>(p, w'). Inr (p, count_cursor b w))"
  by (auto simp: Tx_getPage_def act_simps tx_meta_def getPagePtr_def txHeap_count_cursor of_option_def
      split: option.split)

lemma getPageNode_count_cursor:
  "getPageNode a pid (count_cursor b w) =
     and_then (getPageNode a pid w) (\<lambda>(p, w'). Inr (p, count_cursor b w))"
proof (cases "bucketHeap w a")
  case None
  then show ?thesis by (simp add: getPageNode_def act_simps)
next
  case (Some x)
  then show ?thesis
    by (cases "Tx_getPage (bucket_tx x) pid w")
      (auto simp: getPageNode_def act_simps Tx_getPage_count_cursor split: option.split)
qed

lemma ref_content_count_cursor [simp]: "ref_content (count_cursor b w) r = ref_content w r"
  by (simp add: ref_content_def split: option.split)

lemma content_count_cursor [simp]: "content (count_cursor b w) = content w"
proof (intro ext)
  fix a pid
  show "content (count_cursor b w) a pid = content w a pid"
    by (cases "getPageNode a pid w") (auto simp: content_def getPageNode_count_cursor)
qed

section \<open>Reading\<close>

lemma getRootPage_apply:
  "bucketHeap w b = Some x \<Longrightarrow> getRootPage b w = Inr (bh_root (bucketHeader x), w)"
  by (simp add: getRootPage_def act_simps)

lemma Bucket_get_lookup:
  assumes "bucketHeap w b = Some x" and "txHeap w (bucket_tx x) = Some t"
    and "wf_tree h (content w b) (\<lambda>_. True) (bh_root (bucketHeader x))" and "item_data key \<noteq> []" and "h \<le> fuel"
  shows "Bucket_get fuel b key w =
    Inr (case find (\<lambda>e. item_data (inode_key e) = item_data key)
                (tree_entries h (content w b) (bh_root (bucketHeader x))) of
           None \<Rightarrow> Item_default
         | Some e \<Rightarrow> if inode_flag e AND bucketLeafFlag = 0 then inode_value e else Item_default,
         count_cursor b w)"
proof -
  let ?w = "count_cursor b w" and ?c = "Cursor_new b"
  let ?es = "tree_entries h (content w b) (bh_root (bucketHeader x))"
  have bk: "cur_bucket ?c = b" by (simp add: Cursor_new_def)
  have rt: "getRootPage (cur_bucket ?c) ?w = Inr (bh_root (bucketHeader x), ?w)"
    using assms(1) by (simp add: bk getRootPage_apply)
  obtain s c' where s: "seek fuel key ?c ?w = Inr ((s, c'), ?w)"
      and hit: "\<forall>e \<in> set ?es. item_data (inode_key e) = item_data key \<longrightarrow>
         sh_key s = inode_key e \<and> sh_value s = inode_value e \<and> sh_flag s = inode_flag e"
      and miss: "item_data key \<notin> set (keys_of ?es) \<longrightarrow> item_data (sh_key s) \<noteq> item_data key"
    using seek_lookup [OF rt, of h key fuel] assms(3-5) by (auto simp: bk)
  show ?thesis
  proof (cases "find (\<lambda>e. item_data (inode_key e) = item_data key) ?es")
    case None
    then have "item_data key \<notin> set (keys_of ?es)" by (auto simp: find_None_iff)
    then show ?thesis
      using None s miss createCursor_apply [OF assms(1,2)]
      by (simp add: Bucket_get_def act_simps Item_neq_def)
  next
    case (Some e)
    then have "e \<in> set ?es" "item_data (inode_key e) = item_data key"
      by (auto simp: find_Some_iff)
    then show ?thesis
      using Some s hit createCursor_apply [OF assms(1,2)]
      by (simp add: Bucket_get_def act_simps Item_neq_def)
  qed
qed

text \<open>
  C6: \<open>Bucket::get\<close> is a lookup in the entries of the tree: for every well-formed tree no higher than
  the recursion depth it returns the value stored under the key, or the empty item when the key is
  absent or names a sub-bucket; it changes nothing but the cursor counter.
\<close>

theorem bucket_get_correct:
  assumes "bucketHeap w b = Some x" and "txHeap w (bucket_tx x) = Some t"
    and "wf_tree h (content w b) (\<lambda>_. True) (bh_root (bucketHeader x))" and "item_data key \<noteq> []" and "h \<le> fuel"
  shows "Bucket_get fuel b key w =
    Inr (case find (\<lambda>e. item_data (inode_key e) = item_data key)
                (tree_entries h (content w b) (bh_root (bucketHeader x))) of
           None \<Rightarrow> Item_default
         | Some e \<Rightarrow> if inode_flag e AND bucketLeafFlag = 0 then inode_value e else Item_default,
         count_cursor b w)"
  using Bucket_get_lookup [OF assms] .

theorem bucket_get_correct_witness:
  "Bucket_get 2 (BucketPtr 9) (Item_string [5]) world_tree =
     Inr (Item_string [55], count_cursor (BucketPtr 9) world_tree)"
proof -
  have "bh_root (bucketHeader bucket_example) = 3" "bucket_tx bucket_example = TxPtr 1"
    by (simp_all add: bucket_example_def)
  then show ?thesis
    using bucket_get_correct [of world_tree "BucketPtr 9" bucket_example tx_example "Suc (Suc 0)" "Item_string [5]" 2]
      world_tree_wf world_tree_bucket
    by (simp add: world_tree_entries inode_example_def del: tree_entries.simps wf_tree.simps)
qed

end
