(* ===== verification/Bucket_Edit.thy ===== *)
theory Bucket_Edit
  imports Bucket_Correct
begin

unbundle bit_operations_syntax

text \<open>
  Editing a bucket. On a bucket whose tree is one leaf (cached as a node, on a page of its own, or inline
  in its parent) \<open>put\<close>, \<open>remove\<close> and \<open>get\<close> implement a map, stated as the interface \<open>kv_store\<close> and proved
  for every sequence of calls.
\<close>

section \<open>Buckets of one leaf\<close>

abbreviation root_page :: "bucket \<Rightarrow> pgid" where
  "root_page x \<equiv> bh_root (bucketHeader x)"

definition leaf_inv :: "inode list \<Rightarrow> bool" where
  "leaf_inv xs \<longleftrightarrow> ascending (keys_of xs) \<and>
     (\<forall>i \<in> set xs. item_wf (inode_key i) \<and> item_data (inode_key i) \<noteq> [])"

lemma item_wf_length: "item_wf i \<Longrightarrow> item_data i \<noteq> [] \<Longrightarrow> item_length i \<noteq> 0"
  by (auto simp: item_wf_def)

lemma node_inv_leaf: "node_inv y \<longleftrightarrow> leaf_inv (inodeList y)"
  by (simp add: node_inv_def leaf_inv_def node_keys_def)

text \<open>The node through which the bucket shows its root, if there is one.\<close>

definition root_cached :: "bucket \<Rightarrow> node_ptr option" where
  "root_cached x = (if root_page x = 0 then rootNode x else map_of (nodes x) (root_page x))"

text \<open>
  The root can be turned into a node: it is one that belongs to the bucket, or it is a page that
  carries the id it is known by, no node is cached under this id, and no other page is remembered in
  \<open>page_\<close>.
\<close>

definition loadable :: "world \<Rightarrow> bucket_ptr \<Rightarrow> bucket \<Rightarrow> bool" where
  "loadable w b x \<longleftrightarrow>
     (\<exists>n y. root_cached x = Some n \<and> nodeHeap w n = Some y \<and> node_bucket y = b) \<or>
     (\<exists>p bytes pid. getPageNode b (root_page x) w = Inr ((None, Some p), w) \<and> page_bytes w p = Inr bytes \<and>
        page_id bytes = Inr pid \<and> map_of (nodes x) pid = None \<and> bucket_parentNode x = None \<and>
        (root_page x \<noteq> 0 \<longrightarrow> pid = root_page x) \<and> (bucket_page x = None \<or> bucket_page x = Some p))"

text \<open>A write transaction whose page count, as \<open>Node::put\<close> reads it, is \<open>k\<close>.\<close>

definition in_write_tx :: "world \<Rightarrow> tx_ptr \<Rightarrow> u32 \<Rightarrow> bool" where
  "in_write_tx w t k \<longleftrightarrow> k \<noteq> 0 \<and> (\<exists>y m. txHeap w t = Some y \<and> tx_db y \<and> writable y \<and> metaData y = Some m \<and>
     ucast (totalPageNumber m) = k)"

text \<open>A bucket of a write transaction that consists of one leaf with the entries \<open>xs\<close>.\<close>

definition leaf_bucket :: "world \<Rightarrow> bucket_ptr \<Rightarrow> inode list \<Rightarrow> bool" where
  "leaf_bucket w b xs \<longleftrightarrow> (\<exists>x k. bucketHeap w b = Some x \<and> in_write_tx w (bucket_tx x) k \<and>
     content w b (root_page x) = Inr (True, xs) \<and> leaf_inv xs \<and> loadable w b x)"

lemma getPageNode_cached:
  "bucketHeap w b = Some x \<Longrightarrow>
     getPageNode b (root_page x) w = Inr ((Some n, q), w) \<longleftrightarrow> root_cached x = Some n \<and> q = None"
  by (auto simp: getPageNode_def root_cached_def act_simps result_iffs split: option.splits)

lemma content_cached:
  assumes "bucketHeap w b = Some x" and "root_cached x = Some n" and "nodeHeap w n = Some y"
  shows "content w b (root_page x) = Inr (isLeaf y, inodeList y)"
  using getPageNode_cached [OF assms(1), of n None] assms(2,3)
  by (simp add: content_def ref_content_def ElementRef_def)

text \<open>A leaf without relatives, for the page \<open>pid\<close>.\<close>

definition lone_leaf :: "bucket_ptr \<Rightarrow> pgid \<Rightarrow> node \<Rightarrow> bool" where
  "lone_leaf b pid y \<longleftrightarrow> isLeaf y \<and> node_bucket y = b \<and> parentNode y = None \<and> children y = [] \<and> \<not> spilled y \<and> node_pageId y = pid"

text \<open>\<open>Node::read\<close> of a leaf page into a new node.\<close>

lemma read_leaf_page:
  assumes "page_inodes bytes = Inr (True, xs)" and "page_id bytes = Inr pid" and "leaf_inv xs"
  shows "\<exists>y. Node_read bytes (Node_new b None) = Inr y \<and> inodeList y = xs \<and> lone_leaf b pid y"
proof -
  obtain fl cnt where f: "page_flag bytes = Inr fl" "page_count bytes = Inr cnt" "fl AND leafPageFlag \<noteq> 0"
      "length xs = unat cnt" "read_inodes bytes True 0 (replicate (unat cnt) Inode_default) = Inr xs"
    using page_inodes_Inr [OF assms(1)] by auto
  have r: "resize (unat cnt) [] = replicate (unat cnt) Inode_default" by (simp add: resize_def)
  have "\<not> Item_empty (inode_key (xs ! 0))" if "xs \<noteq> []"
    using assms(3) that nth_mem [of 0 xs] item_wf_length [of "inode_key (xs ! 0)"]
    by (auto simp: leaf_inv_def Item_empty_def)
  then show ?thesis
    using f assms(2) r by (cases xs) (auto simp: Node_read_def Node_new_def Let_def check_def lone_leaf_def)
qed

lemma Tx_getPage_cong:
  assumes "txHeap v = txHeap w" and "mapGen v = mapGen w"
  shows "Tx_getPage t pid v = and_then (Tx_getPage t pid w) (\<lambda>(p, _). Inr (p, v))"
  using assms
  by (auto simp: Tx_getPage_def act_simps tx_meta_def getPagePtr_def of_option_def split: option.split)

lemma page_bytes_heaps [simp]:
  "page_bytes (w\<lparr>nextPtr := k, nodeHeap := h, bucketHeap := g\<rparr>) p = page_bytes w p"
  "page_bytes (w\<lparr>nodeHeap := h\<rparr>) p = page_bytes w p"
  by (induction p) (simp_all add: map_offset_def)

section \<open>What an edit leaves alone\<close>

text \<open>Everything in the state but the heaps, the freelist and the clock.\<close>

definition db_rest :: "world \<Rightarrow> environ \<times> (buffer \<times> int \<times> bool \<times> nat \<times> int \<times> u32 \<times> u32) \<times>
    (bool \<times> bool \<times> bool \<times> bool \<times> int) \<times> tx_ptr option \<times> tx_ptr list \<times> bool \<times> bool \<times> nat \<times> bool" where
  "db_rest w = (env w, (disk w, fd w, mapped w, mapGen w, datasz w, filesz w, pageSize w),
     (opened w, readOnly w, NoSync w, NoGrowSync w, AllocSize w), rwtx w, txs w, rwLock w, metaLock w, mmapReaders w, mmapWriter w)"

lemma db_rest_simps [simp]:
  "db_rest (w\<lparr>nodeHeap := h\<rparr>) = db_rest w" "db_rest (w\<lparr>txHeap := tm\<rparr>) = db_rest w" "db_rest (w\<lparr>bucketHeap := g\<rparr>) = db_rest w"
  "db_rest (w\<lparr>nextPtr := k\<rparr>) = db_rest w"
  by (simp_all add: db_rest_def)

text \<open>Everything but the nodes, the entries of the bucket \<open>b\<close> and the counters of cursors.\<close>

definition outside :: "bucket_ptr \<Rightarrow> world \<Rightarrow> (environ \<times> (buffer \<times> int \<times> bool \<times> nat \<times> int \<times> u32 \<times> u32) \<times>
    (bool \<times> bool \<times> bool \<times> bool \<times> int) \<times> tx_ptr option \<times> tx_ptr list \<times> bool \<times> bool \<times> nat \<times> bool) \<times> freeList \<times> (nat \<rightharpoonup> buffer) \<times>
    (bucket_ptr \<rightharpoonup> bucket) \<times> (bucketHeader \<times> tx_ptr \<times> (item \<times> bucket_ptr) list) option \<times> (tx_ptr \<rightharpoonup> tx)" where
  "outside b w = (db_rest w, freelist w, pageHeap w, (bucketHeap w)(b := None),
     map_option (\<lambda>x. (bucketHeader x, bucket_tx x, buckets x)) (bucketHeap w b),
     (\<lambda>t. map_option (\<lambda>x. x\<lparr>cursorCount := 0\<rparr>) (txHeap w t)))"

text \<open>The bucket has no node, or only its root, which is a leaf.\<close>

definition solo :: "world \<Rightarrow> bucket_ptr \<Rightarrow> bool" where
  "solo w b \<longleftrightarrow> (\<exists>x. bucketHeap w b = Some x \<and> (rootNode x = None \<and> nodes x = [] \<or>
     (\<exists>r y pid. rootNode x = Some r \<and> nodes x = [(pid, r)] \<and> (root_page x \<noteq> 0 \<longrightarrow> pid = root_page x) \<and>
        nodeHeap w r = Some y \<and> lone_leaf b pid y)))"

definition loaded :: "world \<Rightarrow> bucket_ptr \<Rightarrow> bool" where
  "loaded w b \<longleftrightarrow> (\<exists>x. bucketHeap w b = Some x \<and> rootNode x \<noteq> None)"

definition edits :: "bucket_ptr \<Rightarrow> world \<Rightarrow> world \<Rightarrow> bool" where
  "edits b w w' \<longleftrightarrow> outside b w' = outside b w \<and> (solo w b \<longrightarrow> solo w' b) \<and> (loaded w b \<longrightarrow> loaded w' b)"

lemma edits_refl [simp]: "edits b w w"
  by (simp add: edits_def)

lemma edits_trans: "edits b u v \<Longrightarrow> edits b v w \<Longrightarrow> edits b u w"
  by (simp add: edits_def)

lemma outside_count [simp]: "outside b (count_cursor a w) = outside b w"
  by (auto simp: outside_def db_rest_def count_cursor_def fun_eq_iff split: option.split)

lemma outside_nodes [simp]: "outside b (w\<lparr>nodeHeap := h\<rparr>) = outside b w"
  by (simp add: outside_def db_rest_def)

lemma edits_count [simp]: "edits b w (count_cursor a w)"
  by (simp add: edits_def solo_def loaded_def)

lemma editsD:
  assumes "edits b w w'"
  shows "db_rest w' = db_rest w" "freelist w' = freelist w" "pageHeap w' = pageHeap w" "solo w b \<Longrightarrow> solo w' b" "loaded w b \<Longrightarrow> loaded w' b"
    and "a \<noteq> b \<Longrightarrow> bucketHeap w' a = bucketHeap w a"
    and "bucketHeap w b = Some x \<Longrightarrow> \<exists>x'. bucketHeap w' b = Some x' \<and> bucketHeader x' = bucketHeader x \<and> bucket_tx x' = bucket_tx x \<and> buckets x' = buckets x"
    and "txHeap w t = Some y \<Longrightarrow> \<exists>k. txHeap w' t = Some (y\<lparr>cursorCount := k\<rparr>)"
proof -
  have o: "outside b w' = outside b w" using assms by (simp add: edits_def)
  show "db_rest w' = db_rest w" "freelist w' = freelist w" "pageHeap w' = pageHeap w" "solo w b \<Longrightarrow> solo w' b" "loaded w b \<Longrightarrow> loaded w' b"
    using assms by (simp_all add: edits_def outside_def)
  show "a \<noteq> b \<Longrightarrow> bucketHeap w' a = bucketHeap w a" using o by (auto simp: outside_def fun_eq_iff split: if_splits)
  show "bucketHeap w b = Some x \<Longrightarrow> \<exists>x'. bucketHeap w' b = Some x' \<and> bucketHeader x' = bucketHeader x \<and> bucket_tx x' = bucket_tx x \<and> buckets x' = buckets x"
    using o by (auto simp: outside_def)
  assume "txHeap w t = Some y"
  then obtain y' where y': "txHeap w' t = Some y'" "y'\<lparr>cursorCount := 0\<rparr> = y\<lparr>cursorCount := 0\<rparr>"
    using o by (auto simp: outside_def fun_eq_iff dest!: spec [of _ t])
  have "y' = y\<lparr>cursorCount := cursorCount y'\<rparr>" using arg_cong [OF y'(2), of "\<lambda>z. z\<lparr>cursorCount := cursorCount y'\<rparr>"] by (cases y') simp
  then show "\<exists>k. txHeap w' t = Some (y\<lparr>cursorCount := k\<rparr>)" using y'(1) by metis
qed

text \<open>Changing the root node.\<close>

lemma edits_node:
  assumes "bucketHeap w b = Some x" and "root_cached x = Some n" and "nodeHeap w n = Some y"
    and "\<And>pid. lone_leaf b pid y \<Longrightarrow> lone_leaf b pid y'"
  shows "edits b w (w\<lparr>nodeHeap := (nodeHeap w)(n \<mapsto> y')\<rparr>)"
proof -
  have "solo (w\<lparr>nodeHeap := (nodeHeap w)(n \<mapsto> y')\<rparr>) b" if "solo w b"
    using that assms unfolding solo_def root_cached_def by (auto split: if_splits)
  then show ?thesis by (simp add: edits_def loaded_def)
qed

lemma solo_loaded:
  assumes "solo w b" and "bucketHeap w b = Some x" and "root_cached x = Some n"
  shows "rootNode x = Some n"
  using assms by (auto simp: solo_def root_cached_def split: if_splits)

text \<open>Loading the root node.\<close>

lemma edits_load:
  assumes "bucketHeap w b = Some x" and "root_cached x = None" and "root_page x \<noteq> 0 \<longrightarrow> pid = root_page x" and "lone_leaf b pid y"
    and "map_of (nodes x) pid = None"
  shows "edits b w (w\<lparr>nextPtr := k, nodeHeap := (nodeHeap w)(n \<mapsto> y), bucketHeap := (bucketHeap w)(b \<mapsto>
    x\<lparr>rootNode := Some n, bucket_page := q, nodes := AList.update pid n (nodes x)\<rparr>)\<rparr>)" (is "edits b w ?w")
proof -
  have "outside b ?w = outside b w" using assms(1) by (simp add: outside_def db_rest_def)
  moreover have "nodes x = []" if "solo w b" using that assms(1,2,3,5) by (auto simp: solo_def root_cached_def split: if_splits)
  ultimately show ?thesis using assms(3,4) by (auto simp: edits_def solo_def loaded_def)
qed

text \<open>What \<open>getNode\<close> gives for a cursor on the root: a node of the bucket that holds its entries.\<close>

definition holds_root :: "world \<Rightarrow> bucket_ptr \<Rightarrow> bucket \<Rightarrow> node_ptr \<Rightarrow> inode list \<Rightarrow> bool" where
  "holds_root w b x n xs \<longleftrightarrow> bucketHeap w b = Some x \<and> root_cached x = Some n \<and>
     (\<exists>y. nodeHeap w n = Some y \<and> isLeaf y \<and> inodeList y = xs \<and> node_bucket y = b)"

lemma getNode_cached:
  assumes "elements c = [r]" and "cur_bucket c = b" and "bucketHeap w b = Some x" and "loadable w b x"
    and "getPageNode b (root_page x) w = Inr ((er_node r, er_page r), w)" and "ref_content w r = Inr (True, xs)"
    and "er_node r = Some n"
  shows "Cursor_getNode c w = Inr ((n, c), w) \<and> holds_root w b x n xs"
proof -
  have rc: "root_cached x = Some n" using getPageNode_cached [OF assms(3)] assms(5,7) by auto
  then have "\<nexists>p. getPageNode b (root_page x) w = Inr ((None, Some p), w)"
    using getPageNode_cached [OF assms(3), of n None] by simp
  then obtain y where y: "nodeHeap w n = Some y" "node_bucket y = b" using assms(4) rc by (auto simp: loadable_def)
  then have "isLeaf y" "inodeList y = xs" using assms(6,7) by (auto simp: ref_content_def)
  then show ?thesis
    using y rc assms(1,3,7) by (simp add: Cursor_getNode_def act_simps ElementRef_isLeaf_def holds_root_def)
qed

lemma getNode_page:
  assumes "elements c = [r]" and "cur_bucket c = b" and "bucketHeap w b = Some x" and "loadable w b x"
    and "getPageNode b (root_page x) w = Inr ((None, Some p), w)" and "er_node r = None" and "er_page r = Some p"
    and "ref_content w r = Inr (True, xs)" and "leaf_inv xs"
  shows "\<exists>n c' w' x'. Cursor_getNode c w = Inr ((n, c'), w') \<and> holds_root w' b x' n xs \<and>
    bucketHeader x' = bucketHeader x \<and> bucket_tx x' = bucket_tx x \<and> txHeap w' = txHeap w \<and> edits b w w' \<and>
    n = NodePtr (nextPtr w) \<and> nextPtr w' = Suc (nextPtr w)"
proof -
  have none: "root_cached x = None" using getPageNode_cached [OF assms(3), where q = None] assms(5) by (cases "root_cached x") auto
  then obtain bytes pid where l: "page_bytes w p = Inr bytes" "page_id bytes = Inr pid" "map_of (nodes x) pid = None"
      "bucket_parentNode x = None" "root_page x \<noteq> 0 \<longrightarrow> pid = root_page x" "bucket_page x = None \<or> bucket_page x = Some p"
    using assms(4,5) by (auto simp: loadable_def)
  have "page_inodes bytes = Inr (True, xs)" using assms(6-8) l(1) by (simp add: ref_content_def)
  from read_leaf_page [OF this l(2) assms(9), of b] obtain y where
    "Node_read bytes (Node_new b None) = Inr y" "inodeList y = xs" "lone_leaf b pid y" by blast
  then have y: "Node_read bytes (Node_new b None) = Inr y" "isLeaf y" "inodeList y = xs" "node_bucket y = b" "lone_leaf b pid y"
    by (simp_all add: lone_leaf_def)
  let ?n = "NodePtr (nextPtr w)"
  let ?x = "x\<lparr>rootNode := Some ?n, bucket_page := Some p, nodes := AList.update pid ?n (nodes x)\<rparr>"
  let ?w = "w\<lparr>nextPtr := Suc (nextPtr w), nodeHeap := (nodeHeap w)(?n \<mapsto> y), bucketHeap := (bucketHeap w)(b \<mapsto> ?x)\<rparr>"
  have "Bucket_getNode b pid None w = Inr (?n, ?w)"
  proof (cases "bucket_page x")
    case None
    then have "root_page x \<noteq> 0" using assms(3,5) by (auto simp: getPageNode_def act_simps split: option.splits)
    then have "Tx_getPage (bucket_tx x) pid w = Inr (Some p, w)"
      using assms(3,5) l(5) by (auto simp: getPageNode_def act_simps result_iffs split: option.splits dest: Tx_getPage_pure)
    then have "Tx_getPage (bucket_tx x) pid v = Inr (Some p, v)" if "txHeap v = txHeap w" "mapGen v = mapGen w" for v
      using Tx_getPage_cong [OF that] by simp
    then show ?thesis
      using assms(3) l y None
      by (simp add: Bucket_getNode_def act_simps new_node_def Let_def upd_bucket_def read_node_def)
  next
    case (Some q)
    then have same: "?x = x\<lparr>rootNode := Some ?n, nodes := AList.update pid ?n (nodes x)\<rparr>" using l(6) by (cases x) simp
    show ?thesis unfolding same using Some assms(3) l y
      by (simp add: Bucket_getNode_def act_simps new_node_def Let_def upd_bucket_def read_node_def)
  qed
  then have "Cursor_getNode c w = Inr ((?n, c), ?w)"
    using assms(1,2,6,7) l(1,2) y(2) by (simp add: Cursor_getNode_def act_simps)
  moreover have "holds_root ?w b ?x ?n xs"
    using y l(5) by (auto simp: holds_root_def root_cached_def update_conv)
  ultimately show ?thesis
    using edits_load [OF assms(3) none l(5) y(5) l(3)] by (intro exI [of _ ?n] exI [of _ c] exI [of _ ?w] exI [of _ ?x]) simp
qed

section \<open>Seeking in a leaf\<close>

lemma seek_leaf:
  fixes key :: item
  assumes "bucketHeap w b = Some x" and "content w b (root_page x) = Inr (True, xs)" and "ascending (keys_of xs)"
    and "length xs < 2 ^ 32"
  defines "i \<equiv> lower_bound (keys_of xs) (item_data key)"
  shows "\<exists>s c r. seek (Suc fuel) key (Cursor_new b) w = Inr ((s, c), w) \<and> elements c = [r] \<and> cur_bucket c = b \<and>
    getPageNode b (root_page x) w = Inr ((er_node r, er_page r), w) \<and> ref_content w r = Inr (True, xs) \<and>
    s = (if i < length xs then shown_at r i (xs ! i) else shown_reset)"
proof -
  have c: "cur_bucket (clearElements (Cursor_new b)) = b" "elements (clearElements (Cursor_new b)) = []"
    by (simp_all add: clearElements_def Cursor_new_def)
  have "content w (cur_bucket (clearElements (Cursor_new b))) (root_page x) = Inr (True, xs)" using assms(2) c by simp
  from search_leaf_step [OF this, of fuel key] obtain r where
    r: "Cursor_search (Suc fuel) key (root_page x) (clearElements (Cursor_new b)) w = Inr (push r (clearElements (Cursor_new b)), w)"
      "ref_content w r = Inr (True, xs)" "er_index r = of_nat i" "getPageNode b (root_page x) w = Inr ((er_node r, er_page r), w)"
    using binarySearch_spec [OF assms(3), of key] c by (auto simp: i_def)
  let ?c = "push r (clearElements (Cursor_new b))"
  have e: "elements ?c = [r]" "cur_bucket ?c = b" using c by (simp_all add: push_def)
  have le: "i \<le> length xs" using lower_bound_le [of "keys_of xs" "item_data key"] by (simp add: i_def)
  have cmp: "(of_nat (length xs) :: u64) \<le> of_nat i \<longleftrightarrow> length xs \<le> i"
    using assms(4) le by (simp add: word_le_nat_alt unat_of_nat)
  note run = r(1,3) ref_content_facts [OF r(2)] cmp e getRootPage_apply [OF assms(1)]
  show ?thesis
  proof (cases "i < length xs")
    case True
    then have "seek (Suc fuel) key (Cursor_new b) w = Inr ((shown_at r i (xs ! i), ?c), w)"
      using run keyValue_at [OF e(1) r(2) assms(4) r(3) True, of shown_reset]
      by (simp add: seek_def do_seek_def act_simps top_ref_def Cursor_new_def)
    then show ?thesis using True e r by auto
  next
    case False
    then have "seek (Suc fuel) key (Cursor_new b) w = Inr ((shown_reset, ?c), w)"
      using run by (simp add: seek_def do_seek_def act_simps top_ref_def Cursor_new_def)
    then show ?thesis using False e r by auto
  qed
qed

section \<open>The node to edit\<close>

lemma in_write_tx_count [simp]: "in_write_tx (count_cursor b w) t k = in_write_tx w t k"
  by (auto simp: in_write_tx_def txHeap_count_cursor split: option.splits)

lemma loadable_count [simp]: "loadable (count_cursor b w) a x = loadable w a x"
  by (auto simp: loadable_def getPageNode_count_cursor result_iffs dest: getPageNode_pure)

lemma leaf_bucketI:
  assumes "holds_root w b x n xs" and "in_write_tx w (bucket_tx x) k" and "leaf_inv xs"
  shows "leaf_bucket w b xs"
  using assms content_cached [of w b x n] by (auto simp: leaf_bucket_def holds_root_def loadable_def)

text \<open>What \<open>put\<close> and \<open>remove\<close> do before they edit: they end up with a node that holds the entries.\<close>

lemma edit_root:
  fixes key :: item
  assumes "leaf_bucket w b xs" and "length xs < 2 ^ 32"
  defines "i \<equiv> lower_bound (keys_of xs) (item_data key)"
  obtains x t s c n c' w' x' k where "bucketHeap w b = Some x" "txHeap w (bucket_tx x) = Some t" "tx_db t" "writable t"
    "createCursor b w = Inr (Cursor_new b, count_cursor b w)"
    "seek (Suc fuel) key (Cursor_new b) (count_cursor b w) = Inr ((s, c), count_cursor b w)"
    "if i < length xs then sh_key s = inode_key (xs ! i) \<and> sh_flag s = inode_flag (xs ! i) else s = shown_reset"
    "Cursor_getNode c (count_cursor b w) = Inr ((n, c'), w')" "holds_root w' b x' n xs" "in_write_tx w' (bucket_tx x') k" "edits b w w'"
proof -
  obtain x k where x: "bucketHeap w b = Some x" "in_write_tx w (bucket_tx x) k" "content w b (root_page x) = Inr (True, xs)"
      "leaf_inv xs" "loadable w b x" using assms(1) by (auto simp: leaf_bucket_def)
  then obtain t where t: "txHeap w (bucket_tx x) = Some t" "tx_db t" "writable t" by (auto simp: in_write_tx_def)
  let ?w = "count_cursor b w"
  have asc: "ascending (keys_of xs)" using x(4) by (simp add: leaf_inv_def)
  have "bucketHeap ?w b = Some x" "content ?w b (root_page x) = Inr (True, xs)" using x by simp_all
  from seek_leaf [OF this asc assms(2), of fuel key, folded i_def] obtain s c r where
    c: "seek (Suc fuel) key (Cursor_new b) ?w = Inr ((s, c), ?w)" "elements c = [r]" "cur_bucket c = b"
      "getPageNode b (root_page x) ?w = Inr ((er_node r, er_page r), ?w)" "ref_content ?w r = Inr (True, xs)"
      and s: "s = (if i < length xs then shown_at r i (xs ! i) else shown_reset)"
    by (elim exE conjE) (rule that)
  have hit: "if i < length xs then sh_key s = inode_key (xs ! i) \<and> sh_flag s = inode_flag (xs ! i) else s = shown_reset"
    using s by simp
  have "\<exists>n c' w' x'. Cursor_getNode c ?w = Inr ((n, c'), w') \<and> holds_root w' b x' n xs \<and>
    bucketHeader x' = bucketHeader x \<and> bucket_tx x' = bucket_tx x \<and> txHeap w' = txHeap ?w \<and> edits b ?w w'"
  proof (cases "er_node r")
    case (Some n)
    then show ?thesis using getNode_cached [OF c(2,3) _ _ c(4,5)] x by auto
  next
    case None
    then obtain p where "er_page r = Some p" using c(5) by (auto simp: ref_content_def split: option.splits)
    then show ?thesis using getNode_page [OF c(2,3) _ _ _ None _ c(5)] x c(4) None by fastforce
  qed
  then obtain n c' w' x' where n: "Cursor_getNode c ?w = Inr ((n, c'), w')" "holds_root w' b x' n xs"
      "bucket_tx x' = bucket_tx x" "txHeap w' = txHeap ?w" "edits b ?w w'" by blast
  have "in_write_tx w' (bucket_tx x') k = in_write_tx ?w (bucket_tx x') k" using n(4) by (simp add: in_write_tx_def)
  then have "in_write_tx w' (bucket_tx x') k" using n(3) x(2) by simp
  with x(1) t createCursor_apply [OF x(1) t(1)] c(1) hit n(1,2) show thesis using edits_trans [OF edits_count n(5)] by (rule that)
qed

section \<open>Editing the entries\<close>

definition leaf_node :: "inode list \<Rightarrow> node" where
  "leaf_node xs = (Node_new (BucketPtr 0) None)\<lparr>isLeaf := True, inodeList := xs\<rparr>"

definition put_entry :: "byte list \<Rightarrow> u32 \<Rightarrow> item \<Rightarrow> inode list \<Rightarrow> inode list" where
  "put_entry k flag v xs = inodeList (node_put 1 k (flag, v, 0) (leaf_node xs))"

definition del_entry :: "byte list \<Rightarrow> inode list \<Rightarrow> inode list" where
  "del_entry k xs = inodeList (node_del k (leaf_node xs))"

lemma leaf_node_simps [simp]: "inodeList (leaf_node xs) = xs" "node_keys (leaf_node xs) = keys_of xs"
  by (simp_all add: leaf_node_def node_keys_def)

lemma put_entry_inodes:
  assumes "leaf_inv xs" and "key_ok k"
  shows "put_entry k flag v xs = take (lower_bound (keys_of xs) k) xs @ put_inode (Item_string k) v 0 flag #
    drop (if k \<in> set (keys_of xs) then Suc (lower_bound (keys_of xs) k) else lower_bound (keys_of xs) k) xs"
  using node_put_inodes [of "leaf_node xs" 1 k flag v 0] assms by (simp add: put_entry_def node_inv_leaf del: set_map)

lemma del_entry_inodes:
  assumes "leaf_inv xs"
  shows "del_entry k xs = take (lower_bound (keys_of xs) k) xs @
    drop (if k \<in> set (keys_of xs) then Suc (lower_bound (keys_of xs) k) else lower_bound (keys_of xs) k) xs"
  using node_del_inodes [of "leaf_node xs" k] assms by (simp add: del_entry_def node_inv_leaf del: set_map)

lemma Node_put_entry:
  assumes "leaf_inv (inodeList y)" and "key_ok k" and "tp \<noteq> 0"
  shows "\<exists>y'. Node_put tp (Item_string k) (Item_string k) v 0 flag y = (True, y') \<and>
    inodeList y' = put_entry k flag v (inodeList y) \<and> isLeaf y' = isLeaf y \<and> node_bucket y' = node_bucket y \<and>
    (\<forall>b pid. lone_leaf b pid y \<longrightarrow> lone_leaf b pid y')"
proof -
  have "(0 :: u64) < ucast tp" using assms(3) by (simp add: word_neq_0_conv word_less_nat_alt)
  then have ok: "node_op_ok tp (Put k (flag, v, 0))" using assms(2) by simp
  have inv: "node_inv y" using assms(1) by (simp add: node_inv_leaf)
  have "isLeaf (snd (Node_put tp a c v p f y)) = isLeaf y \<and> node_bucket (snd (Node_put tp a c v p f y)) = node_bucket y \<and>
      lone_leaf b pid (snd (Node_put tp a c v p f y)) = lone_leaf b pid y" for a c p f b pid
    by (simp add: Node_put_def Let_def lone_leaf_def split: prod.split)
  then show ?thesis
    using node_put_eq [OF inv ok] node_put_inodes [OF inv ok] put_entry_inodes [OF assms(1,2)]
    by (auto simp: node_put_def node_keys_def)
qed

lemma Node_del_entry:
  assumes "leaf_inv (inodeList y)"
  shows "\<exists>y'. Node_del (Item_string k) y = (True, y') \<and>
    inodeList y' = del_entry k (inodeList y) \<and> isLeaf y' = isLeaf y \<and> node_bucket y' = node_bucket y \<and>
    (\<forall>b pid. lone_leaf b pid y \<longrightarrow> lone_leaf b pid y')"
proof -
  obtain a y' where d: "Node_del (Item_string k) y = (a, y')" by fastforce
  have "isLeaf y' = isLeaf y" "node_bucket y' = node_bucket y" "a" "\<forall>b pid. lone_leaf b pid y \<longrightarrow> lone_leaf b pid y'"
    using d by (auto simp: Node_del_def lone_leaf_def split: prod.splits if_splits)
  then show ?thesis
    using d node_del_inodes [of y k] del_entry_inodes [OF assms, of k] assms
    by (simp add: node_del_def node_inv_leaf node_keys_def del: set_map)
qed

lemma leaf_inv_edit:
  assumes "leaf_inv xs"
  shows "key_ok k \<Longrightarrow> leaf_inv (put_entry k flag v xs)" and "leaf_inv (del_entry k xs)"
  using node_inv_put [of "leaf_node xs" 1 k flag v 0] node_inv_del [of "leaf_node xs" k] assms
  by (simp_all add: node_inv_leaf put_entry_def del_entry_def)

lemma length_edit:
  assumes "leaf_inv xs"
  shows "key_ok k \<Longrightarrow> length (put_entry k flag v xs) \<le> Suc (length xs)" and "length (del_entry k xs) \<le> length xs"
  using put_entry_inodes [OF assms, of k flag v] del_entry_inodes [OF assms, of k] by (simp_all add: min_def)

section \<open>The operations of a leaf bucket\<close>

text \<open>\<open>Node::put\<close> on the node that holds the entries.\<close>

lemma put_held:
  assumes "holds_root w b x n xs" and "in_write_tx w (bucket_tx x) tp" and "leaf_inv xs" and "key_ok k"
  shows "\<exists>w'. put_in_node n (Item_string k) (Item_string k) v 0 flag w = Inr (True, w') \<and> leaf_bucket w' b (put_entry k flag v xs) \<and>
    holds_root w' b x n (put_entry k flag v xs) \<and> edits b w w' \<and> (\<exists>y. w' = w\<lparr>nodeHeap := (nodeHeap w)(n \<mapsto> y)\<rparr>)"
proof -
  obtain y where y: "bucketHeap w b = Some x" "root_cached x = Some n" "nodeHeap w n = Some y" "isLeaf y" "inodeList y = xs"
      "node_bucket y = b" using assms(1) by (auto simp: holds_root_def)
  obtain y' where y': "Node_put tp (Item_string k) (Item_string k) v 0 flag y = (True, y')" "inodeList y' = put_entry k flag v xs"
      "isLeaf y'" "node_bucket y' = b" "\<forall>b pid. lone_leaf b pid y \<longrightarrow> lone_leaf b pid y'"
    using Node_put_entry [of y k tp v flag] assms(2-4) y by (auto simp: in_write_tx_def)
  let ?w = "w\<lparr>nodeHeap := (nodeHeap w)(n \<mapsto> y')\<rparr>"
  have "put_in_node n (Item_string k) (Item_string k) v 0 flag w = Inr (True, ?w)"
    using y y'(1) assms(2)
    by (auto simp: put_in_node_def act_simps Bucket_getTotalPageNumber_def getTotalPageNumber_def tx_meta_def in_write_tx_def)
  moreover have h: "holds_root ?w b x n (put_entry k flag v xs)" using y y' by (simp add: holds_root_def)
  moreover have "leaf_bucket ?w b (put_entry k flag v xs)"
    by (rule leaf_bucketI [OF h, of tp]) (use assms(2) leaf_inv_edit(1) [OF assms(3,4)] in \<open>auto simp: in_write_tx_def\<close>)
  moreover have "edits b w ?w" by (rule edits_node [OF y(1-3)]) (use y'(5) in blast)
  ultimately show ?thesis by blast
qed

lemma held_loaded: "holds_root w b x n xs \<Longrightarrow> solo w b \<Longrightarrow> loaded w b"
  using solo_loaded by (fastforce simp: holds_root_def loaded_def)

lemma put_leaf:
  assumes "leaf_bucket w b xs" and "length xs < 2 ^ 32" and "key_ok k" and "length k \<le> 32768"
    and "item_length v \<le> MAXVALUESIZE" and "\<forall>i \<in> set xs. item_data (inode_key i) = k \<longrightarrow> inode_flag i AND bucketLeafFlag = 0"
  shows "\<exists>w'. Bucket_put (Suc fuel) b (Item_string k) v w = Inr (0, w') \<and> leaf_bucket w' b (put_entry k 0 v xs) \<and> edits b w w' \<and>
    (solo w b \<longrightarrow> loaded w' b)"
proof -
  have inv: "leaf_inv xs" using assms(1) by (auto simp: leaf_bucket_def)
  let ?i = "lower_bound (keys_of xs) k"
  obtain x t s c n c' w' x' tp where r: "bucketHeap w b = Some x" "txHeap w (bucket_tx x) = Some t" "tx_db t" "writable t"
      "createCursor b w = Inr (Cursor_new b, count_cursor b w)"
      "seek (Suc fuel) (Item_string k) (Cursor_new b) (count_cursor b w) = Inr ((s, c), count_cursor b w)"
      "if ?i < length xs then sh_key s = inode_key (xs ! ?i) \<and> sh_flag s = inode_flag (xs ! ?i) else s = shown_reset"
      "Cursor_getNode c (count_cursor b w) = Inr ((n, c'), w')" "holds_root w' b x' n xs" "in_write_tx w' (bucket_tx x') tp" "edits b w w'"
    by (rule edit_root [OF assms(1,2), where key = "Item_string k" and fuel = fuel, unfolded Item_string_simps(1)]) (rule that)
  have plain: "\<not> (Item_eq (sh_key s) (Item_string k) \<and> sh_flag s AND bucketLeafFlag \<noteq> 0)"
    using r(7) assms(3,6) by (auto simp: Item_eq_def shown_reset_def Item_default_def key_ok_def split: if_splits)
  have len: "(of_nat (length k) :: u32) \<noteq> 0" "\<not> MAXKEYSIZE < of_nat (length k)"
    using assms(3,4) key_ok_length by (auto simp: MAXKEYSIZE_def word_less_nat_alt unat_of_nat)
  from put_held [OF r(9,10) inv assms(3), of v 0] obtain w'' where
    put: "put_in_node n (Item_string k) (Item_string k) v 0 0 w' = Inr (True, w'')" "leaf_bucket w'' b (put_entry k 0 v xs)"
      "holds_root w'' b x' n (put_entry k 0 v xs)" "edits b w' w''" by blast
  have "Bucket_put (Suc fuel) b (Item_string k) v w = Inr (0, w'')"
    unfolding Bucket_put_def using r(1-6,8) plain len assms(5) put(1) by (simp add: act_simps)
  moreover have e: "edits b w w''" by (rule edits_trans [OF r(11) put(4)])
  moreover have "loaded w'' b" if "solo w b" using held_loaded [OF put(3)] e that by (simp add: edits_def)
  ultimately show ?thesis using put(2) by blast
qed

text \<open>Entries none of which is a bucket, and the map they stand for.\<close>

definition plain :: "inode list \<Rightarrow> bool" where
  "plain xs \<longleftrightarrow> (\<forall>i \<in> set xs. inode_flag i AND bucketLeafFlag = 0)"

definition entry_map :: "inode list \<Rightarrow> byte list \<Rightarrow> item option" where
  "entry_map xs k = map_option inode_value (find (\<lambda>e. item_data (inode_key e) = k) xs)"

lemma entry_map_lookup: "entry_map xs k = map_option (fst \<circ> snd) (map_of (map inode_entry xs) k)"
  by (induction xs) (auto simp: entry_map_def inode_entry_def)

lemma entry_map_edit:
  assumes "leaf_inv xs"
  shows "key_ok k \<Longrightarrow> entry_map (put_entry k 0 v xs) = (entry_map xs)(k \<mapsto> v)"
    and "entry_map (del_entry k xs) = (entry_map xs)(k := None)"
proof -
  have inv: "node_inv (leaf_node xs)" using assms by (simp add: node_inv_leaf)
  have lk: "entry_map (inodeList n) j = map_option (fst \<circ> snd) (node_lookup n j)" if "node_inv n" for n j
    using node_lookup_map_of [OF node_inv_asc [OF that]] by (simp add: entry_map_lookup)
  have e: "entry_map xs j = map_option (fst \<circ> snd) (node_lookup (leaf_node xs) j)" for j using lk [OF inv] by simp
  show "entry_map (del_entry k xs) = (entry_map xs)(k := None)"
    using node_lookup_del [OF inv, of k] lk [OF node_inv_del [OF inv]] e by (auto simp: del_entry_def fun_eq_iff)
  assume "key_ok k"
  then have ok: "node_op_ok 1 (Put k (0, v, 0))" by simp
  show "entry_map (put_entry k 0 v xs) = (entry_map xs)(k \<mapsto> v)"
    using node_lookup_put [OF inv ok] lk [OF node_inv_put [OF inv ok]] e by (auto simp: put_entry_def fun_eq_iff)
qed

lemma plain_edit:
  assumes "leaf_inv xs" and "plain xs"
  shows "key_ok k \<Longrightarrow> plain (put_entry k 0 v xs)" and "plain (del_entry k xs)"
  using assms(2) put_entry_inodes [OF assms(1), of k 0 v] del_entry_inodes [OF assms(1), of k]
  by (auto simp: plain_def put_inode_def dest!: in_set_takeD in_set_dropD)

lemma remove_leaf:
  assumes "leaf_bucket w b xs" and "length xs < 2 ^ 32" and "key_ok k" and "plain xs"
  shows "\<exists>w'. Bucket_remove (Suc fuel) b (Item_string k) w = Inr (0, w') \<and> leaf_bucket w' b (del_entry k xs) \<and> edits b w w' \<and>
    (solo w b \<longrightarrow> loaded w' b)"
proof -
  have inv: "leaf_inv xs" using assms(1) by (auto simp: leaf_bucket_def)
  let ?i = "lower_bound (keys_of xs) k"
  obtain x t s c n c' w' x' tp where r: "bucketHeap w b = Some x" "txHeap w (bucket_tx x) = Some t" "tx_db t" "writable t"
      "createCursor b w = Inr (Cursor_new b, count_cursor b w)"
      "seek (Suc fuel) (Item_string k) (Cursor_new b) (count_cursor b w) = Inr ((s, c), count_cursor b w)"
      "if ?i < length xs then sh_key s = inode_key (xs ! ?i) \<and> sh_flag s = inode_flag (xs ! ?i) else s = shown_reset"
      "Cursor_getNode c (count_cursor b w) = Inr ((n, c'), w')" "holds_root w' b x' n xs" "in_write_tx w' (bucket_tx x') tp" "edits b w w'"
    by (rule edit_root [OF assms(1,2), where key = "Item_string k" and fuel = fuel, unfolded Item_string_simps(1)]) (rule that)
  obtain y where y: "bucketHeap w' b = Some x'" "root_cached x' = Some n" "nodeHeap w' n = Some y" "isLeaf y" "inodeList y = xs"
      "node_bucket y = b" using r(9) by (auto simp: holds_root_def)
  obtain y' where y': "Node_del (Item_string k) y = (True, y')" "inodeList y' = del_entry k xs" "isLeaf y'" "node_bucket y' = b"
      "\<forall>b pid. lone_leaf b pid y \<longrightarrow> lone_leaf b pid y'"
    using Node_del_entry [of y k] inv y by auto
  have flag: "sh_flag s AND bucketLeafFlag = 0"
    using r(7) assms(4) by (auto simp: plain_def shown_reset_def split: if_splits)
  let ?w = "w'\<lparr>nodeHeap := (nodeHeap w')(n \<mapsto> y')\<rparr>"
  have "del_in_node n (Item_string k) w' = Inr (True, ?w)" using y(3) y'(1) by (simp add: del_in_node_def act_simps)
  then have "Bucket_remove (Suc fuel) b (Item_string k) w = Inr (0, ?w)"
    unfolding Bucket_remove_def using r(1-6,8) flag key_ok_length [OF assms(3)] by (simp add: act_simps)
  moreover have "leaf_bucket ?w b (del_entry k xs)"
    by (rule leaf_bucketI [of _ _ x' n _ tp]) (use y y' r(10) leaf_inv_edit(2) [OF inv] in \<open>auto simp: holds_root_def in_write_tx_def\<close>)
  moreover have "edits b w ?w" by (rule edits_trans [OF r(11) edits_node [OF y(1-3)]]) (use y'(5) in blast)
  moreover have "loaded ?w b" if "solo w b"
    using solo_loaded [OF _ y(1,2)] r(11) that y(1) by (simp add: edits_def loaded_def)
  ultimately show ?thesis by blast
qed

lemma get_content:
  assumes "bucketHeap w b = Some x" and "txHeap w (bucket_tx x) = Some t" and "content w b (root_page x) = Inr (True, xs)"
    and "leaf_inv xs" and "length xs < 2 ^ 32" and "key_ok k" and "plain xs"
  shows "Bucket_get (Suc fuel) b (Item_string k) w =
      Inr (case entry_map xs k of None \<Rightarrow> Item_default | Some v \<Rightarrow> v, count_cursor b w)"
proof -
  have wf: "wf_tree (Suc 0) (content w b) (\<lambda>_. True) (root_page x)" using assms(3-5) by (simp add: leaf_inv_def)
  have es: "tree_entries (Suc 0) (content w b) (root_page x) = xs" using assms(3) by simp
  have "inode_flag e AND bucketLeafFlag = 0" if "find (\<lambda>e. item_data (inode_key e) = k) xs = Some e" for e
    using that assms(7) by (auto simp: plain_def find_Some_iff)
  then show ?thesis
    using Bucket_get_lookup [OF assms(1,2) wf, of "Item_string k" "Suc fuel"] assms(6) es
    by (auto simp: entry_map_def key_ok_def simp del: tree_entries.simps split: option.split)
qed

lemma get_leaf:
  assumes "leaf_bucket w b xs" and "length xs < 2 ^ 32" and "key_ok k" and "plain xs"
  shows "Bucket_get (Suc fuel) b (Item_string k) w =
      Inr (case entry_map xs k of None \<Rightarrow> Item_default | Some v \<Rightarrow> v, count_cursor b w)"
    and "leaf_bucket (count_cursor b w) b xs"
proof -
  obtain x tp where x: "bucketHeap w b = Some x" "in_write_tx w (bucket_tx x) tp" "content w b (root_page x) = Inr (True, xs)"
      "leaf_inv xs" "loadable w b x" using assms(1) by (auto simp: leaf_bucket_def)
  show "leaf_bucket (count_cursor b w) b xs" using x by (auto simp: leaf_bucket_def)
  obtain t where t: "txHeap w (bucket_tx x) = Some t" using x(2) by (auto simp: in_write_tx_def)
  show "Bucket_get (Suc fuel) b (Item_string k) w =
      Inr (case entry_map xs k of None \<Rightarrow> Item_default | Some v \<Rightarrow> v, count_cursor b w)"
    by (rule get_content [OF x(1) t x(3,4) assms(2-4)])
qed

section \<open>The interface: a key-value store\<close>

text \<open>
  What the user of a bucket relies on, for any operations on the state: as long as there is room for
  what the calls \<open>cost\<close>, \<open>put\<close> and \<open>remove\<close> succeed and act on the map \<open>lookup\<close>, and \<open>get\<close> reads it.
\<close>

locale kv_store =
  fixes cost :: "item map_op \<Rightarrow> nat"
    and inv :: "nat \<Rightarrow> world \<Rightarrow> bool"
    and op_ok :: "item map_op \<Rightarrow> bool"
    and lookup :: "world \<Rightarrow> byte list \<rightharpoonup> item"
    and put :: "byte list \<Rightarrow> item \<Rightarrow> int act"
    and remove :: "byte list \<Rightarrow> int act"
    and get :: "byte list \<Rightarrow> item act"
  assumes put_law: "inv (n + cost (Put k v)) w \<Longrightarrow> op_ok (Put k v) \<Longrightarrow>
      \<exists>w'. put k v w = Inr (0, w') \<and> inv n w' \<and> lookup w' = (lookup w)(k \<mapsto> v)"
    and remove_law: "inv (n + cost (Del k)) w \<Longrightarrow> op_ok (Del k) \<Longrightarrow>
      \<exists>w'. remove k w = Inr (0, w') \<and> inv n w' \<and> lookup w' = (lookup w)(k := None)"
    and get_law: "inv n w \<Longrightarrow> key_ok k \<Longrightarrow>
      \<exists>w'. get k w = Inr (case lookup w k of None \<Rightarrow> Item_default | Some v \<Rightarrow> v, w') \<and> inv n w' \<and> lookup w' = lookup w"
begin

text \<open>A user function: a sequence of calls that stops at the first error.\<close>

fun run :: "item map_op list \<Rightarrow> int act" where
  "run [] = ret 0"
| "run (Put k v # ops) = bnd (put k v) (\<lambda>rc. if rc \<noteq> 0 then ret rc else run ops)"
| "run (Del k # ops) = bnd (remove k) (\<lambda>rc. if rc \<noteq> 0 then ret rc else run ops)"

abbreviation total_cost :: "item map_op list \<Rightarrow> nat" where
  "total_cost ops \<equiv> sum_list (map cost ops)"

lemma run_spec:
  "inv (n + total_cost ops) w \<Longrightarrow> \<forall>a \<in> set ops. op_ok a \<Longrightarrow>
     \<exists>w'. run ops w = Inr (0, w') \<and> inv n w' \<and> lookup w' = fold apply_op ops (lookup w)"
proof (induction ops arbitrary: w)
  case (Cons a ops)
  have inv: "inv (n + total_cost ops + cost a) w" using Cons.prems(1) by (simp add: ac_simps)
  show ?case
  proof (cases a)
    case (Put k v)
    then obtain w' where "put k v w = Inr (0, w')" "inv (n + total_cost ops) w'" "lookup w' = (lookup w)(k \<mapsto> v)"
      using put_law [of "n + total_cost ops" k v w] inv Cons.prems(2) by auto
    then show ?thesis using Cons.IH [of w'] Cons.prems(2) Put by (simp add: act_simps del: fun_upd_apply)
  next
    case (Del k)
    then obtain w' where "remove k w = Inr (0, w')" "inv (n + total_cost ops) w'" "lookup w' = (lookup w)(k := None)"
      using remove_law [of "n + total_cost ops" k w] inv Cons.prems(2) by auto
    then show ?thesis using Cons.IH [of w'] Cons.prems(2) Del by (simp add: act_simps del: fun_upd_apply)
  qed
qed (simp add: act_simps)

lemma run_get:
  assumes "inv (total_cost ops) w" and "\<forall>a \<in> set ops. op_ok a" and "key_ok k"
  shows "\<exists>w' w''. run ops w = Inr (0, w') \<and>
    get k w' = Inr (case fold apply_op ops (lookup w) k of None \<Rightarrow> Item_default | Some v \<Rightarrow> v, w'')"
  using run_spec [of 0 ops w] get_law [OF _ assms(3), of 0] assms(1,2) by (metis add_0)

end

text \<open>Leaf buckets are such a store.\<close>

definition bucket_map :: "bucket_ptr \<Rightarrow> world \<Rightarrow> byte list \<Rightarrow> item option" where
  "bucket_map b w = (case bucketHeap w b of None \<Rightarrow> Map.empty | Some x \<Rightarrow>
     (case content w b (root_page x) of Inl _ \<Rightarrow> Map.empty | Inr (leaf, xs) \<Rightarrow> entry_map xs))"

definition has_room :: "bucket_ptr \<Rightarrow> nat \<Rightarrow> world \<Rightarrow> bool" where
  "has_room b n w \<longleftrightarrow> (\<exists>xs. leaf_bucket w b xs \<and> plain xs \<and> length xs + n < 2 ^ 32)"

fun bucket_op_ok :: "item map_op \<Rightarrow> bool" where
  "bucket_op_ok (Put k v) \<longleftrightarrow> key_ok k \<and> length k \<le> 32768 \<and> item_length v \<le> MAXVALUESIZE"
| "bucket_op_ok (Del k) \<longleftrightarrow> key_ok k"

lemma bucket_map_leaf: "leaf_bucket w b xs \<Longrightarrow> bucket_map b w = entry_map xs"
  by (auto simp: leaf_bucket_def bucket_map_def)

lemma leaf_bucket_inv: "leaf_bucket w b xs \<Longrightarrow> leaf_inv xs"
  by (auto simp: leaf_bucket_def)

interpretation leaf_store: kv_store "\<lambda>_. 1" "\<lambda>n w. has_room b n w \<and> edits b w0 w" bucket_op_ok "bucket_map b"
  "\<lambda>k. Bucket_put (Suc fuel) b (Item_string k)" "\<lambda>k. Bucket_remove (Suc fuel) b (Item_string k)"
  "\<lambda>k. Bucket_get (Suc fuel) b (Item_string k)" for w0 b fuel
proof (unfold_locales, goal_cases)
  case (1 n k v w)
  then obtain xs where xs: "leaf_bucket w b xs" "plain xs" "length xs + Suc n < 2 ^ 32" "edits b w0 w" by (auto simp: has_room_def)
  note inv = leaf_bucket_inv [OF xs(1)]
  obtain w' where "Bucket_put (Suc fuel) b (Item_string k) v w = Inr (0, w')" "leaf_bucket w' b (put_entry k 0 v xs)" "edits b w w'"
    using put_leaf [OF xs(1), of k v fuel] 1(2) xs(2,3) by (auto simp: plain_def)
  then show ?case
    using 1(2) xs length_edit(1) [OF inv, of k 0 v] plain_edit(1) [OF inv xs(2), of k v] entry_map_edit(1) [OF inv, of k v]
      edits_trans [OF xs(4)] by (auto simp: has_room_def bucket_map_leaf)
next
  case (2 n k w)
  then obtain xs where xs: "leaf_bucket w b xs" "plain xs" "length xs + Suc n < 2 ^ 32" "edits b w0 w" by (auto simp: has_room_def)
  note inv = leaf_bucket_inv [OF xs(1)]
  obtain w' where "Bucket_remove (Suc fuel) b (Item_string k) w = Inr (0, w')" "leaf_bucket w' b (del_entry k xs)" "edits b w w'"
    using remove_leaf [OF xs(1), of k fuel] 2(2) xs(2,3) by auto
  then show ?case
    using xs length_edit(2) [OF inv, of k] plain_edit(2) [OF inv xs(2), of k] entry_map_edit(2) [OF inv, of k]
      edits_trans [OF xs(4)] by (auto simp: has_room_def bucket_map_leaf)
next
  case (3 n w k)
  then obtain xs where xs: "leaf_bucket w b xs" "plain xs" "length xs + n < 2 ^ 32" "edits b w0 w" by (auto simp: has_room_def)
  show ?case
    using get_leaf(1) [OF xs(1) _ 3(2) xs(2), of fuel] get_leaf(2) [OF xs(1) _ 3(2) xs(2)] xs edits_trans [OF xs(4) edits_count [of b w b]]
    by (auto simp: has_room_def bucket_map_leaf)
qed

section \<open>Properties\<close>

text \<open>A sequence of calls of \<open>Bucket::put\<close> and \<open>Bucket::remove\<close> that stops at the first error.\<close>

fun bucket_run :: "nat \<Rightarrow> bucket_ptr \<Rightarrow> item map_op list \<Rightarrow> int act" where
  "bucket_run fuel b [] = ret 0"
| "bucket_run fuel b (Put k v # ops) =
     bnd (Bucket_put fuel b (Item_string k) v) (\<lambda>rc. if rc \<noteq> 0 then ret rc else bucket_run fuel b ops)"
| "bucket_run fuel b (Del k # ops) =
     bnd (Bucket_remove fuel b (Item_string k)) (\<lambda>rc. if rc \<noteq> 0 then ret rc else bucket_run fuel b ops)"

lemma bucket_run_eq: "bucket_run (Suc fuel) b ops = leaf_store.run fuel b ops"
proof (induction ops)
  case (Cons a ops)
  then show ?case by (cases a) (simp_all cong: if_cong)
qed simp

text \<open>
  C4: A bucket of one leaf is a map. Whether the leaf is a cached node, a page of its own or inline in the
  parent's page, every sequence of \<open>put\<close> and \<open>remove\<close> calls with valid keys and values succeeds, and
  \<open>get\<close> afterwards finds under every key what the same updates and deletions make of the map the
  bucket held before.
\<close>

theorem bucket_ops_refine_map:
  assumes "leaf_bucket w b xs" and "plain xs" and "length xs + length ops < 2 ^ 32"
    and "\<forall>a \<in> set ops. bucket_op_ok a" and "key_ok k"
  shows "\<exists>w' w''. bucket_run (Suc fuel) b ops w = Inr (0, w') \<and>
    Bucket_get (Suc fuel) b (Item_string k) w' =
      Inr (case fold apply_op ops (entry_map xs) k of None \<Rightarrow> Item_default | Some v \<Rightarrow> v, w'')"
proof -
  have "has_room b (sum_list (map (\<lambda>_. 1) ops)) w \<and> edits b w w"
    using assms(1-3) by (auto simp: has_room_def sum_list_triv)
  from leaf_store.run_get [OF this assms(4,5), of fuel] show ?thesis
    by (simp add: bucket_run_eq bucket_map_leaf [OF assms(1)])
qed

definition world_leaf :: world where
  "world_leaf = world_tree\<lparr>bucketHeap := [BucketPtr 9 \<mapsto> bucket_example\<lparr>bucketHeader := \<lparr>bh_root = 4, bh_sequence = 0\<rparr>\<rparr>]\<rparr>"

lemma world_leaf_bucket: "leaf_bucket world_leaf (BucketPtr 9) [inode_example [1] [11] 0 0, inode_example [3] [33] 0 0]"
proof (rule leaf_bucketI)
  let ?x = "bucket_example\<lparr>bucketHeader := \<lparr>bh_root = 4, bh_sequence = 0\<rparr>\<rparr>"
  show "holds_root world_leaf (BucketPtr 9) ?x (NodePtr 11) [inode_example [1] [11] 0 0, inode_example [3] [33] 0 0]"
    by (simp add: holds_root_def world_leaf_def root_cached_def bucket_example_def world_tree_def Node_new_def)
  show "in_write_tx world_leaf (bucket_tx ?x) 4"
    by (simp add: in_write_tx_def world_leaf_def bucket_example_def world_tree_bucket tx_example_def init_meta_of_def del: One_nat_def)
qed (simp add: leaf_inv_def inode_example_def)

theorem bucket_ops_refine_map_witness:
  "\<exists>w' w''. bucket_run 1 (BucketPtr 9) [Put [2] (Item_string [22]), Del [3], Put [1] (Item_string [12])] world_leaf = Inr (0, w') \<and>
     Bucket_get 1 (BucketPtr 9) (Item_string [2]) w' = Inr (Item_string [22], w'')"
proof -
  have "plain [inode_example [1] [11] 0 0, inode_example [3] [33] 0 0]" by (simp add: plain_def inode_example_def)
  from bucket_ops_refine_map [OF world_leaf_bucket this,
      of "[Put [2] (Item_string [22]), Del [3], Put [1] (Item_string [12])]" "[2]" 0]
  show ?thesis by (simp add: key_ok_def MAXVALUESIZE_def)
qed

end
