(* ===== verification/Stored_Pages.thy ===== *)
theory Stored_Pages
  imports Commit_Safety Bucket_Edit Free_List_Machine
begin

unbundle bit_operations_syntax

text \<open>
  Pages in the file. What is read from a page does not depend on the bytes behind it, so a page that was
  written to its place in the file reads the same through the mapping as from its buffer; and the loop that
  writes the dirty pages puts each of them in its place.
\<close>

section \<open>Reading a page inside a larger buffer\<close>

definition stable :: "(buffer \<Rightarrow> 'a result) \<Rightarrow> bool" where
  "stable f \<longleftrightarrow> (\<forall>p z x. f p = Inr x \<longrightarrow> f (p @ z) = Inr x)"

named_theorems stable_intro \<open>readers that ignore what follows the page\<close>

lemma stableD: "stable f \<Longrightarrow> f p = Inr x \<Longrightarrow> f (p @ z) = Inr x"
  by (simp add: stable_def)

lemma stable_basic [stable_intro]:
  "stable (\<lambda>p. r)" "stable (\<lambda>p. read_bytes p off n)"
  "stable f \<Longrightarrow> (\<And>x. stable (g x)) \<Longrightarrow> stable (\<lambda>p. and_then (f p) (\<lambda>x. g x p))"
  "stable f \<Longrightarrow> stable h \<Longrightarrow> stable (\<lambda>p. if c then f p else h p)"
  by (auto simp: stable_def read_bytes_def and_then_Inr_iff split: if_splits)

lemma stable_case_prod [stable_intro]: "(\<And>a b. stable (f a b)) \<Longrightarrow> stable (\<lambda>p. case q of (a, b) \<Rightarrow> f a b p)"
  by (cases q) simp

lemma stable_get [stable_intro]:
  "stable (\<lambda>p. get_u16 p off)" "stable (\<lambda>p. get_u32 p off)" "stable (\<lambda>p. get_u64 p off)"
  by (auto simp: stable_def get_defs read_bytes_def)

lemma stable_header [stable_intro]: "stable page_id" "stable page_flag" "stable page_count" "stable page_overflow"
  using stable_get by (simp_all add: stable_def header_defs)

lemma stable_leaf [stable_intro]:
  "stable (\<lambda>p. getLeafPageElement p i)" "stable (\<lambda>p. Item_buf p off len)"
  unfolding getLeafPageElement_def Item_buf_def Let_def by (intro stable_intro)+

lemma stable_read_inode [stable_intro]: "stable (\<lambda>p. read_inode p True i it)"
  unfolding read_inode_def leafPageElement_key_def leafPageElement_value_def leafPageElement_read_def
  by (simp, intro stable_intro)

lemma stable_read_inodes [stable_intro]: "stable (\<lambda>p. read_inodes p True i its)"
  by (induction its arbitrary: i) (simp_all, (intro stable_intro | assumption)+)

lemma stable_read_ids [stable_intro]: "stable (\<lambda>p. read_ids p off n)"
  by (induction n arbitrary: off) (simp_all, (intro stable_intro | assumption)+)

lemma stable_freeList_read: "stable (\<lambda>p. freeList_read p f)"
  unfolding freeList_read_def by (intro stable_intro)

lemma page_inodes_append: "page_inodes p = Inr (True, xs) \<Longrightarrow> page_inodes (p @ z) = Inr (True, xs)"
proof -
  assume "page_inodes p = Inr (True, xs)"
  then obtain fl cnt where "page_flag p = Inr fl" "page_count p = Inr cnt" "fl AND (branchPageFlag OR leafPageFlag) \<noteq> 0"
      "fl AND leafPageFlag \<noteq> 0" "read_inodes p True 0 (replicate (unat cnt) Inode_default) = Inr xs"
    by (auto simp: page_inodes_def result_iffs Let_def)
  then show ?thesis
    using stableD [OF stable_header(2), of p fl z] stableD [OF stable_header(3), of p cnt z]
      stableD [OF stable_read_inodes, of p 0 "replicate (unat cnt) Inode_default" xs z]
    by (simp add: page_inodes_def Let_def check_def)
qed

section \<open>Bytes at a place in the file\<close>

definition stored :: "buffer \<Rightarrow> nat \<Rightarrow> buffer \<Rightarrow> bool" where
  "stored d off bs \<longleftrightarrow> (\<exists>z. drop off d = bs @ z) \<and> off + length bs \<le> length d"

lemma stored_nth: "stored d off bs \<longleftrightarrow> off + length bs \<le> length d \<and> (\<forall>j < length bs. d ! (off + j) = bs ! j)"
proof -
  have "(\<exists>z. drop off d = bs @ z) \<longleftrightarrow> take (length bs) (drop off d) = bs"
    by (metis append_eq_conv_conj append_take_drop_id)
  also have "\<dots> \<longleftrightarrow> (\<forall>j < length bs. d ! (off + j) = bs ! j)" if "off + length bs \<le> length d"
    using that by (auto simp: list_eq_iff_nth_eq)
  finally show ?thesis by (auto simp: stored_def)
qed

lemma stored_write: "stored (file_write bs off d) off bs" if "bs \<noteq> []"
  using that by (auto simp: stored_def file_write_def)

lemma stored_keeps:
  assumes "stored d off bs" and "keeps_bytes J d d'" and "{off..<off + length bs} \<subseteq> J" and "bs \<noteq> []"
  shows "stored d' off bs"
proof -
  have k: "off + j < length d' \<and> d' ! (off + j) = d ! (off + j)" if "j < length bs" for j
    using assms that by (auto simp: stored_nth keeps_bytes_def subset_iff)
  from k [of "length bs - 1"] assms(4) have "off + length bs \<le> length d'" by (cases bs) auto
  then show ?thesis using assms(1) k by (auto simp: stored_nth)
qed

lemma stored_other:
  assumes "stored d off bs" and "{off..<off + length bs} \<inter> {o'..<o' + length cs} = {}" and "bs \<noteq> []"
  shows "stored (file_write cs o' d) off bs"
proof (rule stored_keeps [OF assms(1) _ order_refl assms(3)])
  show "keeps_bytes {off..<off + length bs} d (file_write cs o' d)"
    by (rule file_write_keeps) (use assms(2) in \<open>auto simp: disjoint_iff\<close>)
qed

section \<open>Writing the dirty pages\<close>

text \<open>A buffer that holds the pages from \<open>pid\<close> on, with \<open>b\<close> as its content.\<close>

definition dirty_page :: "world \<Rightarrow> page_ptr \<Rightarrow> pgid \<Rightarrow> buffer \<Rightarrow> bool" where
  "dirty_page w p pid b \<longleftrightarrow> (\<exists>a ov. p = HeapPage a \<and> pageHeap w a = Some b \<and> page_id b = Inr pid \<and> page_overflow b = Inr ov \<and>
     length b = Suc (unat ov) * 4096 \<and> (unat pid + Suc (unat ov)) * 4096 < 2 ^ 31)"

abbreviation byte_range :: "pgid \<Rightarrow> buffer \<Rightarrow> nat set" where
  "byte_range pid b \<equiv> {unat pid * 4096..<unat pid * 4096 + length b}"

text \<open>Writes below \<open>L\<close> do not make a file longer than \<open>L\<close>.\<close>

abbreviation stays_below :: "world \<Rightarrow> page_ptr set \<Rightarrow> (page_ptr \<Rightarrow> pgid) \<Rightarrow> (page_ptr \<Rightarrow> buffer) \<Rightarrow> buffer \<Rightarrow> bool" where
  "stays_below w ps pid bytes d \<equiv>
     \<forall>L. length (disk w) \<le> L \<and> (\<forall>p \<in> ps. unat (pid p) * 4096 + length (bytes p) \<le> L) \<longrightarrow> length d \<le> L"

lemma file_write_below: "length f \<le> L \<Longrightarrow> off + length bs \<le> L \<Longrightarrow> length (file_write bs off f) \<le> L"
  by (auto simp: file_write_def)

lemma write_pages_step:
  assumes "dirty_page w p pid b" and "env_ok (env w)" and "pageSize w = 4096"
  shows "write_pages (p # ps) w =
    write_pages ps (w\<lparr>clock := Suc (clock w), disk := file_write b (unat pid * 4096) (disk w)\<rparr>)"
proof -
  obtain a ov where p: "p = HeapPage a" "pageHeap w a = Some b" "page_id b = Inr pid" "page_overflow b = Inr ov"
      "length b = Suc (unat ov) * 4096" "(unat pid + Suc (unat ov)) * 4096 < 2 ^ 31" using assms(1) by (auto simp: dirty_page_def)
  have len: "unat ((ov + 1) * 4096) = length b" using p(5,6) by (simp add: unat_word_ariths)
  have off: "unat (pid * 4096) = unat pid * 4096" using p(6) by (simp add: unat_word_ariths)
  have "read_bytes b 0 (length b) = Inr b" by (simp add: read_bytes_def)
  then show ?thesis
    using p(1-4) assms(2,3) len off by (simp add: act_simps Let_def)
qed

lemma write_pages_ok:
  assumes "\<forall>p \<in> set ps. dirty_page w p (pid p) (bytes p)" and "env_ok (env w)" and "pageSize w = 4096" and "distinct ps"
    and "\<forall>p \<in> set ps. \<forall>q \<in> set ps. p \<noteq> q \<longrightarrow> byte_range (pid p) (bytes p) \<inter> byte_range (pid q) (bytes q) = {}"
  shows "\<exists>c d. write_pages ps w = Inr (True, w\<lparr>clock := c, disk := d\<rparr>) \<and>
    (\<forall>p \<in> set ps. stored d (unat (pid p) * 4096) (bytes p)) \<and>
    (\<forall>off bs. bs \<noteq> [] \<and> stored (disk w) off bs \<and> (\<forall>p \<in> set ps. {off..<off + length bs} \<inter> byte_range (pid p) (bytes p) = {})
       \<longrightarrow> stored d off bs) \<and> stays_below w (set ps) pid bytes d"
  using assms
proof (induction ps arbitrary: w)
  case Nil
  then show ?case by (intro exI [of _ "clock w"] exI [of _ "disk w"]) (simp add: act_simps)
next
  case (Cons p ps)
  let ?off = "unat (pid p) * 4096"
  let ?w = "w\<lparr>clock := Suc (clock w), disk := file_write (bytes p) ?off (disk w)\<rparr>"
  have "\<forall>q \<in> set ps. dirty_page ?w q (pid q) (bytes q)" using Cons.prems(1) by (simp add: dirty_page_def)
  with Cons.IH [of ?w] Cons.prems obtain c d where d: "write_pages ps ?w = Inr (True, ?w\<lparr>clock := c, disk := d\<rparr>)"
      "\<forall>q \<in> set ps. stored d (unat (pid q) * 4096) (bytes q)"
      "\<And>off bs. bs \<noteq> [] \<Longrightarrow> stored (disk ?w) off bs \<Longrightarrow>
         (\<forall>q \<in> set ps. {off..<off + length bs} \<inter> byte_range (pid q) (bytes q) = {}) \<Longrightarrow> stored d off bs"
      "stays_below ?w (set ps) pid bytes d"
    by auto
  have ne: "bytes p \<noteq> []" using Cons.prems(1) by (auto simp: dirty_page_def)
  have "\<forall>q \<in> set ps. byte_range (pid p) (bytes p) \<inter> byte_range (pid q) (bytes q) = {}"
  proof
    fix q
    assume "q \<in> set ps"
    moreover from this have "p \<noteq> q" using Cons.prems(4) by auto
    ultimately show "byte_range (pid p) (bytes p) \<inter> byte_range (pid q) (bytes q) = {}" using Cons.prems(5) by simp
  qed
  then have "stored d ?off (bytes p)" using d(3) [OF ne, of ?off] stored_write [OF ne] by simp
  moreover have "stored d off bs" if "bs \<noteq> []" "stored (disk w) off bs"
      "\<forall>q \<in> set (p # ps). {off..<off + length bs} \<inter> byte_range (pid q) (bytes q) = {}" for off bs
    by (rule d(3)) (use that stored_other [OF that(2) _ that(1)] in auto)
  moreover have "write_pages (p # ps) w = Inr (True, w\<lparr>clock := c, disk := d\<rparr>)"
    using write_pages_step [of w p "pid p" "bytes p" ps] Cons.prems(1-3) d(1) by simp
  moreover have "stays_below w (set (p # ps)) pid bytes d" using d(4) file_write_below by simp
  ultimately show ?case using d(2) by (intro exI [of _ c] exI [of _ d]) auto
qed

text \<open>A normal form for the updates that writing makes to the state.\<close>

lemma world_order:
  "w\<lparr>disk := d, clock := c\<rparr> = w\<lparr>clock := c, disk := d\<rparr>" "w\<lparr>filesz := f, clock := c\<rparr> = w\<lparr>clock := c, filesz := f\<rparr>"
  "w\<lparr>filesz := f, disk := d\<rparr> = w\<lparr>disk := d, filesz := f\<rparr>" "w\<lparr>txHeap := h, clock := c\<rparr> = w\<lparr>clock := c, txHeap := h\<rparr>"
  "w\<lparr>txHeap := h, disk := d\<rparr> = w\<lparr>disk := d, txHeap := h\<rparr>" "w\<lparr>txHeap := h, filesz := f\<rparr> = w\<lparr>filesz := f, txHeap := h\<rparr>"
  for w :: world
  by (cases w; simp)+

lemma Tx_write_ok:
  assumes "txHeap w t = Some x" and "env_ok (env w)" and "pageSize w = 4096" and "distinct (map snd (dirtyPageTable x))"
    and "\<forall>p \<in> set (map snd (dirtyPageTable x)). dirty_page w p (pid p) (bytes p)"
    and "\<forall>p \<in> set (map snd (dirtyPageTable x)). \<forall>q \<in> set (map snd (dirtyPageTable x)). p \<noteq> q \<longrightarrow>
      byte_range (pid p) (bytes p) \<inter> byte_range (pid q) (bytes q) = {}"
  shows "\<exists>c d. Tx_write t w = Inr (0, w\<lparr>clock := c, disk := d, txHeap := (txHeap w)(t \<mapsto> x\<lparr>dirtyPageTable := []\<rparr>)\<rparr>) \<and>
    (\<forall>p \<in> set (map snd (dirtyPageTable x)). stored d (unat (pid p) * 4096) (bytes p)) \<and>
    (\<forall>off bs. bs \<noteq> [] \<and> stored (disk w) off bs \<and>
       (\<forall>p \<in> set (map snd (dirtyPageTable x)). {off..<off + length bs} \<inter> byte_range (pid p) (bytes p) = {}) \<longrightarrow> stored d off bs) \<and>
    stays_below w (set (map snd (dirtyPageTable x))) pid bytes d"
proof -
  let ?ps = "sort_key (page_order w) (map snd (dirtyPageTable x))"
  let ?w = "w\<lparr>txHeap := (txHeap w)(t \<mapsto> x\<lparr>dirtyPageTable := []\<rparr>)\<rparr>"
  have "\<forall>p \<in> set ?ps. dirty_page ?w p (pid p) (bytes p)" using assms(5) by (simp add: dirty_page_def)
  from write_pages_ok [OF this, of] obtain c d where d: "write_pages ?ps ?w = Inr (True, ?w\<lparr>clock := c, disk := d\<rparr>)"
      "\<forall>p \<in> set ?ps. stored d (unat (pid p) * 4096) (bytes p)"
      "\<forall>off bs. bs \<noteq> [] \<and> stored (disk ?w) off bs \<and> (\<forall>p \<in> set ?ps. {off..<off + length bs} \<inter> byte_range (pid p) (bytes p) = {})
       \<longrightarrow> stored d off bs" "stays_below ?w (set ?ps) pid bytes d"
    using assms(2-4,6) by auto
  have "\<exists>c. Tx_write t w = Inr (0, w\<lparr>clock := c, disk := d, txHeap := (txHeap w)(t \<mapsto> x\<lparr>dirtyPageTable := []\<rparr>)\<rparr>)"
    using assms(1,2) d(1) by (auto simp: Tx_write_def act_simps upd_tx_def world_order)
  then show ?thesis using d(2-4) by auto
qed

lemma Tx_writeMeta_ok:
  assumes "txHeap w t = Some x" and "metaData x = Some m" and "env_ok (env w)"
    and "bh_root (meta_root m) < totalPageNumber m" and "freeListPageNumber m < totalPageNumber m"
  shows "\<exists>c b. Tx_writeMeta t w = Inr (0, w\<lparr>clock := c, disk := file_write b (unat (meta_txid m mod 2) * 4096) (disk w),
      txHeap := (txHeap w)(t \<mapsto> x\<lparr>metaData := Some (m\<lparr>checksum := 0\<rparr>)\<rparr>)\<rparr>) \<and>
    length b = 4096 \<and> read_meta b = Inr (m\<lparr>checksum := 0\<rparr>)"
proof -
  let ?p = "meta_txid m mod 2" and ?x = "x\<lparr>metaData := Some (m\<lparr>checksum := 0\<rparr>)\<rparr>"
  obtain b where b: "meta_write m (replicate 4096 0) = Inr (m\<lparr>checksum := 0\<rparr>, b)" "length b = 4096"
      "read_meta b = Inr (m\<lparr>checksum := 0\<rparr>)" "page_id b = Inr ?p"
    using meta_write_spec [OF assms(4,5), of "replicate 4096 0"] by auto
  have "unat ?p < 2" by (simp add: unat_mod)
  then have off: "unat (?p * 4096) = unat ?p * 4096" by (simp add: unat_word_ariths)
  have "\<exists>c. Tx_writeMeta t w = Inr (0, w\<lparr>clock := c, disk := file_write b (unat ?p * 4096) (disk w), txHeap := (txHeap w)(t \<mapsto> ?x)\<rparr>)"
    using assms(1-3) b off by (auto simp: Tx_writeMeta_def act_simps tx_meta_def upd_meta_def upd_tx_def world_order)
  then show ?thesis using b by blast
qed

lemma DB_grow_ok:
  assumes "env_ok (env w)" and "(unat k + 1) * 4096 \<le> nat (datasz w)" and "datasz w < 2 ^ 31" and "0 \<le> AllocSize w" and "AllocSize w < 2 ^ 31"
  shows "\<exists>c d f. DB_grow (ucast ((k + 1) * 4096)) w = Inr (0, w\<lparr>clock := c, disk := d, filesz := f\<rparr>) \<and>
    keeps_bytes (used_bytes {} k 4096) (disk w) d \<and> (datasz w \<le> AllocSize w \<longrightarrow> length (disk w) \<le> nat (datasz w) \<longrightarrow> length d \<le> nat (datasz w))"
proof -
  have len: "(unat k + 1) * unat (4096 :: u32) < 2 ^ 31" using assms(2,3) by simp
  have "unat k * 4096 \<le> nat (datasz w)" using assms(2) by simp
  then have le: "int (unat k * unat (4096 :: u32)) \<le> datasz w" using le_nat_iff [of "datasz w" "unat k * 4096"] assms(2) by simp
  have "\<exists>w'. DB_grow (ucast ((k + 1) * 4096)) w = Inr (0, w') \<and> w' = w\<lparr>clock := clock w', disk := disk w', filesz := filesz w'\<rparr>"
    using assms(1) by (simp add: DB_grow_def act_simps Let_def world_order)
  then obtain c d f where g: "DB_grow (ucast ((k + 1) * 4096)) w = Inr (0, w\<lparr>clock := c, disk := d, filesz := f\<rparr>)" by metis
  then have "DB_grow (ucast ((k + 1) * ucast (4096 :: u32))) w = Inr (0, w\<lparr>clock := c, disk := d, filesz := f\<rparr>)" by simp
  from DB_grow_keeps [OF this len order_refl le _ assms(4,5)] assms(3) have k: "keeps_bytes (used_bytes {} k 4096) (disk w) d" by auto
  have "unat (word_of_int (datasz w) :: u32) = nat (datasz w)" using unat_word_of_int [of "datasz w"] assms(2,3) by simp
  then have "length d \<le> nat (datasz w)" if "datasz w \<le> AllocSize w" "length (disk w) \<le> nat (datasz w)"
    using g that by (auto simp: DB_grow_def act_simps syscall_def and_then_Inr_iff Let_def truncate_disk_def dest!: arg_cong [of _ _ disk] split: if_splits)
  then show ?thesis using k g by blast
qed

lemma commit_grow_ok:
  assumes "env_ok (env w)" and "(unat k + 1) * 4096 \<le> nat (datasz w)" and "datasz w < 2 ^ 31" and "0 \<le> AllocSize w" and "AllocSize w < 2 ^ 31"
  shows "\<exists>c d f. (if pageId < k then DB_grow (ucast ((k + 1) * 4096)) else ret 0) w = Inr (0, w\<lparr>clock := c, disk := d, filesz := f\<rparr>) \<and>
    keeps_bytes (used_bytes {} k 4096) (disk w) d \<and> (datasz w \<le> AllocSize w \<longrightarrow> length (disk w) \<le> nat (datasz w) \<longrightarrow> length d \<le> nat (datasz w))"
proof (cases "pageId < k")
  case True
  then show ?thesis using DB_grow_ok [OF assms] by simp
next
  case False
  then show ?thesis by (intro exI [of _ "clock w"] exI [of _ "disk w"] exI [of _ "filesz w"]) (simp add: act_simps)
qed

section \<open>The second half of a commit\<close>

text \<open>
  The transaction has the meta \<open>m\<close> and dirty pages with the ids \<open>pid\<close> and the contents \<open>bytes\<close>, which do not overlap
  and lie behind the meta pages and below the page count; the mapping covers the database.
\<close>

definition ready_to_write :: "world \<Rightarrow> tx_ptr \<Rightarrow> tx \<Rightarrow> meta \<Rightarrow> (page_ptr \<Rightarrow> pgid) \<Rightarrow> (page_ptr \<Rightarrow> buffer) \<Rightarrow> bool" where
  "ready_to_write w t x m pid bytes \<longleftrightarrow> txHeap w t = Some x \<and> metaData x = Some m \<and> env_ok (env w) \<and> pageSize w = 4096 \<and>
     (unat (totalPageNumber m) + 1) * 4096 \<le> nat (datasz w) \<and> datasz w < 2 ^ 31 \<and> 0 \<le> AllocSize w \<and> AllocSize w < 2 ^ 31 \<and>
     bh_root (meta_root m) < totalPageNumber m \<and> freeListPageNumber m < totalPageNumber m \<and> 2 \<le> totalPageNumber m \<and>
     8192 \<le> length (disk w) \<and> distinct (map snd (dirtyPageTable x)) \<and>
     (\<forall>p \<in> set (map snd (dirtyPageTable x)). dirty_page w p (pid p) (bytes p) \<and> 2 \<le> pid p) \<and>
     (\<forall>p \<in> set (map snd (dirtyPageTable x)). \<forall>q \<in> set (map snd (dirtyPageTable x)). p \<noteq> q \<longrightarrow>
        byte_range (pid p) (bytes p) \<inter> byte_range (pid q) (bytes q) = {})"

lemma region_used: "off + n \<le> unat T * 4096 \<Longrightarrow> {off..<off + n} \<subseteq> used_bytes {} T 4096"
  by (auto simp: used_bytes_def div_less_iff_less_mult)

lemma commit_write_ok:
  assumes "ready_to_write w t x m pid bytes"
  defines "D \<equiv> set (map snd (dirtyPageTable x))"
  shows "\<exists>c d f. commit_write [] t pageId w = Inr (0, w\<lparr>clock := c, disk := d, filesz := f,
      txHeap := (txHeap w)(t \<mapsto> x\<lparr>dirtyPageTable := [], metaData := Some (m\<lparr>checksum := 0\<rparr>)\<rparr>)\<rparr>) \<and>
    (\<forall>p \<in> D. stored d (unat (pid p) * 4096) (bytes p)) \<and>
    (\<exists>b d'. d = file_write b (unat (meta_txid m mod 2) * 4096) d' \<and> length b = 4096 \<and> read_meta b = Inr (m\<lparr>checksum := 0\<rparr>) \<and>
       8192 \<le> length d' \<and> take 8192 d' = take 8192 (disk w)) \<and>
    (\<forall>off bs. bs \<noteq> [] \<and> stored (disk w) off bs \<and> 8192 \<le> off \<and> off + length bs \<le> unat (totalPageNumber m) * 4096 \<and>
       (\<forall>p \<in> D. {off..<off + length bs} \<inter> byte_range (pid p) (bytes p) = {}) \<longrightarrow> stored d off bs) \<and>
    (datasz w \<le> AllocSize w \<and> length (disk w) \<le> nat (datasz w) \<and> (\<forall>p \<in> D. unat (pid p) * 4096 + length (bytes p) \<le> nat (datasz w)) \<longrightarrow>
       length d \<le> nat (datasz w))"
proof -
  let ?D = D and ?T = "totalPageNumber m"
  have a: "txHeap w t = Some x" "metaData x = Some m" "env_ok (env w)" "pageSize w = 4096" "(unat ?T + 1) * 4096 \<le> nat (datasz w)"
      "datasz w < 2 ^ 31" "0 \<le> AllocSize w" "AllocSize w < 2 ^ 31" "bh_root (meta_root m) < ?T" "freeListPageNumber m < ?T" "2 \<le> ?T"
      "8192 \<le> length (disk w)" "distinct (map snd (dirtyPageTable x))" "\<forall>p \<in> ?D. dirty_page w p (pid p) (bytes p) \<and> 2 \<le> pid p"
      "\<forall>p \<in> ?D. \<forall>q \<in> ?D. p \<noteq> q \<longrightarrow> byte_range (pid p) (bytes p) \<inter> byte_range (pid q) (bytes q) = {}"
    using assms(1) unfolding ready_to_write_def D_def by blast+
  obtain c1 d1 f1 where g: "(if pageId < ?T then DB_grow (ucast ((?T + 1) * 4096)) else ret 0) w = Inr (0, w\<lparr>clock := c1, disk := d1, filesz := f1\<rparr>)"
      "keeps_bytes (used_bytes {} ?T 4096) (disk w) d1"
      "datasz w \<le> AllocSize w \<longrightarrow> length (disk w) \<le> nat (datasz w) \<longrightarrow> length d1 \<le> nat (datasz w)"
    using commit_grow_ok [OF a(3,5-8), of pageId] by blast
  let ?w1 = "w\<lparr>clock := c1, disk := d1, filesz := f1\<rparr>"
  have pre1: "take 8192 d1 = take 8192 (disk w)" "8192 \<le> length d1" using meta_pages_keep [OF g(2) a(12) _ a(11)] by auto
  have "\<forall>p \<in> ?D. dirty_page ?w1 p (pid p) (bytes p)" using a(14) by (simp add: dirty_page_def)
  with Tx_write_ok [of ?w1 t x pid bytes] a(1,3,4,13,15) obtain c2 d2 where
    w2: "Tx_write t ?w1 = Inr (0, ?w1\<lparr>clock := c2, disk := d2, txHeap := (txHeap w)(t \<mapsto> x\<lparr>dirtyPageTable := []\<rparr>)\<rparr>)"
      "\<forall>p \<in> ?D. stored d2 (unat (pid p) * 4096) (bytes p)"
      "\<And>off bs. bs \<noteq> [] \<Longrightarrow> stored d1 off bs \<Longrightarrow> (\<forall>p \<in> ?D. {off..<off + length bs} \<inter> byte_range (pid p) (bytes p) = {}) \<Longrightarrow> stored d2 off bs"
      "stays_below ?w1 ?D pid bytes d2"
    unfolding D_def by auto
  have high: "8192 \<le> unat (pid p) * 4096" if "p \<in> ?D" for p
    using a(14) that by (auto simp: word_le_nat_alt)
  have "stored d2 0 (take 8192 d1)"
  proof (rule w2(3))
    show "stored d1 0 (take 8192 d1)" by (simp add: stored_nth)
    show "\<forall>p \<in> ?D. {0..<0 + length (take 8192 d1)} \<inter> byte_range (pid p) (bytes p) = {}"
      using high by (force simp: disjoint_iff)
  qed (use pre1(2) in auto)
  then have pre2: "take 8192 d2 = take 8192 (disk w)" "8192 \<le> length d2" using pre1 a(12) by (auto simp: stored_def)
  let ?w2 = "?w1\<lparr>clock := c2, disk := d2, txHeap := (txHeap w)(t \<mapsto> x\<lparr>dirtyPageTable := []\<rparr>)\<rparr>" and ?o = "unat (meta_txid m mod 2) * 4096"
  obtain c3 b where w3: "Tx_writeMeta t ?w2 = Inr (0, ?w2\<lparr>clock := c3, disk := file_write b ?o d2,
      txHeap := (txHeap w)(t \<mapsto> x\<lparr>dirtyPageTable := [], metaData := Some (m\<lparr>checksum := 0\<rparr>)\<rparr>)\<rparr>)"
      "length b = 4096" "read_meta b = Inr (m\<lparr>checksum := 0\<rparr>)"
    using Tx_writeMeta_ok [of ?w2 t "x\<lparr>dirtyPageTable := []\<rparr>" m] a(2,3,9,10) by auto
  have o: "?o + 4096 \<le> 8192" using unat_mod [of "meta_txid m" 2] by simp
  have keep: "stored (file_write b ?o d2) off bs" if "bs \<noteq> []" "stored d2 off bs" "8192 \<le> off" for off bs
    by (rule stored_other [OF that(2) _ that(1)]) (use o that(3) w3(2) in \<open>auto simp: disjoint_iff\<close>)
  have "stored (file_write b ?o d2) (unat (pid p) * 4096) (bytes p)" if "p \<in> ?D" for p
    by (rule keep [OF _ bspec [OF w2(2) that] high [OF that]]) (use a(14) that in \<open>auto simp: dirty_page_def\<close>)
  moreover have "stored (file_write b ?o d2) off bs" if "bs \<noteq> []" "stored (disk w) off bs" "8192 \<le> off"
      "off + length bs \<le> unat ?T * 4096" "\<forall>p \<in> ?D. {off..<off + length bs} \<inter> byte_range (pid p) (bytes p) = {}" for off bs
    using keep w2(3) stored_keeps [OF that(2) g(2) region_used [OF that(4)] that(1)] that by blast
  moreover have "commit_write [] t pageId w = Inr (0, w\<lparr>clock := c3, disk := file_write b ?o d2, filesz := f1,
      txHeap := (txHeap w)(t \<mapsto> x\<lparr>dirtyPageTable := [], metaData := Some (m\<lparr>checksum := 0\<rparr>)\<rparr>)\<rparr>)"
    using a(1,2,4) g(1) w2(1) w3(1) by (simp add: commit_write_def act_simps tx_meta_def world_order cong: if_cong)
  moreover have "8192 \<le> nat (datasz w)" using a(5,11) by (simp add: word_le_nat_alt)
  then have "length (file_write b ?o d2) \<le> nat (datasz w)" if "datasz w \<le> AllocSize w" "length (disk w) \<le> nat (datasz w)"
      "\<forall>p \<in> ?D. unat (pid p) * 4096 + length (bytes p) \<le> nat (datasz w)"
    using file_write_below [of d2 "nat (datasz w)" ?o b] w2(4) g(3) that o w3(2) by simp
  ultimately show ?thesis using w3(2,3) pre2 by blast
qed

end
