(* ===== verification/Node_Heap_Correct.thy ===== *)
theory Node_Heap_Correct
  imports Node_Heap Db_Correct
begin

text \<open>
  Splitting nodes: \<open>Node::split\<close> always ends, loses and reorders nothing, and its pieces are small
  enough for a page. Rebalancing: which cases of \<open>Node::rebalance\<close> can work at all.
\<close>

section \<open>Splitting a node in two\<close>

text \<open>No node lies at or behind the next address the allocator gives out.\<close>

definition fresh_nodes :: "world \<Rightarrow> bool" where
  "fresh_nodes w \<longleftrightarrow> (\<forall>a. nextPtr w \<le> a \<longrightarrow> nodeHeap w (NodePtr a) = None)"

lemma split_threshold_le: "unat (split_threshold ps fill) \<le> unat ps"
proof -
  define f where "f = (let f = (if fill < MINFILLPERCENT then MINFILLPERCENT else fill) in
    if MAXFILLPERCENT < f then MAXFILLPERCENT else f)"
  have f: "0 \<le> f" "f \<le> 1"
    by (auto simp: f_def Let_def MINFILLPERCENT_def MAXFILLPERCENT_def)
  let ?z = "floor (of_nat (unat ps) * f)"
  have "of_nat k * f \<le> (of_nat k :: rat)" for k using f by (simp add: mult_left_le)
  then have "?z \<le> int (unat ps)" by (metis floor_mono floor_of_nat)
  moreover have "0 \<le> of_nat k * f" for k using f by simp
  then have "0 \<le> ?z" by (simp only: zero_le_floor)
  then obtain k where k: "?z = int k" by (elim nonneg_int_cases)
  ultimately have "k \<le> unat ps" by (simp only: k of_nat_le_iff)
  moreover have "unat (word_of_int ?z :: u32) = k mod 2 ^ 32" unfolding k by (simp add: unat_of_nat)
  moreover have "k mod 2 ^ 32 \<le> k" by simp
  ultimately have "unat (word_of_int ?z :: u32) \<le> unat ps" by linarith
  then show ?thesis by (simp add: split_threshold_def f_def Let_def)
qed

lemma splitTwo_small:
  assumes "nodeHeap w n = Some x" and "length (inodeList x) \<le> 4 \<or> sizeLessThan x ps"
  shows "splitTwo ps n w = Inr ((n, None), w)"
  using assms by (auto simp: splitTwo_def act_simps MINKEYSPERPAGE_def)

text \<open>The node \<open>x\<close> at \<open>n\<close> keeps its first \<open>r\<close> inodes, the rest goes to a new node \<open>m\<close> below the same parent.\<close>

lemma splitTwo_big:
  assumes "nodeHeap w n = Some x" and "bucketHeap w (node_bucket x) = Some b" and "fresh_nodes w"
    and "4 < length (inodeList x)" and "\<not> sizeLessThan x ps" and "node_bytes x < 2 ^ 32"
    and "\<forall>p. parentNode x = Some p \<longrightarrow> nodeHeap w p \<noteq> None \<and> p \<noteq> n"
  obtains r p m w' where "splitTwo ps n w = Inr ((n, Some m), w')" and "2 \<le> r" and "r + 3 \<le> length (inodeList x)"
    and "r = 2 \<or> prefix_bytes x r \<le> unat ps"
    and "nodeHeap w' n = Some (x\<lparr>inodeList := take r (inodeList x), parentNode := Some p\<rparr>)"
    and "nodeHeap w' m = Some ((Node_new (node_bucket x) (Some p))\<lparr>isLeaf := isLeaf x, inodeList := drop r (inodeList x)\<rparr>)"
    and "nodeHeap w m = None" and "p \<noteq> n" and "p \<noteq> m" and "m \<noteq> n" and "nodeHeap w' p \<noteq> None"
    and "parentNode x = Some p \<or> parentNode x = None \<and> nodeHeap w p = None"
    and "\<And>q. q \<noteq> n \<Longrightarrow> q \<noteq> m \<Longrightarrow> q \<noteq> p \<Longrightarrow> nodeHeap w' q = nodeHeap w q"
    and "fresh_nodes w'" and "bucketHeap w' = bucketHeap w"
proof -
  let ?th = "split_threshold ps (fillPercent b)"
  from splitIndex_spec [OF assms(6,4), of ?th] obtain r where
    r: "splitIndex x ?th = Inr r" "2 \<le> r" "r + 3 \<le> length (inodeList x)" "r = 2 \<or> prefix_bytes x r \<le> unat ?th" by blast
  have le: "r = 2 \<or> prefix_bytes x r \<le> unat ps" using r(4) split_threshold_le [of ps "fillPercent b"] by linarith
  have nn: "n \<noteq> NodePtr a" if "nextPtr w \<le> a" for a using assms(1,3) that by (auto simp: fresh_nodes_def)
  let ?x = "\<lambda>p. x\<lparr>inodeList := take r (inodeList x), parentNode := Some p\<rparr>"
  let ?y = "\<lambda>p. (Node_new (node_bucket x) (Some p))\<lparr>isLeaf := isLeaf x, inodeList := drop r (inodeList x)\<rparr>"
  have fr: "nodeHeap w (NodePtr a) = None" if "nextPtr w \<le> a" for a using assms(3) that by (simp add: fresh_nodes_def)
  note defs = splitTwo_def act_simps MINKEYSPERPAGE_def split_parent_def new_node_def Let_def upd_node_def addChild_def Node_new_def
  show thesis
  proof (cases "parentNode x")
    case None
    let ?p = "NodePtr (nextPtr w)" and ?m = "NodePtr (Suc (nextPtr w))"
    have "n \<noteq> ?p" "n \<noteq> ?m" using nn by simp_all
    then obtain nh where nh: "splitTwo ps n w = Inr ((n, Some ?m), w\<lparr>nextPtr := Suc (Suc (nextPtr w)), nodeHeap := nh\<rparr>)"
      "nh n = Some (?x ?p)" "nh ?m = Some (?y ?p)" "nh ?p \<noteq> None" "\<And>q. q \<noteq> n \<Longrightarrow> q \<noteq> ?m \<Longrightarrow> q \<noteq> ?p \<Longrightarrow> nh q = nodeHeap w q"
      using assms(1,2,4,5) r(1) None by (simp add: defs)
    have "nh (NodePtr a) = None" if "Suc (Suc (nextPtr w)) \<le> a" for a
      using nh(5) [of "NodePtr a"] fr [of a] nn [of a] that by auto
    then have "fresh_nodes (w\<lparr>nextPtr := Suc (Suc (nextPtr w)), nodeHeap := nh\<rparr>)" by (simp add: fresh_nodes_def)
    then show thesis
      using that [OF nh(1) r(2,3) le, of ?p] nh(2-5) fr None \<open>n \<noteq> ?p\<close> \<open>n \<noteq> ?m\<close> by simp
  next
    case (Some p)
    then obtain px where px: "nodeHeap w p = Some px" "p \<noteq> n" using assms(7) by auto
    let ?m = "NodePtr (nextPtr w)"
    have ne: "n \<noteq> ?m" "p \<noteq> ?m" using nn px(1) fr [of "nextPtr w"] by auto
    then obtain nh where nh: "splitTwo ps n w = Inr ((n, Some ?m), w\<lparr>nextPtr := Suc (nextPtr w), nodeHeap := nh\<rparr>)"
      "nh n = Some (?x p)" "nh ?m = Some (?y p)" "nh p \<noteq> None" "\<And>q. q \<noteq> n \<Longrightarrow> q \<noteq> ?m \<Longrightarrow> q \<noteq> p \<Longrightarrow> nh q = nodeHeap w q"
      using assms(1,2,4,5) r(1) Some px by (simp add: defs)
    have "nh (NodePtr a) = None" if "Suc (nextPtr w) \<le> a" for a
      using nh(5) [of "NodePtr a"] fr [of a] nn [of a] px(1) that by (cases "p = NodePtr a") auto
    then have "fresh_nodes (w\<lparr>nextPtr := Suc (nextPtr w), nodeHeap := nh\<rparr>)" by (simp add: fresh_nodes_def)
    then show thesis
      using that [OF nh(1) r(2,3) le, of p] nh(2-5) fr Some ne px(2) by simp
  qed
qed

section \<open>Splitting a node\<close>

text \<open>
  What a piece of a split may look like: at most four inodes, or not larger than a page.
\<close>

definition piece_ok :: "u32 \<Rightarrow> node \<Rightarrow> bool" where
  "piece_ok ps y \<longleftrightarrow> length (inodeList y) \<le> 4 \<or> node_bytes y \<le> unat ps"

definition inodes_at :: "world \<Rightarrow> node_ptr \<Rightarrow> inode list" where
  "inodes_at w n = (case nodeHeap w n of None \<Rightarrow> [] | Some x \<Rightarrow> inodeList x)"

lemma inode_bytes_any: "inode_bytes n = inode_bytes m"
  by (rule ext) (simp add: inode_bytes_def)

lemma node_bytes_take:
  "node_bytes (x\<lparr>inodeList := take r (inodeList x), parentNode := p\<rparr>) = prefix_bytes x r"
  using inode_bytes_any [of x "x\<lparr>inodeList := take r (inodeList x), parentNode := p\<rparr>"]
  by (simp add: node_bytes_def prefix_bytes_def)

lemma node_bytes_drop:
  "node_bytes (y\<lparr>isLeaf := l, inodeList := drop r (inodeList x)\<rparr>) \<le> node_bytes x"
proof -
  have "sum_list (map f (drop r xs)) \<le> sum_list (map f xs)" for f :: "inode \<Rightarrow> nat" and xs
    by (metis append_take_drop_id le_add2 map_append sum_list_append)
  then show ?thesis
    using inode_bytes_any [of x "y\<lparr>isLeaf := l, inodeList := drop r (inodeList x)\<rparr>"] by (simp add: node_bytes_def)
qed

lemma small_piece_ok:
  assumes "length (inodeList x) \<le> 4 \<or> sizeLessThan x ps" and "node_bytes x < 2 ^ 32"
  shows "piece_ok ps x"
  using assms sizeLessThan_loop_eq [of "of_nat PAGEHEADERSIZE" x "inodeList x" ps]
  by (auto simp: piece_ok_def sizeLessThan_def node_bytes_def)

lemma split_loop_spec:
  assumes "nodeHeap w n = Some x" and "bucketHeap w (node_bucket x) = Some b" and "fresh_nodes w"
    and "node_bytes x < 2 ^ 32" and "\<forall>p. parentNode x = Some p \<longrightarrow> nodeHeap w p \<noteq> None \<and> p \<noteq> n"
    and "length (inodeList x) < fuel"
  shows "\<exists>ns w'. split_loop fuel ps n acc w = Inr (acc @ n # ns, w') \<and> distinct (n # ns) \<and>
    concat (map (inodes_at w') (n # ns)) = inodeList x \<and>
    (\<forall>m \<in> set (n # ns). \<exists>y. nodeHeap w' m = Some y \<and> isLeaf y = isLeaf x \<and> node_bucket y = node_bucket x \<and> piece_ok ps y) \<and>
    (\<forall>m \<in> set ns. nodeHeap w m = None) \<and>
    (\<forall>q. q \<noteq> n \<and> parentNode x \<noteq> Some q \<and> nodeHeap w q \<noteq> None \<longrightarrow> nodeHeap w' q = nodeHeap w q) \<and>
    (\<forall>p. parentNode x = Some p \<longrightarrow> (\<forall>m \<in> set (n # ns). map_option parentNode (nodeHeap w' m) = Some (Some p))) \<and>
    (ns \<noteq> [] \<longrightarrow> (\<exists>p. \<forall>m \<in> set (n # ns). map_option parentNode (nodeHeap w' m) = Some (Some p))) \<and>
    (2 \<le> length (inodeList x) \<longrightarrow> (\<forall>m \<in> set (n # ns). 2 \<le> length (inodes_at w' m)))"
  using assms
proof (induction fuel arbitrary: w n x acc)
  case 0
  then show ?case by simp
next
  case (Suc fuel)
  show ?case
  proof (cases "length (inodeList x) \<le> 4 \<or> sizeLessThan x ps")
    case True
    then show ?thesis using splitTwo_small [OF Suc.prems(1) True] small_piece_ok [OF True Suc.prems(4)] Suc.prems(1)
      by (auto simp: act_simps inodes_at_def)
  next
    case False
    then have big: "4 < length (inodeList x)" "\<not> sizeLessThan x ps" by auto
    obtain r p m w1 where
      s: "splitTwo ps n w = Inr ((n, Some m), w1)" "2 \<le> r" "r + 3 \<le> length (inodeList x)" "r = 2 \<or> prefix_bytes x r \<le> unat ps"
        "nodeHeap w1 n = Some (x\<lparr>inodeList := take r (inodeList x), parentNode := Some p\<rparr>)"
      and m: "nodeHeap w1 m = Some ((Node_new (node_bucket x) (Some p))\<lparr>isLeaf := isLeaf x, inodeList := drop r (inodeList x)\<rparr>)"
        "nodeHeap w m = None" "p \<noteq> n" "p \<noteq> m" "m \<noteq> n" "nodeHeap w1 p \<noteq> None"
        "parentNode x = Some p \<or> parentNode x = None \<and> nodeHeap w p = None"
        "\<And>q. q \<noteq> n \<Longrightarrow> q \<noteq> m \<Longrightarrow> q \<noteq> p \<Longrightarrow> nodeHeap w1 q = nodeHeap w q" "fresh_nodes w1" "bucketHeap w1 = bucketHeap w"
      by (rule splitTwo_big [OF Suc.prems(1-3) big Suc.prems(4,5)]) (rule that)
    let ?y = "(Node_new (node_bucket x) (Some p))\<lparr>isLeaf := isLeaf x, inodeList := drop r (inodeList x)\<rparr>"
    have y: "bucketHeap w1 (node_bucket ?y) = Some b" "node_bytes ?y < 2 ^ 32" "length (inodeList ?y) < fuel"
      "\<forall>q. parentNode ?y = Some q \<longrightarrow> nodeHeap w1 q \<noteq> None \<and> q \<noteq> m"
      using Suc.prems(2,4,6) s(2,3) m node_bytes_drop [where y = "Node_new (node_bucket x) (Some p)" and l = "isLeaf x" and r = r and x = x]
      by (auto simp: Node_new_def)
    have ly: "isLeaf ?y = isLeaf x" "node_bucket ?y = node_bucket x" "parentNode ?y = Some p" "inodeList ?y = drop r (inodeList x)"
      "2 \<le> length (inodeList ?y)" using s(2,3) by (simp_all add: Node_new_def)
    obtain ns w' where i: "split_loop fuel ps m (acc @ [n]) w1 = Inr ((acc @ [n]) @ m # ns, w')" "distinct (m # ns)"
        "concat (map (inodes_at w') (m # ns)) = inodeList ?y"
        "\<forall>k \<in> set (m # ns). \<exists>z. nodeHeap w' k = Some z \<and> isLeaf z = isLeaf ?y \<and> node_bucket z = node_bucket ?y \<and> piece_ok ps z"
        "\<forall>k \<in> set ns. nodeHeap w1 k = None"
        "\<forall>q. q \<noteq> m \<and> parentNode ?y \<noteq> Some q \<and> nodeHeap w1 q \<noteq> None \<longrightarrow> nodeHeap w' q = nodeHeap w1 q"
        "\<forall>p. parentNode ?y = Some p \<longrightarrow> (\<forall>k \<in> set (m # ns). map_option parentNode (nodeHeap w' k) = Some (Some p))"
        "2 \<le> length (inodeList ?y) \<longrightarrow> (\<forall>k \<in> set (m # ns). 2 \<le> length (inodes_at w' k))"
      using Suc.IH [OF m(1) y(1) m(9) y(2,4,3), of "acc @ [n]"] by (elim exE conjE) (rule that)
    note i = i(1,2) i(3-8) [unfolded ly(1-4)]
    have par: "\<forall>k \<in> set (m # ns). map_option parentNode (nodeHeap w' k) = Some (Some p)" using i(7) by blast
    have two: "\<forall>k \<in> set (m # ns). 2 \<le> length (inodes_at w' k)" using i(8) ly(4,5) by metis
    have n': "nodeHeap w' n = Some (x\<lparr>inodeList := take r (inodeList x), parentNode := Some p\<rparr>)"
      using i(6) s(5) m(3,5) by auto
    have nin: "n \<notin> set (m # ns)" using i(5) s(5) m(5) by auto
    have "piece_ok ps (x\<lparr>inodeList := take r (inodeList x), parentNode := Some p\<rparr>)"
      using s(4) node_bytes_take [where x = x and r = r and p = "Some p"] by (auto simp: piece_ok_def)
    moreover have "nodeHeap w' q = nodeHeap w q" if "q \<noteq> n" "parentNode x \<noteq> Some q" "nodeHeap w q \<noteq> None" for q
    proof -
      have "q \<noteq> m" "q \<noteq> p" using that m(2,7) by auto
      then show ?thesis using that m(8) [of q] i(6) by auto
    qed
    moreover have "nodeHeap w k = None" if "k \<in> set ns" for k
      using that i(2,5) s(5) m(6) m(8) [of k] by force
    moreover have "split_loop (Suc fuel) ps n acc w = Inr (acc @ n # m # ns, w')" using s(1) i(1) by (simp add: act_simps)
    moreover have "inodes_at w' n = take r (inodeList x)" using n' by (simp add: inodes_at_def)
    ultimately show ?thesis
      using i(2-4) par two nin n' m(2,7) s(2,3)
      by (intro exI [of _ "m # ns"] exI [of _ w']) (auto simp: min_def)
  qed
qed

text \<open>
  C11: \<open>Node::split\<close> always ends and cuts a node into consecutive pieces: in the order of the result,
  the inodes of the pieces are exactly those the node had, the first piece is the node itself and the
  others are new; every piece is of the same kind, has at most four inodes or fits the page size, and
  when there is more than one piece they hang below a common parent and have at least two inodes each.
  No other node that existed before changes, except the parent.
\<close>

theorem split_correct:
  assumes "nodeHeap w n = Some x" and "bucketHeap w (node_bucket x) = Some b" and "fresh_nodes w"
    and "node_bytes x < 2 ^ 32" and "\<forall>p. parentNode x = Some p \<longrightarrow> nodeHeap w p \<noteq> None \<and> p \<noteq> n"
  shows "\<exists>ns w'. Node_split ps n w = Inr (n # ns, w') \<and> distinct (n # ns) \<and>
    concat (map (inodes_at w') (n # ns)) = inodeList x \<and>
    (\<forall>m \<in> set (n # ns). \<exists>y. nodeHeap w' m = Some y \<and> isLeaf y = isLeaf x \<and> piece_ok ps y) \<and>
    (\<forall>m \<in> set ns. nodeHeap w m = None) \<and>
    (ns \<noteq> [] \<longrightarrow> (\<exists>p. \<forall>m \<in> set (n # ns). map_option parentNode (nodeHeap w' m) = Some (Some p) \<and> 2 \<le> length (inodes_at w' m))) \<and>
    (\<forall>q. q \<noteq> n \<and> parentNode x \<noteq> Some q \<and> nodeHeap w q \<noteq> None \<longrightarrow> nodeHeap w' q = nodeHeap w q)"
proof -
  obtain ns w' where r: "split_loop (Suc (length (inodeList x))) ps n [] w = Inr ([] @ n # ns, w')" "distinct (n # ns)"
    "concat (map (inodes_at w') (n # ns)) = inodeList x"
    "\<forall>m \<in> set (n # ns). \<exists>y. nodeHeap w' m = Some y \<and> isLeaf y = isLeaf x \<and> node_bucket y = node_bucket x \<and> piece_ok ps y"
    "\<forall>m \<in> set ns. nodeHeap w m = None"
    "\<forall>q. q \<noteq> n \<and> parentNode x \<noteq> Some q \<and> nodeHeap w q \<noteq> None \<longrightarrow> nodeHeap w' q = nodeHeap w q"
    "ns \<noteq> [] \<longrightarrow> (\<exists>p. \<forall>m \<in> set (n # ns). map_option parentNode (nodeHeap w' m) = Some (Some p))"
    "2 \<le> length (inodeList x) \<longrightarrow> (\<forall>m \<in> set (n # ns). 2 \<le> length (inodes_at w' m))"
    using split_loop_spec [OF assms lessI, where ps = ps and acc = "[]"] by (elim exE conjE) (rule that)
  have "2 \<le> length (inodeList x)" if "ns \<noteq> []"
  proof (rule ccontr)
    assume "\<not> 2 \<le> length (inodeList x)"
    then have "splitTwo ps n w = Inr ((n, None), w)" using splitTwo_small [OF assms(1)] by simp
    then show False using r(1) that by (simp add: act_simps)
  qed
  then have "ns \<noteq> [] \<longrightarrow> (\<exists>p. \<forall>m \<in> set (n # ns). map_option parentNode (nodeHeap w' m) = Some (Some p) \<and> 2 \<le> length (inodes_at w' m))"
    using r(7,8) by blast
  moreover have "Node_split ps n w = Inr (n # ns, w')" using r(1) assms(1) by (simp add: Node_split_def act_simps)
  moreover have "\<forall>m \<in> set (n # ns). \<exists>y. nodeHeap w' m = Some y \<and> isLeaf y = isLeaf x \<and> piece_ok ps y" using r(4) by blast
  ultimately show ?thesis using r(2,3,5,6) by (intro exI conjI)
qed

definition big_node_example :: node where
  "big_node_example = node_example\<lparr>inodeList := inodeList node_example @ inodeList node_example\<rparr>"

definition world_split :: world where
  "world_split = world_example\<lparr>nodeHeap := [NodePtr 3 \<mapsto> big_node_example],
     bucketHeap := [BucketPtr 0 \<mapsto> Bucket_new (TxPtr 1)], nextPtr := 7\<rparr>"

theorem split_correct_witness:
  "\<exists>ns w'. Node_split 60 (NodePtr 3) world_split = Inr (NodePtr 3 # ns, w') \<and>
     concat (map (inodes_at w') (NodePtr 3 # ns)) = inodeList big_node_example"
proof -
  have "nodeHeap world_split (NodePtr 3) = Some big_node_example" "fresh_nodes world_split"
    "bucketHeap world_split (node_bucket big_node_example) = Some (Bucket_new (TxPtr 1))"
    by (simp_all add: world_split_def fresh_nodes_def big_node_example_def node_example_def Node_new_def)
  moreover have "node_bytes big_node_example < 2 ^ 32" "parentNode big_node_example = None"
    by (simp_all add: big_node_example_def node_bytes_def node_example_def inode_bytes_def put_inode_def PAGEHEADERSIZE_def
        Node_new_def)
  ultimately show ?thesis using split_correct [of world_split "NodePtr 3" big_node_example "Bucket_new (TxPtr 1)" 60]
    by auto
qed

section \<open>Merging with a sibling\<close>

lemma binarySearch_first:
  assumes "ascending (node_keys x)" and "inodeList x \<noteq> []" and "node_keys x ! 0 = item_data key"
  shows "binarySearch (inodeList x) key = (0, True)"
proof -
  have mem: "item_data key \<in> set (node_keys x)" using assms(2,3) nth_mem [of 0 "node_keys x"] by (simp add: node_keys_def)
  have "lower_bound (node_keys x) (item_data key) = 0"
    using lower_bound_less [of 0 "node_keys x" "item_data key"] assms(3) by (cases "lower_bound (node_keys x) (item_data key)") auto
  then show ?thesis using binarySearch_spec [of "inodeList x" key] assms(1) mem by (simp add: node_keys_def)
qed

text \<open>
  C37: Merging the first child of a branch crashes. When an unbalanced, too small, non-empty node is the
  first child of its parent (and not the only one), \<open>rebalance\<close> asks for its next sibling;
  \<open>nextSibling\<close> returns null for exactly the first child, and \<open>rebalance\<close> dereferences it.
\<close>

theorem rebalance_first_child_crashes:
  assumes "nodeHeap w n = Some x" and "unbalanced x" and "Node_size x \<le> 1024 \<or> length (inodeList x) \<le> minKeys x"
    and "inodeList x \<noteq> []" and "parentNode x = Some p" and "p \<noteq> n" and "nodeHeap w p = Some px"
    and "1 < length (inodeList px)" and "ascending (node_keys px)" and "node_keys px ! 0 = item_data (node_key x)"
  shows "Node_rebalance (Suc fuel) n w = Inl NullDeref"
proof -
  have "inodeList px \<noteq> []" using assms(8) by auto
  with binarySearch_first [OF assms(9) this assms(10)]
  have b: "binarySearch (inodeList px) (node_key x) = (0, True)" by simp
  have sz: "\<not> (1024 < Node_size x \<and> minKeys x < length (inodeList x))" using assms(3) by auto
  show ?thesis
    using assms(1,2,4-8) b sz
    by (simp add: act_simps upd_node_def numChildren_def merge_sibling_def childIndex_def nextSibling_def)
qed

definition world_merge :: world where
  "world_merge = world_example\<lparr>nodeHeap :=
     [NodePtr 1 \<mapsto> (Node_new (BucketPtr 0) None)\<lparr>inodeList :=
        [put_inode (Item_string [1]) Item_default 4 0, put_inode (Item_string [9]) Item_default 5 0]\<rparr>,
      NodePtr 2 \<mapsto> node_example\<lparr>unbalanced := True, node_key := Item_string [1], parentNode := Some (NodePtr 1)\<rparr>]\<rparr>"

theorem rebalance_first_child_crashes_witness: "Node_rebalance 3 (NodePtr 2) world_merge = Inl NullDeref"
proof -
  let ?x = "node_example\<lparr>unbalanced := True, node_key := Item_string [1], parentNode := Some (NodePtr 1)\<rparr>"
  have "node_bytes ?x = node_bytes node_example" using inode_bytes_any [of ?x node_example] by (simp add: node_bytes_def)
  then have "Node_size ?x \<le> 1024" using unat_Node_size [of ?x] node_example_bytes(1) by (simp add: word_le_nat_alt)
  moreover have "inodeList node_example \<noteq> []" by (simp add: node_example_def)
  ultimately show ?thesis
    using rebalance_first_child_crashes [of world_merge "NodePtr 2" ?x "NodePtr 1" "(Node_new (BucketPtr 0) None)\<lparr>inodeList :=
        [put_inode (Item_string [1]) Item_default 4 0, put_inode (Item_string [9]) Item_default 5 0]\<rparr>" 2]
    by (simp add: world_merge_def node_keys_def put_inode_def)
qed

end
