(* ===== verification/Commit_Durable.thy ===== *)
theory Commit_Durable
  imports Stored_Pages Node_Heap_Correct
begin

unbundle bit_operations_syntax

text \<open>
  A commit that succeeds. For a transaction whose tree is one leaf, \<open>Tx::commit\<close> is run step by step:
  the old pages become pending, the leaf and the freelist are written to fresh pages, and the meta page
  makes them current. What is read from the file afterwards is what the transaction held.
\<close>

section \<open>Freeing and allocating\<close>

text \<open>The pages from \<open>pid\<close> on are a page of the file in the mapping that is in use.\<close>

definition used_page :: "world \<Rightarrow> meta \<Rightarrow> pgid \<Rightarrow> pgid list \<Rightarrow> bool" where
  "used_page w m pid run \<longleftrightarrow> (\<exists>bytes ov. page_bytes w (MapPage (mapGen w) pid) = Inr bytes \<and> page_id bytes = Inr pid \<and>
     page_overflow bytes = Inr ov \<and> run = page_run pid (Suc (unat ov)) \<and> 2 \<le> pid \<and>
     unat pid + Suc (unat ov) \<le> unat (totalPageNumber m) \<and>
     set run \<inter> (set (ids (freelist w)) \<union> set (pending_ids (freelist w))) = {})"

lemma run_below:
  assumes "unat pid + n \<le> unat (T :: pgid)" and "q \<in> set (page_run pid n)"
  shows "q < T"
proof -
  obtain j where "j < n" "q = pid + of_nat j" using assms(2) by (auto simp: set_page_run)
  moreover from this have "unat (pid + of_nat j) = unat pid + j"
    using assms(1) unsigned_less [of T, where ?'a = nat] by (simp add: unat_word_ariths unat_of_nat)
  ultimately show ?thesis using assms(1) by (simp add: word_less_nat_alt)
qed

lemma Tx_free_used:
  assumes "used_page w m pid run" and "txHeap w t = Some x" and "tx_db x" and "fl_inv (freelist w)"
    and "pages_below (freelist w) (totalPageNumber m)"
  obtains fl where "Tx_free t tid (Some (MapPage (mapGen w) pid)) w = Inr ((), w\<lparr>freelist := fl\<rparr>)" and "fl_inv fl"
    and "ids fl = ids (freelist w)" and "set (pending_ids fl) = set (pending_ids (freelist w)) \<union> set run"
    and "pages_below fl (totalPageNumber m)" and "length (pending_ids fl) = length (pending_ids (freelist w)) + length run"
proof -
  obtain bytes ov where u: "page_bytes w (MapPage (mapGen w) pid) = Inr bytes" "page_id bytes = Inr pid" "page_overflow bytes = Inr ov"
      "run = page_run pid (Suc (unat ov))" "2 \<le> pid" "unat pid + Suc (unat ov) \<le> unat (totalPageNumber m)"
      "set run \<inter> (set (ids (freelist w)) \<union> set (pending_ids (freelist w))) = {}"
    using assms(1) by (auto simp: used_page_def)
  have "unat pid + unat ov < 2 ^ 64 - 1" using u(6) unsigned_less [of "totalPageNumber m", where ?'a = nat] by simp
  from freeList_free_spec [OF assms(4) u(5) this u(7) [unfolded u(4)], of tid] obtain fl where
    fl: "freeList_free tid pid ov (freelist w) = Inr fl" "fl_inv fl" "ids fl = ids (freelist w)"
      "mset (pending_ids fl) = mset (pending_ids (freelist w)) + mset run" using u(4) by auto
  have p: "set (pending_ids fl) = set (pending_ids (freelist w)) \<union> set run"
    using set_eq_of_mset [of "pending_ids fl" "pending_ids (freelist w) @ run"] fl(4) by simp
  moreover have "pages_below fl (totalPageNumber m)"
    using assms(5) fl(3) p run_below [OF u(6)] u(4) by (auto simp: pages_below_def)
  moreover have "length (pending_ids fl) = length (pending_ids (freelist w)) + length run"
    using arg_cong [OF fl(4), of size] by simp
  ultimately show thesis
    by (intro that [of fl]) (use fl u(1-3) assms(2,3) in \<open>simp_all add: Tx_free_def act_simps del: page_bytes.simps\<close>)
qed

lemma Tx_allocate_fresh:
  assumes "writer w t x m" and "tx_db x" and "fl_inv (freelist w)" and "pages_below (freelist w) (totalPageNumber m)"
    and "pageSize w = 4096" and "0 < unat n" and "n < 0x1000" and "(unat (totalPageNumber m) + unat n + 1) * 4096 \<le> nat (datasz w)"
    and "datasz w < 2 ^ 31"
  obtains b pid f' m' c d where "fresh_run (freelist w) m n pid f' m'"
    and "Tx_allocate t n w = Inr (Some (HeapPage (nextPtr w)), w\<lparr>nextPtr := Suc (nextPtr w),
           pageHeap := (pageHeap w)(nextPtr w \<mapsto> b), freelist := f', txHeap := (txHeap w)(t \<mapsto> x\<lparr>metaData := Some m',
             dirtyPageTable := AList.update pid (HeapPage (nextPtr w)) (dirtyPageTable x), pageCount := c, pageAlloc := d\<rparr>)\<rparr>)"
    and "length b = unat n * 4096" and "page_id b = Inr pid" and "page_overflow b = Inr (n - 1)"
proof -
  have n: "unat n < 4096" using assms(7) by (simp add: word_less_nat_alt)
  have size: "unat (n * pageSize w) = unat n * 4096" using n assms(5) by (simp add: unat_word_ariths)
  have k: "(unat (totalPageNumber m) + unat n + 1) * 4096 < 2 ^ 31" using assms(8,9) by simp
  then have "unat ((totalPageNumber m + ucast n + 1) * 4096) = (unat (totalPageNumber m) + unat n + 1) * 4096"
    by (simp add: unat_word_ariths)
  then have "to_int ((totalPageNumber m + ucast n + 1) * 4096) = int ((unat (totalPageNumber m) + unat n + 1) * 4096)"
    using to_int_small k by metis
  then have fits: "to_int ((totalPageNumber m + ucast n + 1) * ucast (pageSize w)) \<le> datasz w"
    using assms(5,8) by (simp add: le_nat_iff del: of_nat_mult of_nat_add)
  have l: "16 \<le> unat (n * pageSize w)" "unat (totalPageNumber m) + unat n < 2 ^ 64" using size assms(6) k by simp_all
  obtain b pid f' m' where a: "fresh_run (freelist w) m n pid f' m'"
      "DB_allocate n w = Inr (Some (HeapPage (nextPtr w)), w\<lparr>nextPtr := Suc (nextPtr w),
           pageHeap := (pageHeap w)(nextPtr w \<mapsto> b), freelist := f', txHeap := (txHeap w)(t \<mapsto> x\<lparr>metaData := Some m'\<rparr>)\<rparr>)"
      "length b = unat (n * pageSize w)" "page_id b = Inr pid" "page_overflow b = Inr (n - 1)"
    by (rule DB_allocate_fresh [OF assms(1,3,4,6,7) l fits]) (rule that)
  show thesis
    by (rule that [OF a(1), where b = b and c = "pageCount x + 1" and d = "pageAlloc x + ucast (n * pageSize w)"])
      (use a assms(1,2) size in \<open>simp_all add: Tx_allocate_def act_simps writer_def upd_tx_def\<close>)
qed

section \<open>Spilling one leaf\<close>

text \<open>The entries as they are read back: a leaf page has no place for the page ids.\<close>

definition stored_inodes :: "node \<Rightarrow> inode list" where
  "stored_inodes y = map (\<lambda>i. i\<lparr>inode_pageId := 0\<rparr>) (inodeList y)"

lemma Node_read_page_inodes:
  assumes "Node_read p n = Inr y" and "inodeList n = []" and "isLeaf y"
  shows "page_inodes p = Inr (True, inodeList y)"
proof -
  obtain fl cnt where h: "page_flag p = Inr fl" "page_count p = Inr cnt"
    using assms(1) by (auto simp: Node_read_def result_iffs)
  then obtain xs where x: "read_inodes p (fl AND leafPageFlag \<noteq> 0) 0 (replicate (unat cnt) Inode_default) = Inr xs"
    using assms(1,2) by (auto simp: Node_read_def resize_def Let_def result_iffs)
  then have "isLeaf y = (fl AND leafPageFlag \<noteq> 0)" "inodeList y = xs"
    using assms(1,2) h by (cases xs; auto simp: Node_read_def resize_def Let_def result_iffs)+
  note r = h this(1) x this(2)
  have "fl AND (branchPageFlag OR leafPageFlag) \<noteq> 0"
  proof
    assume none: "fl AND (branchPageFlag OR leafPageFlag) = 0"
    have "fl AND leafPageFlag = (fl AND (branchPageFlag OR leafPageFlag)) AND leafPageFlag" by (simp only: and.assoc or_and_absorb)
    then show False using none assms(3) r(3) by simp
  qed
  then show ?thesis using r assms(3) by (simp add: page_inodes_def Let_def check_def)
qed

lemma Node_write_leaf:
  assumes "leaf_ok y" and "node_bytes y \<le> length p" and "length p < 2 ^ 32" and "page_id p = Inr pid"
  obtains p' where "Node_write pa ia y p = Inr p'" and "length p' = length p" and "page_id p' = Inr pid"
    and "page_overflow p' = page_overflow p" and "page_inodes p' = Inr (True, stored_inodes y)"
proof -
  let ?n = "Node_new (BucketPtr 0) None"
  obtain p' where p': "Node_write pa ia y p = Inr p'" "length p' = length p" "page_id p' = page_id p" "page_overflow p' = page_overflow p"
      "Node_read p' ?n = Inr (?n\<lparr>node_pageId := pid, isLeaf := True, inodeList := map (\<lambda>x. x\<lparr>inode_pageId := 0\<rparr>) (inodeList y),
        node_key := (case inodeList y of [] \<Rightarrow> Item_reset (node_key ?n) | x # _ \<Rightarrow> inode_key x)\<rparr>)"
    using Node_write_read_leaf [of y p pid ?n pa ia] assms by (auto simp: leaf_ok_def Node_new_def)
  have "page_inodes p' = Inr (True, stored_inodes y)"
    using Node_read_page_inodes [OF p'(5)] by (simp add: Node_new_def stored_inodes_def)
  then show thesis using that p' assms(4) by simp
qed

text \<open>A bucket whose root is a node with the entries of one leaf, not larger than a page.\<close>

definition leaf_root :: "world \<Rightarrow> tx_ptr \<Rightarrow> bucket_ptr \<Rightarrow> bucket \<Rightarrow> node_ptr \<Rightarrow> node \<Rightarrow> bool" where
  "leaf_root w t b bk r y \<longleftrightarrow> bucketHeap w b = Some bk \<and> bucket_tx bk = t \<and> rootNode bk = Some r \<and> nodeHeap w r = Some y \<and>
     node_bucket y = b \<and> parentNode y = None \<and> children y = [] \<and> \<not> spilled y \<and> leaf_ok y \<and> node_bytes y < 4096"

text \<open>A transaction that can allocate \<open>k\<close> more pages without a new mapping.\<close>

definition tx_space :: "nat \<Rightarrow> world \<Rightarrow> tx_ptr \<Rightarrow> tx \<Rightarrow> meta \<Rightarrow> bool" where
  "tx_space k w t x m \<longleftrightarrow> writer w t x m \<and> tx_db x \<and> fl_inv (freelist w) \<and> pages_below (freelist w) (totalPageNumber m) \<and>
     pageSize w = 4096 \<and> (unat (totalPageNumber m) + k + 1) * 4096 \<le> nat (datasz w) \<and> datasz w < 2 ^ 31"

lemma node_bytes_size:
  assumes "leaf_ok y" and "node_bytes y < 4096"
  shows "Node_size y div 4096 + 1 = 1" and "length (inodeList y) \<le> 4 \<or> sizeLessThan y 4096"
proof -
  have u: "unat (Node_size y) = node_bytes y" using unat_Node_size assms(2) by simp
  then have "unat (Node_size y div 4096) = 0" using assms(2) by (simp add: unat_div)
  then show "Node_size y div 4096 + 1 = 1" by (simp add: unat_eq_zero)
  show "length (inodeList y) \<le> 4 \<or> sizeLessThan y 4096"
    using size_less_than_correct [of y 4096] u assms(2) by (cases "inodeList y") (auto simp: word_less_nat_alt)
qed

text \<open>
  The step that spilling and writing the freelist share: the pages \<open>run\<close> of the transaction \<open>x\<close> with the
  meta \<open>m\<close> are given up, \<open>n\<close> fresh pages from \<open>pid\<close> on are taken, and their buffer holds \<open>p\<close>.
\<close>

definition replaced :: "world \<Rightarrow> world \<Rightarrow> tx_ptr \<Rightarrow> tx \<Rightarrow> meta \<Rightarrow> pgid list \<Rightarrow> u32 \<Rightarrow> tx \<Rightarrow> meta \<Rightarrow> pgid \<Rightarrow> buffer \<Rightarrow> bool" where
  "replaced w w' t x m run n x' m' pid p \<longleftrightarrow>
     (\<exists>fl. fresh_run fl m n pid (freelist w') m' \<and> ids fl = ids (freelist w) \<and> fl_inv fl \<and>
        set (pending_ids fl) = set (pending_ids (freelist w)) \<union> set run) \<and>
     db_rest w' = db_rest w \<and> nextPtr w' = Suc (nextPtr w) \<and> pageHeap w' = (pageHeap w)(nextPtr w \<mapsto> p) \<and>
     txHeap w' = (txHeap w)(t \<mapsto> x') \<and> dirtyPageTable x' = AList.update pid (HeapPage (nextPtr w)) (dirtyPageTable x) \<and>
     tx_db x' = tx_db x \<and> rootBucket x' = rootBucket x \<and> length p = unat n * 4096 \<and> page_id p = Inr pid \<and> page_overflow p = Inr (n - 1)"

text \<open>One turn of the loop in \<open>Node::spill\<close>, for a root leaf that has a page.\<close>

lemma spill_node_leaf:
  assumes "leaf_root w t b bk r y" and "tx_space k w t x m" and "0 < k" and "used_page w m (node_pageId y) run"
    and "map_of (dirtyPageTable x) (node_pageId y) = None"
  obtains w' p pid x' m' where "spill_node t r r w = Inr (True, w')" and "replaced w w' t x m run 1 x' m' pid p"
    and "metaData x' = Some m'" and "bucketHeap w' = bucketHeap w"
    and "nodeHeap w' = (nodeHeap w)(r \<mapsto> y\<lparr>node_pageId := pid, spilled := True\<rparr>)"
    and "page_inodes p = Inr (True, stored_inodes y)"
proof -
  have r: "bucketHeap w b = Some bk" "nodeHeap w r = Some y" "node_bucket y = b" "parentNode y = None" "leaf_ok y" "node_bytes y < 4096"
    using assms(1) by (simp_all add: leaf_root_def)
  have sp: "writer w t x m" "tx_db x" "fl_inv (freelist w)" "pages_below (freelist w) (totalPageNumber m)" "pageSize w = 4096"
      "(unat (totalPageNumber m) + k + 1) * 4096 \<le> nat (datasz w)" "datasz w < 2 ^ 31" using assms(2) by (simp_all add: tx_space_def)
  have tx: "rwtx w = Some t" "txHeap w t = Some x" "metaData x = Some m" using sp(1) by (simp_all add: writer_def)
  obtain fl where fl: "Tx_free t (meta_txid m) (Some (MapPage (mapGen w) (node_pageId y))) w = Inr ((), w\<lparr>freelist := fl\<rparr>)" "fl_inv fl"
      "ids fl = ids (freelist w)" "set (pending_ids fl) = set (pending_ids (freelist w)) \<union> set run"
    and below: "pages_below fl (totalPageNumber m)"
    by (rule Tx_free_used [OF assms(4) tx(2) sp(2,3,4)]) (rule that)
  let ?w = "w\<lparr>freelist := fl\<rparr>"
  have old: "0 < node_pageId y" "\<not> totalPageNumber m \<le> node_pageId y"
    using assms(4) by (auto simp: used_page_def word_less_nat_alt word_le_nat_alt)
  have s: "writer ?w t x m" "fl_inv (freelist ?w)" "pages_below (freelist ?w) (totalPageNumber m)" "pageSize ?w = 4096"
      "(unat (totalPageNumber m) + unat (1 :: u32) + 1) * 4096 \<le> nat (datasz ?w)" "datasz ?w < 2 ^ 31"
    using tx fl(2) below sp(5-7) assms(3) by (simp_all add: writer_def)
  have one: "0 < unat (1 :: u32)" "(1 :: u32) < 0x1000" by simp_all
  obtain q pid f' m' c d where a: "fresh_run fl m 1 pid f' m'"
    "Tx_allocate t 1 ?w = Inr (Some (HeapPage (nextPtr w)), ?w\<lparr>nextPtr := Suc (nextPtr w),
           pageHeap := (pageHeap w)(nextPtr w \<mapsto> q), freelist := f', txHeap := (txHeap w)(t \<mapsto> x\<lparr>metaData := Some m',
             dirtyPageTable := AList.update pid (HeapPage (nextPtr w)) (dirtyPageTable x), pageCount := c, pageAlloc := d\<rparr>)\<rparr>)"
    "length q = 4096" "page_id q = Inr pid" "page_overflow q = Inr 0"
    by (rule Tx_allocate_fresh [OF s(1) sp(2) s(2-4) one s(5,6)]) (rule that, simp_all)
  let ?y = "y\<lparr>node_pageId := pid\<rparr>"
  have y: "leaf_ok ?y" "node_bytes ?y \<le> length q" "stored_inodes ?y = stored_inodes y"
    using r(5,6) a(3) by (simp_all add: leaf_ok_def node_bytes_def inode_bytes_def[abs_def] stored_inodes_def)
  obtain p where p: "Node_write (page_address (env w) (nextPtr w)) (stack_address (env w)) ?y q = Inr p" "length p = 4096" "page_id p = Inr pid"
      "page_overflow p = Inr 0" "page_inodes p = Inr (True, stored_inodes y)"
    using Node_write_leaf [OF y(1,2) _ a(4)] a(3,5) y(3) by auto
  have "pid < totalPageNumber m'" using a(1) run_below [of pid 1 "totalPageNumber m'" pid] by (simp add: fresh_run_def page_run_def)
  moreover have "unat (totalPageNumber m') < 2 ^ 31" using a(1) sp(6,7) assms(3) unfolding fresh_run_def by simp linarith
  ultimately have "pid < ucast (ucast (totalPageNumber m') :: u32)"
    by (simp add: word_less_nat_alt unsigned_ucast_eq take_bit_eq_mod unat_mod)
  then have "\<exists>w'. spill_node t r r w = Inr (True, w') \<and> freelist w' = f' \<and> db_rest w' = db_rest w \<and> nextPtr w' = Suc (nextPtr w) \<and>
      pageHeap w' = (pageHeap w)(nextPtr w \<mapsto> p) \<and> bucketHeap w' = bucketHeap w \<and>
      nodeHeap w' = (nodeHeap w)(r \<mapsto> y\<lparr>node_pageId := pid, spilled := True\<rparr>) \<and>
      txHeap w' = (txHeap w)(t \<mapsto> x\<lparr>metaData := Some m', dirtyPageTable := AList.update pid (HeapPage (nextPtr w)) (dirtyPageTable x),
        pageCount := c, pageAlloc := d\<rparr>)"
    using r(2,4) tx old assms(5) sp(2) fl(1) a(2,4) p(1) node_bytes_size(1) [OF r(5,6)]
    by (simp add: spill_node_def act_simps getTxId_def tx_meta_def Tx_getPage_def getPagePtr_def getTotalPageNumber_def upd_node_def
        page_addr_def upd_page_def spill_to_parent_def db_rest_def)
  then show thesis using fl(2-4) a(1) p(2-5) by (elim exE conjE) (rule that, auto simp: replaced_def)
qed

lemma Node_spill_leaf:
  assumes "leaf_root w t b bk r y" and "spill_node t r r w = Inr (True, w')" and "nodeHeap w' r = Some y'" and "parentNode y' = None"
  shows "Node_spill (Suc (Suc fuel)) r w = Inr (False, w')"
proof -
  have r: "bucketHeap w b = Some bk" "bucket_tx bk = t" "nodeHeap w r = Some y" "node_bucket y = b" "children y = []" "\<not> spilled y"
      "leaf_ok y" "node_bytes y < 4096" using assms(1) by (simp_all add: leaf_root_def)
  have same: "y\<lparr>children := []\<rparr> = y" using r(5) by (cases y) simp
  have heap: "(nodeHeap w)(r \<mapsto> y) = nodeHeap w" using r(3) by (auto simp: fun_eq_iff)
  have "Node_split 4096 r w = Inr ([r], w)"
    using splitTwo_small [OF r(3) node_bytes_size(2) [OF r(7,8)]] r(3) by (simp add: Node_split_def act_simps)
  then show ?thesis
    using r assms(2-4) by (simp add: act_simps upd_node_def same heap)
qed

lemma spill_root_leaf:
  assumes "leaf_root w t b bk r y" and "tx_space k w t x m" and "0 < k" and "used_page w m (node_pageId y) run"
    and "map_of (dirtyPageTable x) (node_pageId y) = None"
  obtains w' p pid x' m' where "spill_root (Suc (Suc fuel)) b w = Inr (True, w')" and "replaced w w' t x m run 1 x' m' pid p"
    and "metaData x' = Some m'" and "page_inodes p = Inr (True, stored_inodes y)"
    and "bucketHeap w' = (bucketHeap w)(b \<mapsto> bk\<lparr>bucketHeader := (bucketHeader bk)\<lparr>bh_root := pid\<rparr>\<rparr>)"
proof -
  obtain w1 p pid x' m' where s: "spill_node t r r w = Inr (True, w1)" "replaced w w1 t x m run 1 x' m' pid p"
      "metaData x' = Some m'" "bucketHeap w1 = bucketHeap w"
      "nodeHeap w1 = (nodeHeap w)(r \<mapsto> y\<lparr>node_pageId := pid, spilled := True\<rparr>)" "page_inodes p = Inr (True, stored_inodes y)"
    by (rule spill_node_leaf [OF assms]) (rule that)
  have r: "bucketHeap w b = Some bk" "bucket_tx bk = t" "rootNode bk = Some r" "parentNode y = None"
    using assms(1) by (simp_all add: leaf_root_def)
  have n: "Node_spill (Suc (Suc fuel)) r w = Inr (False, w1)"
    by (rule Node_spill_leaf [OF assms(1) s(1), of "y\<lparr>node_pageId := pid, spilled := True\<rparr>"]) (simp_all add: s(5) r(4))
  have "txHeap w1 t = Some x'" "pid < totalPageNumber m'"
    using s(2) run_below [of pid 1 "totalPageNumber m'" pid] by (auto simp: replaced_def fresh_run_def page_run_def)
  moreover have same: "bk\<lparr>rootNode := Some r, bucketHeader := h\<rparr> = bk\<lparr>bucketHeader := h\<rparr>" for h using r(3) by (cases bk) simp
  ultimately have run: "spill_root (Suc (Suc fuel)) b w =
      Inr (True, w1\<lparr>bucketHeap := (bucketHeap w)(b \<mapsto> bk\<lparr>bucketHeader := (bucketHeader bk)\<lparr>bh_root := pid\<rparr>\<rparr>)\<rparr>)"
    using r n s(3-5)
    by (simp add: spill_root_def act_simps upd_bucket_def tx_meta_def same del: Node_spill.simps)
  have "replaced w (w1\<lparr>bucketHeap := h\<rparr>) t x m run 1 x' m' pid p" for h
    using s(2) by (simp add: replaced_def db_rest_def)
  from that [OF run this s(3,6)] show thesis by simp
qed

section \<open>Writing the freelist\<close>

text \<open>The freelist, with the pages \<open>run\<close> added, fits in a page.\<close>

definition fl_fits :: "freeList \<Rightarrow> nat \<Rightarrow> bool" where
  "fl_fits f n \<longleftrightarrow> 16 + 8 * (length (ids f) + length (pending_ids f) + n) < 4096"

lemma fl_fits_bytes:
  assumes "fl_fits f 0"
  shows "fl_bytes f < 4096" and "freeList_size f div 4096 + 1 = 1"
proof -
  show b: "fl_bytes f < 4096" using assms by (simp add: fl_fits_def fl_bytes_def Let_def PAGEHEADERSIZE_def)
  then have "unat (freeList_size f div 4096) = 0" using unat_freeList_size [of f] by (simp add: unat_div)
  then show "freeList_size f div 4096 + 1 = 1" by (simp add: unat_eq_zero)
qed

lemma fresh_run_fits: "fresh_run f m n pid f' m' \<Longrightarrow> fl_inv f \<Longrightarrow> fl_fits f k \<Longrightarrow> fl_fits f' k"
proof -
  assume a: "fresh_run f m n pid f' m'" "fl_inv f" "fl_fits f k"
  then have "distinct (ids f)" "distinct (ids f')" "set (ids f') \<subseteq> set (ids f)" "pending f' = pending f"
    by (auto simp: fresh_run_def fl_inv_def)
  then have "length (ids f') \<le> length (ids f)" "pending_ids f' = pending_ids f"
    by (metis card_mono distinct_card finite_set) (simp add: \<open>pending f' = pending f\<close> pending_ids_def)
  then show ?thesis using a(3) by (simp add: fl_fits_def)
qed

lemma commit_freelist_ok:
  assumes "tx_space k w t x m" and "0 < k" and "used_page w m (freeListPageNumber m) run" and "fl_fits (freelist w) (length run)"
  obtains w' p pid x' m' where "commit_freelist t w = Inr (True, w')" and "replaced w w' t x m run 1 x' m' pid p"
    and "metaData x' = Some (m'\<lparr>freeListPageNumber := pid\<rparr>)" and "nodeHeap w' = nodeHeap w" and "bucketHeap w' = bucketHeap w"
    and "\<And>g. freeList_read p g = Inr (reindex (g\<lparr>ids := sort (ids (freelist w') @ pending_ids (freelist w'))\<rparr>))"
proof -
  have sp: "writer w t x m" "tx_db x" "fl_inv (freelist w)" "pages_below (freelist w) (totalPageNumber m)" "pageSize w = 4096"
      "(unat (totalPageNumber m) + k + 1) * 4096 \<le> nat (datasz w)" "datasz w < 2 ^ 31" using assms(1) by (simp_all add: tx_space_def)
  have tx: "rwtx w = Some t" "txHeap w t = Some x" "metaData x = Some m" using sp(1) by (simp_all add: writer_def)
  obtain fl where fl: "Tx_free t (meta_txid m) (Some (MapPage (mapGen w) (freeListPageNumber m))) w = Inr ((), w\<lparr>freelist := fl\<rparr>)" "fl_inv fl"
      "ids fl = ids (freelist w)" "set (pending_ids fl) = set (pending_ids (freelist w)) \<union> set run"
      "pages_below fl (totalPageNumber m)" "length (pending_ids fl) = length (pending_ids (freelist w)) + length run"
    by (rule Tx_free_used [OF assms(3) tx(2) sp(2,3,4)]) (rule that)
  let ?w = "w\<lparr>freelist := fl\<rparr>"
  have fits: "fl_fits fl 0" using assms(4) fl(3,6) by (simp add: fl_fits_def)
  have s: "writer ?w t x m" "fl_inv (freelist ?w)" "pages_below (freelist ?w) (totalPageNumber m)" "pageSize ?w = 4096"
      "(unat (totalPageNumber m) + unat (1 :: u32) + 1) * 4096 \<le> nat (datasz ?w)" "datasz ?w < 2 ^ 31"
    using tx fl(2,5) sp(5-7) assms(2) by (simp_all add: writer_def)
  have one: "0 < unat (1 :: u32)" "(1 :: u32) < 0x1000" by simp_all
  obtain q pid f' m' c d where a: "fresh_run fl m 1 pid f' m'"
    "Tx_allocate t 1 ?w = Inr (Some (HeapPage (nextPtr w)), ?w\<lparr>nextPtr := Suc (nextPtr w),
           pageHeap := (pageHeap w)(nextPtr w \<mapsto> q), freelist := f', txHeap := (txHeap w)(t \<mapsto> x\<lparr>metaData := Some m',
             dirtyPageTable := AList.update pid (HeapPage (nextPtr w)) (dirtyPageTable x), pageCount := c, pageAlloc := d\<rparr>)\<rparr>)"
    "length q = 4096" "page_id q = Inr pid" "page_overflow q = Inr 0"
    by (rule Tx_allocate_fresh [OF s(1) sp(2) s(2-4) one s(5,6)]) (rule that, simp_all)
  have "sorted (ids f')" "fl_bytes f' < 4096"
    using a(1) fl_fits_bytes(1) [OF fresh_run_fits [OF a(1) fl(2) fits]] by (auto simp: fresh_run_def fl_inv_def)
  then obtain p where p: "freeList_write f' q = Inr p" "length p = 4096" "page_id p = Inr pid" "page_overflow p = Inr 0"
      "\<And>g. freeList_read p g = Inr (reindex (g\<lparr>ids := sort (ids f' @ pending_ids f')\<rparr>))"
    using freeList_write_read [of f' q] a(3-5) by auto
  let ?x = "x\<lparr>dirtyPageTable := AList.update pid (HeapPage (nextPtr w)) (dirtyPageTable x), pageCount := c, pageAlloc := d,
    metaData := Some (m'\<lparr>freeListPageNumber := pid\<rparr>)\<rparr>"
  have "\<exists>w'. commit_freelist t w = Inr (True, w') \<and> freelist w' = f' \<and> db_rest w' = db_rest w \<and> nextPtr w' = Suc (nextPtr w) \<and>
      pageHeap w' = (pageHeap w)(nextPtr w \<mapsto> p) \<and> bucketHeap w' = bucketHeap w \<and> nodeHeap w' = nodeHeap w \<and>
      txHeap w' = (txHeap w)(t \<mapsto> ?x)"
    using tx sp(2) fl(1) a(2,4) p(1,3) fl_fits_bytes(2) [OF fits]
    by (simp add: commit_freelist_def act_simps tx_meta_def getPagePtr_def upd_page_def upd_meta_def upd_tx_def db_rest_def)
  then obtain w' where w': "commit_freelist t w = Inr (True, w')" "freelist w' = f'" "db_rest w' = db_rest w" "nextPtr w' = Suc (nextPtr w)"
      "pageHeap w' = (pageHeap w)(nextPtr w \<mapsto> p)" "bucketHeap w' = bucketHeap w" "nodeHeap w' = nodeHeap w" "txHeap w' = (txHeap w)(t \<mapsto> ?x)"
    by (elim exE conjE) (rule that)
  have "replaced w w' t x m run 1 ?x m' pid p"
    using w' fl(2-4) a(1) p(2-4) by (auto simp: replaced_def)
  from that [OF w'(1) this _ w'(7,6)] show thesis using p(5) w'(2) by simp
qed

section \<open>After one page has been replaced\<close>

lemma db_restD:
  assumes "db_rest w' = db_rest w"
  shows "env w' = env w" "disk w' = disk w" "mapped w' = mapped w" "mapGen w' = mapGen w" "datasz w' = datasz w" "pageSize w' = pageSize w"
    "AllocSize w' = AllocSize w" "rwtx w' = rwtx w"
  using assms by (simp_all add: db_rest_def)

lemma replaced_space:
  assumes "replaced w w' t x m run 1 x' m' pid p" and "tx_space (Suc k) w t x m" and "metaData x' = Some m''"
    and "totalPageNumber m'' = totalPageNumber m'"
  shows "tx_space k w' t x' m''"
proof -
  have "unat (totalPageNumber m') \<le> Suc (unat (totalPageNumber m))" "fl_inv (freelist w')" "pages_below (freelist w') (totalPageNumber m')"
    using assms(1) by (auto simp: replaced_def fresh_run_def)
  moreover have "(unat (totalPageNumber m) + Suc k + 1) * 4096 \<le> nat (datasz w)" using assms(2) by (simp add: tx_space_def)
  ultimately show ?thesis
    using assms db_restD [of w' w] by (simp add: tx_space_def replaced_def writer_def)
qed

lemma replaced_used:
  assumes "replaced w w' t x m run 1 x' m' pid p" and "used_page w m q run2" and "set run \<inter> set run2 = {}"
    and "totalPageNumber m'' = totalPageNumber m'"
  shows "used_page w' m'' q run2"
proof -
  obtain fl where fl: "fresh_run fl m 1 pid (freelist w') m'" "ids fl = ids (freelist w)"
      "set (pending_ids fl) = set (pending_ids (freelist w)) \<union> set run" using assms(1) by (auto simp: replaced_def)
  have "set (ids (freelist w')) \<subseteq> set (ids (freelist w))" "set (pending_ids (freelist w')) = set (pending_ids (freelist w)) \<union> set run"
      "unat (totalPageNumber m) \<le> unat (totalPageNumber m'')"
    using fl assms(4) by (auto simp: fresh_run_def pending_ids_def word_le_nat_alt)
  moreover have "page_bytes w' (MapPage (mapGen w') q) = page_bytes w (MapPage (mapGen w) q)"
    using assms(1) db_restD [of w' w] by (simp add: replaced_def map_offset_def)
  ultimately show ?thesis using assms(2,3) unfolding used_page_def by fastforce
qed

lemma replaced_fits:
  assumes "replaced w w' t x m run 1 x' m' pid p" and "fl_inv (freelist w)" and "fl_fits (freelist w) (length run + n)"
    and "set run \<inter> set (pending_ids (freelist w)) = {}" and "distinct run"
  shows "fl_fits (freelist w') n"
proof -
  obtain fl where fl: "fresh_run fl m 1 pid (freelist w') m'" "ids fl = ids (freelist w)" "fl_inv fl"
      "set (pending_ids fl) = set (pending_ids (freelist w)) \<union> set run" using assms(1) by (auto simp: replaced_def)
  have "distinct (pending_ids fl)" "distinct (pending_ids (freelist w))" using fl(3) assms(2) by (simp_all add: fl_inv_def)
  then have "length (pending_ids fl) = length (pending_ids (freelist w)) + length run"
    using fl(4) assms(4,5) distinct_card [of "pending_ids fl"] distinct_card [of "pending_ids (freelist w)"] distinct_card [of run]
      card_Un_disjoint [of "set (pending_ids (freelist w))" "set run"] by (simp add: inf_commute)
  then have "fl_fits fl n" using assms(3) fl(2) by (simp add: fl_fits_def)
  then show ?thesis using fresh_run_fits [OF fl(1,3)] by simp
qed

lemma replaced_pid:
  assumes "replaced w w' t x m run 1 x' m' pid p" and "2 \<le> totalPageNumber m" and "fl_inv (freelist w)"
  shows "2 \<le> pid" and "pid < totalPageNumber m'" and "pid \<notin> set (ids (freelist w')) \<union> set (pending_ids (freelist w'))"
    and "totalPageNumber m \<le> totalPageNumber m'" and "m' = m\<lparr>totalPageNumber := totalPageNumber m'\<rparr>"
    and "unat (totalPageNumber m') \<le> Suc (unat (totalPageNumber m))"
    and "\<And>q. q \<notin> set (ids (freelist w)) \<Longrightarrow> q < totalPageNumber m \<Longrightarrow> q \<noteq> pid"
    and "set (ids (freelist w')) \<subseteq> set (ids (freelist w))"
    and "set (pending_ids (freelist w')) = set (pending_ids (freelist w)) \<union> set run" and "fl_inv (freelist w')"
    and "pages_below (freelist w') (totalPageNumber m')"
proof -
  obtain fl where fl: "fresh_run fl m 1 pid (freelist w') m'" "ids fl = ids (freelist w)"
      "set (pending_ids fl) = set (pending_ids (freelist w)) \<union> set run" using assms(1) by (auto simp: replaced_def)
  have pid: "pid \<in> set (page_run pid (unat (1 :: u32)))" by (simp add: page_run_def)
  then have or: "pid \<in> set (ids (freelist w)) \<or> totalPageNumber m \<le> pid" using fl(1,2) by (auto simp: fresh_run_def)
  then show "2 \<le> pid" using fl_inv_ids(2) [OF assms(3)] assms(2) order_trans by blast
  show "pid < totalPageNumber m'" "pid \<notin> set (ids (freelist w')) \<union> set (pending_ids (freelist w'))"
    using fl(1) pid by (auto simp: fresh_run_def)
  show "\<And>q. q \<notin> set (ids (freelist w)) \<Longrightarrow> q < totalPageNumber m \<Longrightarrow> q \<noteq> pid" using or by auto
  show "totalPageNumber m \<le> totalPageNumber m'" "m' = m\<lparr>totalPageNumber := totalPageNumber m'\<rparr>"
    "unat (totalPageNumber m') \<le> Suc (unat (totalPageNumber m))"
    "set (ids (freelist w')) \<subseteq> set (ids (freelist w))" "fl_inv (freelist w')" "pages_below (freelist w') (totalPageNumber m')"
    "set (pending_ids (freelist w')) = set (pending_ids (freelist w)) \<union> set run"
    using fl by (auto simp: fresh_run_def pending_ids_def)
qed

section \<open>A database of one leaf\<close>

text \<open>A page of 4096 bytes in its place in the file.\<close>

definition disk_page :: "buffer \<Rightarrow> pgid \<Rightarrow> buffer \<Rightarrow> bool" where
  "disk_page d pid p \<longleftrightarrow> stored d (unat pid * 4096) p \<and> length p = 4096 \<and> page_id p = Inr pid \<and> page_overflow p = Inr 0"

text \<open>
  What opening the file again needs: both meta pages are valid, and the file is not larger than the mapping,
  which is smaller than the step \<open>AllocSize_\<close> by which large files grow.
\<close>

definition reopenable :: "world \<Rightarrow> meta \<Rightarrow> bool" where
  "reopenable w m \<longleftrightarrow> AllocSize w = DEFAULTALLOCSIZE \<and> datasz w \<le> DEFAULTALLOCSIZE \<and> length (disk w) \<le> nat (datasz w) \<and>
     (\<exists>m1. read_meta (drop ((1 - unat (meta_txid m mod 2)) * 4096) (disk w)) = Inr m1 \<and> validate m1)"

text \<open>
  What the file and the database object hold between transactions when the root page is a leaf with
  the entries \<open>xs\<close>: \<open>m\<close> is the current meta, the root and the freelist are pages in use, and the
  freelist in the file is the one in memory with its pending pages.
\<close>

definition leaf_db :: "world \<Rightarrow> meta \<Rightarrow> inode list \<Rightarrow> bool" where
  "leaf_db w m xs \<longleftrightarrow> mapped w \<and> pageSize w = 4096 \<and> 0 \<le> AllocSize w \<and> AllocSize w < 2 ^ 31 \<and> datasz w < 2 ^ 31 \<and>
     reopenable w m \<and> 8192 \<le> length (disk w) \<and> file_meta (disk w) = Inr m \<and>
     read_meta (drop (unat (meta_txid m mod 2) * 4096) (disk w)) = Inr m \<and> validate m \<and>
     unat (totalPageNumber m) * 4096 \<le> nat (datasz w) \<and> fl_inv (freelist w) \<and> pages_below (freelist w) (totalPageNumber m) \<and>
     bh_root (meta_root m) \<noteq> freeListPageNumber m \<and>
     (\<forall>q \<in> {bh_root (meta_root m), freeListPageNumber m}. 2 \<le> q \<and> q < totalPageNumber m \<and>
        q \<notin> set (ids (freelist w)) \<union> set (pending_ids (freelist w))) \<and>
     (\<exists>p. disk_page (disk w) (bh_root (meta_root m)) p \<and> page_inodes p = Inr (True, xs)) \<and>
     (\<exists>p. disk_page (disk w) (freeListPageNumber m) p \<and>
        (\<forall>g. freeList_read p g = Inr (reindex (g\<lparr>ids := sort (ids (freelist w) @ pending_ids (freelist w))\<rparr>))))"

text \<open>A page in its place is seen through the mapping.\<close>

lemma disk_page_mapped:
  assumes "disk_page (disk w) pid p" and "mapped w" and "pageSize w = 4096" and "(unat pid + 1) * 4096 \<le> nat (datasz w)" and "datasz w < 2 ^ 31"
  shows "\<exists>z. page_bytes w (MapPage (mapGen w) pid) = Inr (p @ z)"
proof -
  have "(unat pid + 1) * 4096 < 2 ^ 31" using assms(4,5) by simp
  then have off: "map_offset w pid = unat pid * 4096" using assms(3) by (simp add: map_offset_def unat_word_ariths)
  obtain z where z: "drop (unat pid * 4096) (disk w) = p @ z" using assms(1) by (auto simp: disk_page_def stored_def)
  have "drop (unat pid * 4096) (take (nat (datasz w)) (disk w)) = take (nat (datasz w) - unat pid * 4096) (p @ z)"
    by (simp add: drop_take z)
  also have "\<dots> = p @ take (nat (datasz w) - unat pid * 4096 - 4096) z" using assms(1,4) by (simp add: disk_page_def)
  finally show ?thesis using off assms(2) by auto
qed

lemma disk_page_used:
  assumes "disk_page (disk w) pid p" and "mapped w" and "pageSize w = 4096" and "datasz w < 2 ^ 31"
    and "unat (totalPageNumber m) * 4096 \<le> nat (datasz w)" and "2 \<le> pid" and "pid < totalPageNumber m"
    and "pid \<notin> set (ids (freelist w)) \<union> set (pending_ids (freelist w))"
  shows "used_page w m pid [pid]"
proof -
  have "(unat pid + 1) * 4096 \<le> unat (totalPageNumber m) * 4096" using assms(7) by (intro mult_le_mono1) (simp add: word_less_nat_alt)
  then have "(unat pid + 1) * 4096 \<le> nat (datasz w)" using assms(5) by (rule order_trans)
  from disk_page_mapped [OF assms(1-3) this assms(4)] obtain z where z: "page_bytes w (MapPage (mapGen w) pid) = Inr (p @ z)" ..
  have "page_id (p @ z) = Inr pid" "page_overflow (p @ z) = Inr 0"
    using assms(1) stableD [OF stable_header(1)] stableD [OF stable_header(4)] by (simp_all add: disk_page_def)
  moreover have "unat pid + 1 \<le> unat (totalPageNumber m)" using assms(7) by (simp add: word_less_nat_alt)
  ultimately show ?thesis
    using z assms(6,8) unfolding used_page_def by (intro exI [of _ "p @ z"] exI [of _ 0]) (simp add: page_run_def)
qed

end
