(* ===== verification/Leaf_Commit.thy ===== *)
theory Leaf_Commit
  imports Commit_Durable
begin

unbundle bit_operations_syntax

text \<open>
  The commit of a transaction whose tree is one leaf, as a whole: it returns 0 and the file then holds the
  entries of the leaf under the next transaction number. Databases of this kind are closed under commits.
\<close>

section \<open>The state in which the leaf is committed\<close>

text \<open>
  The database is \<open>leaf_db w m xs\<close>, and the transaction \<open>t\<close> with the next number has read the root page
  into a node, whose entries it has changed to those of \<open>y\<close>. There is room for two more pages in the
  mapping and for two more ids on the page of the freelist.
\<close>

definition leaf_commit :: "world \<Rightarrow> tx_ptr \<Rightarrow> tx \<Rightarrow> bucket_ptr \<Rightarrow> meta \<Rightarrow> node \<Rightarrow> bool" where
  "leaf_commit w t x b m y \<longleftrightarrow> (\<exists>xs. leaf_db w m xs) \<and> env_ok (env w) \<and> writer w t x (m\<lparr>meta_txid := meta_txid m + 1\<rparr>) \<and>
     tx_db x \<and> dirtyPageTable x = [] \<and> meta_txid m \<noteq> - 1 \<and> (\<exists>bk r. leaf_root w t b bk r y) \<and>
     node_pageId y = bh_root (meta_root m) \<and> (unat (totalPageNumber m) + 3) * 4096 \<le> nat (datasz w) \<and> fl_fits (freelist w) 2"

text \<open>The first half of the commit: spill the root, record it in the meta, write the freelist.\<close>

definition first_half :: "nat \<Rightarrow> tx_ptr \<Rightarrow> bucket_ptr \<Rightarrow> pgid option act" where
  "first_half fuel t b =
     bnd (spill_root fuel b) (\<lambda>ok. if \<not> ok then ret None else
     bnd (getRootPage b) (\<lambda>rt.
     thn (upd_meta t (\<lambda>m. m\<lparr>meta_root := (meta_root m)\<lparr>bh_root := rt\<rparr>\<rparr>)) (
     bnd (tx_meta t) (\<lambda>m.
     bnd (commit_freelist t) (\<lambda>ok. if \<not> ok then ret None else ret (Some (totalPageNumber m)))))))"

lemma leaf_commit_start:
  assumes "leaf_commit w t x b m y"
  shows "tx_space 2 w t x (m\<lparr>meta_txid := meta_txid m + 1\<rparr>)"
    and "used_page w (m\<lparr>meta_txid := meta_txid m + 1\<rparr>) (bh_root (meta_root m)) [bh_root (meta_root m)]"
    and "used_page w (m\<lparr>meta_txid := meta_txid m + 1\<rparr>) (freeListPageNumber m) [freeListPageNumber m]"
    and "bh_root (meta_root m) \<noteq> freeListPageNumber m"
proof -
  obtain xs where db: "leaf_db w m xs" and c: "env_ok (env w)" "writer w t x (m\<lparr>meta_txid := meta_txid m + 1\<rparr>)" "tx_db x"
      "(unat (totalPageNumber m) + 3) * 4096 \<le> nat (datasz w)"
    using assms by (auto simp: leaf_commit_def)
  show "tx_space 2 w t x (m\<lparr>meta_txid := meta_txid m + 1\<rparr>)" using db c by (simp add: tx_space_def leaf_db_def)
  show "bh_root (meta_root m) \<noteq> freeListPageNumber m" using db by (simp add: leaf_db_def)
  have "\<exists>p. disk_page (disk w) q p \<and> 2 \<le> q \<and> q < totalPageNumber m \<and> q \<notin> set (ids (freelist w)) \<union> set (pending_ids (freelist w))"
    if "q \<in> {bh_root (meta_root m), freeListPageNumber m}" for q
    using db that unfolding leaf_db_def by blast
  moreover have "mapped w" "pageSize w = 4096" "datasz w < 2 ^ 31" "unat (totalPageNumber m) * 4096 \<le> nat (datasz w)"
    using db by (simp_all add: leaf_db_def)
  ultimately have "used_page w (m\<lparr>meta_txid := meta_txid m + 1\<rparr>) q [q]" if "q \<in> {bh_root (meta_root m), freeListPageNumber m}" for q
    using disk_page_used [of w q _ "m\<lparr>meta_txid := meta_txid m + 1\<rparr>"] that by fastforce
  then show "used_page w (m\<lparr>meta_txid := meta_txid m + 1\<rparr>) (bh_root (meta_root m)) [bh_root (meta_root m)]"
    "used_page w (m\<lparr>meta_txid := meta_txid m + 1\<rparr>) (freeListPageNumber m) [freeListPageNumber m]" by simp_all
qed

text \<open>
  After the first half: the leaf is in a buffer with the page id \<open>r\<close> and the freelist in one with the id \<open>f\<close>,
  and the meta \<open>m'\<close> names these pages. Both were free or beyond the page count, so they are not the old pages.
\<close>

definition half_done :: "world \<Rightarrow> tx_ptr \<Rightarrow> meta \<Rightarrow> node \<Rightarrow> world \<Rightarrow> tx \<Rightarrow> meta \<Rightarrow> bool" where
  "half_done w t m y w' x' m' \<longleftrightarrow> (\<exists>p q T. let r = bh_root (meta_root m'); f = freeListPageNumber m'; a = nextPtr w in
     db_rest w' = db_rest w \<and> txHeap w' t = Some x' \<and> metaData x' = Some m' \<and>
     pageHeap w' = (pageHeap w)(a \<mapsto> p, Suc a \<mapsto> q) \<and> dirtyPageTable x' = [(r, HeapPage a), (f, HeapPage (Suc a))] \<and>
     m' = m\<lparr>meta_txid := meta_txid m + 1, totalPageNumber := T, meta_root := (meta_root m)\<lparr>bh_root := r\<rparr>, freeListPageNumber := f\<rparr> \<and>
     totalPageNumber m \<le> T \<and> unat T \<le> unat (totalPageNumber m) + 2 \<and> r \<noteq> f \<and>
     fl_inv (freelist w') \<and> pages_below (freelist w') T \<and> (\<forall>n. fl_fits (freelist w) (n + 2) \<longrightarrow> fl_fits (freelist w') n) \<and>
     (\<forall>s \<in> {r, f}. 2 \<le> s \<and> s < T \<and> s \<notin> set (ids (freelist w')) \<union> set (pending_ids (freelist w'))) \<and>
     nextPtr w' = nextPtr w + 2 \<and> length p = 4096 \<and> page_id p = Inr r \<and> page_overflow p = Inr 0 \<and> page_inodes p = Inr (True, stored_inodes y) \<and>
     length q = 4096 \<and> page_id q = Inr f \<and> page_overflow q = Inr 0 \<and>
     (\<forall>g. freeList_read q g = Inr (reindex (g\<lparr>ids := sort (ids (freelist w') @ pending_ids (freelist w'))\<rparr>))))"

lemma first_half_ok:
  assumes "leaf_commit w t x b m y"
  obtains w' x' m' T where "first_half (Suc (Suc fuel)) t b w = Inr (Some T, w')" and "half_done w t m y w' x' m'"
    and "rootBucket x' = rootBucket x"
proof -
  let ?m = "m\<lparr>meta_txid := meta_txid m + 1\<rparr>" and ?r = "bh_root (meta_root m)" and ?f = "freeListPageNumber m"
  note start = leaf_commit_start [OF assms]
  obtain bk r where lr: "leaf_root w t b bk r y" and y: "node_pageId y = ?r" "dirtyPageTable x = []" "fl_fits (freelist w) 2"
    using assms by (auto simp: leaf_commit_def)
  have inv: "fl_inv (freelist w)" "2 \<le> totalPageNumber ?m"
    using start(1,2) by (auto simp: tx_space_def used_page_def word_le_nat_alt)
  have old: "?r \<notin> set (ids (freelist w))" "?r \<notin> set (pending_ids (freelist w))" "?f \<notin> set (ids (freelist w))" "?f < totalPageNumber m" "?r < totalPageNumber m"
      "?f \<notin> set (pending_ids (freelist w))"
    using assms by (auto simp: leaf_commit_def leaf_db_def)
  obtain w1 p1 pid1 x1 m1 where s: "spill_root (Suc (Suc fuel)) b w = Inr (True, w1)" "replaced w w1 t x ?m [?r] 1 x1 m1 pid1 p1"
      "metaData x1 = Some m1" "page_inodes p1 = Inr (True, stored_inodes y)"
      "bucketHeap w1 = (bucketHeap w)(b \<mapsto> bk\<lparr>bucketHeader := (bucketHeader bk)\<lparr>bh_root := pid1\<rparr>\<rparr>)"
    by (rule spill_root_leaf [OF lr start(1) _ start(2) [folded y(1)], of fuel]) (use y in \<open>simp_all add: that\<close>)
  note c1 = replaced_pid [OF s(2) inv(2,1)]
  let ?m2 = "m1\<lparr>meta_root := (meta_root m1)\<lparr>bh_root := pid1\<rparr>\<rparr>"
  let ?x2 = "x1\<lparr>metaData := Some ?m2\<rparr>"
  let ?w2 = "w1\<lparr>txHeap := (txHeap w1)(t \<mapsto> ?x2)\<rparr>"
  have r2: "replaced w ?w2 t x ?m [?r] 1 ?x2 m1 pid1 p1" using s(2) by (simp add: replaced_def db_rest_def)
  have sp2: "tx_space 1 ?w2 t ?x2 ?m2" by (rule replaced_space [OF r2]) (use start(1) in \<open>simp_all add: numeral_2_eq_2\<close>)
  have u2: "used_page ?w2 ?m2 (freeListPageNumber ?m2) [?f]"
    using replaced_used [OF r2 start(3), of ?m2] start(4) arg_cong [OF c1(5), of freeListPageNumber] by simp
  have fits: "fl_fits (freelist ?w2) (Suc n)" if "fl_fits (freelist w) (n + 2)" for n
    by (rule replaced_fits [OF r2 inv(1)]) (use that old(2) in simp_all)
  then have fits2: "fl_fits (freelist ?w2) (length [?f])" using y(3) by (simp add: numeral_2_eq_2)
  obtain w3 p2 pid2 x3 m3 where f: "commit_freelist t ?w2 = Inr (True, w3)" "replaced ?w2 w3 t ?x2 ?m2 [?f] 1 x3 m3 pid2 p2"
      "metaData x3 = Some (m3\<lparr>freeListPageNumber := pid2\<rparr>)" "bucketHeap w3 = bucketHeap ?w2"
      "\<And>g. freeList_read p2 g = Inr (reindex (g\<lparr>ids := sort (ids (freelist w3) @ pending_ids (freelist w3))\<rparr>))"
    by (rule commit_freelist_ok [OF sp2 _ u2 fits2]) (simp_all add: that)
  have T2: "2 \<le> totalPageNumber ?m2" using c1(4) inv(2) by simp
  note c2 = replaced_pid [OF f(2) T2, simplified, OF c1(10)]
  have x1: "txHeap w1 t = Some x1" "nextPtr w1 = Suc (nextPtr w)" using s(2) by (auto simp: replaced_def)
  have run: "first_half (Suc (Suc fuel)) t b w = Inr (Some (totalPageNumber m1), w3)"
    using s(1,3,5) f(1) x1(1) by (simp add: first_half_def act_simps getRootPage_def upd_meta_def upd_tx_def tx_meta_def)
  have "pid1 \<noteq> pid2" using c2(7) c1(2,3) by blast
  moreover have "dirtyPageTable x3 = [(pid1, HeapPage (nextPtr w)), (pid2, HeapPage (Suc (nextPtr w)))]"
    using r2 f(2) x1(2) y(2) \<open>pid1 \<noteq> pid2\<close> by (auto simp: replaced_def)
  moreover have "m3\<lparr>freeListPageNumber := pid2\<rparr> = m\<lparr>meta_txid := meta_txid m + 1, totalPageNumber := totalPageNumber m3,
      meta_root := (meta_root m)\<lparr>bh_root := pid1\<rparr>, freeListPageNumber := pid2\<rparr>"
    using c1(5) c2(5) by (cases m; cases m1; cases m3) simp
  moreover have "unat (totalPageNumber m3) \<le> unat (totalPageNumber m) + 2" "totalPageNumber m \<le> totalPageNumber m3"
    using c1(4,6) c2(4,6) by (simp_all add: word_le_nat_alt)
  moreover have "pid1 < totalPageNumber m3" using c1(2) c2(4) by (rule less_le_trans)
  moreover have "fl_fits (freelist w3) n" if "fl_fits (freelist w) (n + 2)" for n
    using replaced_fits [OF f(2), of n] fits [OF that] c1(9,10) old(6) start(4) by simp
  moreover have "pid1 \<notin> set (pending_ids (freelist w3))" using c2(9) c1(3) c1(7) [OF old(3)] old(4) by auto
  ultimately have "half_done w t m y w3 x3 (m3\<lparr>freeListPageNumber := pid2\<rparr>)"
    using r2 f(2,3,5) s(4) x1 c1 c2 unfolding half_done_def Let_def replaced_def
    by (intro exI [of _ p1] exI [of _ p2] exI [of _ "totalPageNumber m3"]) auto
  from that [OF run this] show thesis using s(2) f(2) by (simp add: replaced_def)
qed

section \<open>The second half\<close>

text \<open>Two different pages do not overlap.\<close>

lemma pages_apart:
  fixes q r :: pgid
  assumes "q \<noteq> r"
  shows "{unat q * 4096..<unat q * 4096 + 4096} \<inter> {unat r * 4096..<unat r * 4096 + 4096} = {}"
proof -
  have "unat q < unat r \<or> unat r < unat q" using assms by (metis linorder_neqE_nat word_unat_eq_iff)
  then show ?thesis by (auto simp: disjoint_iff)
qed

text \<open>The file after the write of the new meta page: it is the current one, the other page holds the old meta.\<close>

lemma meta_committed:
  assumes "length bs = 4096" and "read_meta bs = Inr m'" and "8192 \<le> length d'" and "take 8192 d' = take 8192 d0"
    and "read_meta (drop (unat (meta_txid m mod 2) * 4096) d0) = Inr m" and "meta_txid m' = meta_txid m + 1" and "meta_txid m \<noteq> - 1"
    and "validate m'"
  defines "d \<equiv> file_write bs (unat (meta_txid m' mod 2) * 4096) d'"
  shows "file_meta d = Inr m'" and "8192 \<le> length d" and "read_meta (drop (unat (meta_txid m' mod 2) * 4096) d) = Inr m'"
    and "read_meta (drop ((1 - unat (meta_txid m' mod 2)) * 4096) d) = Inr m"
proof -
  note o = other_meta_page [OF assms(4-7)]
  have "unat (meta_txid m' mod 2) < 2" by (simp add: unat_mod)
  note w = meta_page_write [OF assms(1-3) this]
  show "file_meta d = Inr m'" unfolding d_def by (rule file_meta_written [OF assms(1-3,8) o])
  show "8192 \<le> length d" unfolding d_def using assms(3) by (auto simp: file_write_def)
  show "read_meta (drop (unat (meta_txid m' mod 2) * 4096) d) = Inr m'" unfolding d_def by (rule w(1))
  show "read_meta (drop ((1 - unat (meta_txid m' mod 2)) * 4096) d) = Inr m" unfolding d_def using w(2) o(1) by simp
qed

lemma second_half_ok:
  assumes "leaf_commit w t x b m y" and "half_done w t m y w' x' m'"
  obtains c d f where "commit_write [] t T w' = Inr (0, w'\<lparr>clock := c, disk := d, filesz := f,
      txHeap := (txHeap w')(t \<mapsto> x'\<lparr>dirtyPageTable := [], metaData := Some (m'\<lparr>checksum := 0\<rparr>)\<rparr>)\<rparr>)"
    and "\<And>h. leaf_db (w'\<lparr>clock := c, disk := d, filesz := f, txHeap := h\<rparr>) (m'\<lparr>checksum := 0\<rparr>) (stored_inodes y)"
proof -
  let ?r = "bh_root (meta_root m')" and ?f = "freeListPageNumber m'" and ?a = "nextPtr w"
  obtain p q k where h: "db_rest w' = db_rest w" "txHeap w' t = Some x'" "metaData x' = Some m'"
      "pageHeap w' = (pageHeap w)(?a \<mapsto> p, Suc ?a \<mapsto> q)" "dirtyPageTable x' = [(?r, HeapPage ?a), (?f, HeapPage (Suc ?a))]"
      "m' = m\<lparr>meta_txid := meta_txid m + 1, totalPageNumber := k, meta_root := (meta_root m)\<lparr>bh_root := ?r\<rparr>, freeListPageNumber := ?f\<rparr>"
      "totalPageNumber m \<le> k" "unat k \<le> unat (totalPageNumber m) + 2" "?r \<noteq> ?f" "fl_inv (freelist w')" "pages_below (freelist w') k"
      "\<forall>n. fl_fits (freelist w) (n + 2) \<longrightarrow> fl_fits (freelist w') n"
      "\<forall>s \<in> {?r, ?f}. 2 \<le> s \<and> s < k \<and> s \<notin> set (ids (freelist w')) \<union> set (pending_ids (freelist w'))"
      "nextPtr w' = nextPtr w + 2"
    and p: "length p = 4096" "page_id p = Inr ?r" "page_overflow p = Inr 0" "page_inodes p = Inr (True, stored_inodes y)"
    and q: "length q = 4096" "page_id q = Inr ?f" "page_overflow q = Inr 0"
      "\<forall>g. freeList_read q g = Inr (reindex (g\<lparr>ids := sort (ids (freelist w') @ pending_ids (freelist w'))\<rparr>))"
    using assms(2) unfolding half_done_def Let_def by (elim exE conjE) (rule that)
  note rest = db_restD [OF h(1)]
  obtain xs where db: "leaf_db w m xs" and c: "env_ok (env w)" "(unat (totalPageNumber m) + 3) * 4096 \<le> nat (datasz w)" "meta_txid m \<noteq> - 1"
    using assms(1) by (auto simp: leaf_commit_def)
  have k: "totalPageNumber m' = k" "meta_txid m' = meta_txid m + 1" "magic m' = magic m" "version m' = version m"
    using arg_cong [OF h(6), of totalPageNumber] arg_cong [OF h(6), of meta_txid] arg_cong [OF h(6), of magic] arg_cong [OF h(6), of version]
    by simp_all
  then have valid: "validate (m'\<lparr>checksum := 0\<rparr>)" using db by (auto simp: leaf_db_def validate_def split: if_splits)
  have space: "(unat k + 1) * 4096 \<le> nat (datasz w)" using h(8) c(2) by simp
  have w: "mapped w" "pageSize w = 4096" "0 \<le> AllocSize w" "AllocSize w < 2 ^ 31" "datasz w < 2 ^ 31" "8192 \<le> length (disk w)"
      "read_meta (drop (unat (meta_txid m mod 2) * 4096) (disk w)) = Inr m"
    using db by (simp_all add: leaf_db_def)
  have rf: "2 \<le> ?r" "?r < k" "2 \<le> ?f" "?f < k" using h(13) by auto
  have room: "unat s * 4096 + 4096 \<le> nat (datasz w)" if "s < k" for s
    by (rule order_trans [OF _ space]) (use that in \<open>simp add: word_less_nat_alt\<close>)
  have below: "(unat s + Suc (unat (0 :: u32))) * 4096 < 2 ^ 31" if "s < k" for s using room [OF that] w(5) by simp
  let ?pid = "\<lambda>z. if z = HeapPage ?a then ?r else ?f" and ?bytes = "\<lambda>z. if z = HeapPage ?a then p else q"
  have "2 \<le> k" using rf(1,2) by (rule order_trans [OF _ less_imp_le])
  then have ready: "ready_to_write w' t x' m' ?pid ?bytes"
    using h(2-5) k rest w space c(1) rf p q pages_apart [OF h(9)] pages_apart [OF h(9) [symmetric]] below
    by (simp add: ready_to_write_def dirty_page_def)
  from commit_write_ok [OF this, of T] obtain cl d f bs d' where
    run: "commit_write [] t T w' = Inr (0, w'\<lparr>clock := cl, disk := d, filesz := f,
      txHeap := (txHeap w')(t \<mapsto> x'\<lparr>dirtyPageTable := [], metaData := Some (m'\<lparr>checksum := 0\<rparr>)\<rparr>)\<rparr>)"
    and st: "\<forall>z \<in> set (map snd (dirtyPageTable x')). stored d (unat (?pid z) * 4096) (?bytes z)"
    and d: "d = file_write bs (unat (meta_txid m' mod 2) * 4096) d'" "length bs = 4096" "read_meta bs = Inr (m'\<lparr>checksum := 0\<rparr>)"
      "8192 \<le> length d'" "take 8192 d' = take 8192 (disk w')"
    and len: "datasz w' \<le> AllocSize w' \<and> length (disk w') \<le> nat (datasz w') \<and>
      (\<forall>z \<in> set (map snd (dirtyPageTable x')). unat (?pid z) * 4096 + length (?bytes z) \<le> nat (datasz w')) \<longrightarrow> length d \<le> nat (datasz w')"
    by (elim exE conjE) (rule that)
  let ?m = "m'\<lparr>checksum := 0\<rparr>"
  have meta: "file_meta d = Inr ?m" "8192 \<le> length d" "read_meta (drop (unat (meta_txid ?m mod 2) * 4096) d) = Inr ?m"
      "read_meta (drop ((1 - unat (meta_txid ?m mod 2)) * 4096) d) = Inr m"
    using meta_committed [OF d(2-4), of "disk w" m] d(1,5) w(7) rest(2) k(2) c(3) valid by simp_all
  have pg: "disk_page d ?r p" "disk_page d ?f q" using st h(5) p q by (auto simp: disk_page_def)
  have fits: "unat k * 4096 \<le> nat (datasz w)" using space by simp
  have re: "AllocSize w = DEFAULTALLOCSIZE" "datasz w \<le> DEFAULTALLOCSIZE" "length (disk w) \<le> nat (datasz w)" "validate m"
    using db by (simp_all add: leaf_db_def reopenable_def)
  have "length d \<le> nat (datasz w)" using len re rest h(5) p(1) q(1) rf room by simp
  then have re': "reopenable (w'\<lparr>clock := cl, disk := d, filesz := f, txHeap := h\<rparr>) ?m" for h
    using re meta(4) rest by (simp add: reopenable_def)
  show thesis
  proof (rule that [OF run])
    show "leaf_db (w'\<lparr>clock := cl, disk := d, filesz := f, txHeap := h\<rparr>) (m'\<lparr>checksum := 0\<rparr>) (stored_inodes y)" for h
      using re' [of h] meta(1-3) valid pg p(4) q(4) h(9-11,13) k rest w(1-5) fits unfolding leaf_db_def by auto
  qed
qed

section \<open>Rebalancing leaves\<close>

text \<open>Rebalancing only clears the mark of the nodes whose entries were deleted.\<close>

definition cleared :: "(node_ptr \<rightharpoonup> node) \<Rightarrow> (node_ptr \<rightharpoonup> node) \<Rightarrow> bool" where
  "cleared h h' \<longleftrightarrow> (\<forall>n. h' n = h n \<or> (\<exists>y. h n = Some y \<and> h' n = Some (y\<lparr>unbalanced := False\<rparr>)))"

lemma cleared_refl [simp]: "cleared h h"
  by (simp add: cleared_def)

lemma cleared_trans:
  assumes "cleared h h'" and "cleared h' h''"
  shows "cleared h h''"
  unfolding cleared_def
proof
  fix n
  show "h'' n = h n \<or> (\<exists>y. h n = Some y \<and> h'' n = Some (y\<lparr>unbalanced := False\<rparr>))"
    using spec [OF assms(1) [unfolded cleared_def], of n] spec [OF assms(2) [unfolded cleared_def], of n] by (elim disjE exE) simp_all
qed

lemma clearedD:
  assumes "cleared h h'" and "h n = Some y"
  obtains y' where "h' n = Some y'" and "y' = y \<or> y' = y\<lparr>unbalanced := False\<rparr>"
  using spec [OF assms(1) [unfolded cleared_def], of n] assms(2) by (elim disjE exE) (simp_all add: that)

text \<open>A bucket with at most one node, a root that is a leaf, and the same for its sub-buckets down to the depth \<open>d\<close>.\<close>

definition leaf_nodes :: "world \<Rightarrow> bucket \<Rightarrow> bool" where
  "leaf_nodes w x \<longleftrightarrow> nodes x = [] \<or> (\<exists>pid r y. nodes x = [(pid, r)] \<and> nodeHeap w r = Some y \<and> parentNode y = None \<and> isLeaf y)"

fun leaf_tree :: "nat \<Rightarrow> world \<Rightarrow> bucket_ptr \<Rightarrow> bool" where
  "leaf_tree 0 w b \<longleftrightarrow> (\<exists>x. bucketHeap w b = Some x \<and> leaf_nodes w x \<and> buckets x = [])"
| "leaf_tree (Suc d) w b \<longleftrightarrow> (\<exists>x. bucketHeap w b = Some x \<and> leaf_nodes w x \<and> (\<forall>e \<in> set (buckets x). leaf_tree d w (snd e)))"

lemma leaf_nodes_cleared: "leaf_nodes w x \<Longrightarrow> cleared (nodeHeap w) h \<Longrightarrow> leaf_nodes (w\<lparr>nodeHeap := h\<rparr>) x"
  unfolding leaf_nodes_def by (elim disjE exE conjE) (auto elim!: clearedD)

lemma leaf_tree_cleared: "leaf_tree d w b \<Longrightarrow> cleared (nodeHeap w) h \<Longrightarrow> leaf_tree d (w\<lparr>nodeHeap := h\<rparr>) b"
  by (induction d arbitrary: b) (auto intro: leaf_nodes_cleared)

lemma Node_rebalance_leaf:
  assumes "nodeHeap w r = Some y" and "parentNode y = None" and "isLeaf y"
  shows "\<exists>h. Node_rebalance (Suc fuel) r w = Inr ((), w\<lparr>nodeHeap := h\<rparr>) \<and> cleared (nodeHeap w) h"
proof (cases "unbalanced y")
  case True
  then show ?thesis using assms by (intro exI [of _ "(nodeHeap w)(r \<mapsto> y\<lparr>unbalanced := False\<rparr>)"]) (simp add: act_simps upd_node_def cleared_def)
next
  case False
  then show ?thesis using assms by (intro exI [of _ "nodeHeap w"]) (simp add: act_simps)
qed

lemma rebalance_nodes_leaf:
  assumes "bucketHeap w b = Some x" and "leaf_nodes w x"
  shows "\<exists>h. rebalance_nodes (Suc fuel) b (map fst (nodes x)) w = Inr ((), w\<lparr>nodeHeap := h\<rparr>) \<and> cleared (nodeHeap w) h"
  using assms(2) unfolding leaf_nodes_def
proof (elim disjE exE conjE)
  fix pid r y
  assume n: "nodes x = [(pid, r)]" "nodeHeap w r = Some y" "parentNode y = None" "isLeaf y"
  from Node_rebalance_leaf [OF n(2-4), of fuel] obtain h where
    "Node_rebalance (Suc fuel) r w = Inr ((), w\<lparr>nodeHeap := h\<rparr>)" "cleared (nodeHeap w) h" by blast
  then show ?thesis using assms(1) n(1) by (intro exI [of _ h]) (simp add: act_simps getCachedNode_def)
qed (simp add: act_simps exI [of _ "nodeHeap w"])

lemma iterA_nodes:
  assumes "\<And>e h. e \<in> set es \<Longrightarrow> cleared (nodeHeap w) h \<Longrightarrow>
      \<exists>h'. f e (w\<lparr>nodeHeap := h\<rparr>) = Inr ((), w\<lparr>nodeHeap := h'\<rparr>) \<and> cleared h h'"
    and "cleared (nodeHeap w) h"
  shows "\<exists>h'. iterA f es (w\<lparr>nodeHeap := h\<rparr>) = Inr ((), w\<lparr>nodeHeap := h'\<rparr>) \<and> cleared h h'"
  using assms
proof (induction es arbitrary: h)
  case (Cons e es)
  obtain h1 where h1: "f e (w\<lparr>nodeHeap := h\<rparr>) = Inr ((), w\<lparr>nodeHeap := h1\<rparr>)" "cleared h h1" using Cons.prems by fastforce
  obtain h2 where "iterA f es (w\<lparr>nodeHeap := h1\<rparr>) = Inr ((), w\<lparr>nodeHeap := h2\<rparr>)" "cleared h1 h2"
    using Cons.IH [of h1] Cons.prems cleared_trans [OF Cons.prems(2) h1(2)] by auto
  then show ?case using h1 cleared_trans by (auto simp: act_simps)
qed (auto simp: act_simps)

lemma Bucket_rebalance_leaf:
  assumes "leaf_tree d w b" and "d + 2 \<le> fuel"
  shows "\<exists>h. Bucket_rebalance fuel b w = Inr ((), w\<lparr>nodeHeap := h\<rparr>) \<and> cleared (nodeHeap w) h"
  using assms
proof (induction d arbitrary: fuel b w)
  case 0
  then obtain k x where k: "fuel = Suc (Suc k)" "bucketHeap w b = Some x" "leaf_nodes w x" "buckets x = []"
    by (auto simp: numeral_2_eq_2 Suc_le_eq less_iff_Suc_add)
  from rebalance_nodes_leaf [OF k(2,3), of k] obtain h where
    "rebalance_nodes (Suc k) b (map fst (nodes x)) w = Inr ((), w\<lparr>nodeHeap := h\<rparr>)" "cleared (nodeHeap w) h" by blast
  then show ?case using k by (intro exI [of _ h]) (simp add: act_simps)
next
  case (Suc d)
  then obtain k x where k: "fuel = Suc (Suc k)" "d + 2 \<le> Suc k" "bucketHeap w b = Some x" "leaf_nodes w x"
      "\<forall>e \<in> set (buckets x). leaf_tree d w (snd e)"
    by (cases fuel; cases "fuel - 1") auto
  from rebalance_nodes_leaf [OF k(3,4), of k] obtain h where
    h: "rebalance_nodes (Suc k) b (map fst (nodes x)) w = Inr ((), w\<lparr>nodeHeap := h\<rparr>)" "cleared (nodeHeap w) h" by blast
  have "\<exists>h'. iterA (\<lambda>e. Bucket_rebalance (Suc k) (snd e)) (buckets x) (w\<lparr>nodeHeap := h\<rparr>) = Inr ((), w\<lparr>nodeHeap := h'\<rparr>) \<and> cleared h h'"
  proof (rule iterA_nodes [OF _ h(2)])
    fix e g
    assume "e \<in> set (buckets x)" "cleared (nodeHeap w) g"
    then have "leaf_tree d (w\<lparr>nodeHeap := g\<rparr>) (snd e)" using k(5) leaf_tree_cleared by blast
    from Suc.IH [OF this k(2)] show "\<exists>h'. Bucket_rebalance (Suc k) (snd e) (w\<lparr>nodeHeap := g\<rparr>) = Inr ((), w\<lparr>nodeHeap := h'\<rparr>) \<and> cleared g h'"
      by simp
  qed
  then show ?case using h k(1,3) cleared_trans [OF h(2)] by (auto simp: act_simps simp del: rebalance_nodes.simps)
qed

section \<open>The whole commit\<close>

text \<open>What a transaction leaves alone: the environment, the mapping, the locks and the lists of transactions.\<close>

definition session :: "world \<Rightarrow> environ \<times> (nat \<times> int) \<times> (bool \<times> bool) \<times> tx_ptr option \<times> tx_ptr list \<times> bool \<times> bool \<times> nat \<times> bool" where
  "session w = (env w, (mapGen w, datasz w), (opened w, readOnly w), rwtx w, txs w, rwLock w, metaLock w, mmapReaders w, mmapWriter w)"

lemma db_rest_session: "db_rest w' = db_rest w \<Longrightarrow> session w' = session w"
  by (simp add: db_rest_def session_def)

text \<open>The database after a commit: the next meta, at most two pages more, at most two ids more in the freelist.\<close>

definition committed :: "world \<Rightarrow> meta \<Rightarrow> world \<Rightarrow> meta \<Rightarrow> inode list \<Rightarrow> bool" where
  "committed w m w' m' xs \<longleftrightarrow> leaf_db w' m' xs \<and> meta_txid m' = meta_txid m + 1 \<and> unat (totalPageNumber m') \<le> unat (totalPageNumber m) + 2 \<and>
     (\<forall>n. fl_fits (freelist w) (n + 2) \<longrightarrow> fl_fits (freelist w') n) \<and> session w' = session w \<and> nextPtr w' = nextPtr w + 2"

lemma half_done_meta:
  assumes "half_done w t m y w' x' m'"
  shows "meta_txid m' = meta_txid m + 1" and "unat (totalPageNumber m') \<le> unat (totalPageNumber m) + 2"
    and "\<forall>n. fl_fits (freelist w) (n + 2) \<longrightarrow> fl_fits (freelist w') n" and "session w' = session w" and "nextPtr w' = nextPtr w + 2"
proof -
  obtain T where e: "m' = m\<lparr>meta_txid := meta_txid m + 1, totalPageNumber := T, meta_root := (meta_root m)\<lparr>bh_root := bh_root (meta_root m')\<rparr>,
      freeListPageNumber := freeListPageNumber m'\<rparr>" "unat T \<le> unat (totalPageNumber m) + 2"
      "\<forall>n. fl_fits (freelist w) (n + 2) \<longrightarrow> fl_fits (freelist w') n" "db_rest w' = db_rest w" "nextPtr w' = nextPtr w + 2"
    using assms unfolding half_done_def Let_def by (elim exE conjE) (rule that)
  show "meta_txid m' = meta_txid m + 1" using arg_cong [OF e(1), of meta_txid] by simp
  show "unat (totalPageNumber m') \<le> unat (totalPageNumber m) + 2" using arg_cong [OF e(1), of totalPageNumber] e(2) by simp
  show "\<forall>n. fl_fits (freelist w) (n + 2) \<longrightarrow> fl_fits (freelist w') n" "session w' = session w" "nextPtr w' = nextPtr w + 2"
    using e(3,5) db_rest_session [OF e(4)] by simp_all
qed

lemma Tx_commit_leaf:
  assumes "txHeap w t = Some x" and "writable x" and "tx_db x" and "\<not> managed x" and "rootBucket x = Some b"
    and "Bucket_rebalance fuel b w = Inr ((), w0)" and "Bucket_spill fuel b w0 = spill_root (Suc (Suc k)) b w1"
    and "leaf_commit w1 t x1 b m y"
  shows "\<exists>w' m'. Tx_commit fuel [] t w = Inr (0, w') \<and> committed w1 m w' m' (stored_inodes y)"
proof -
  obtain w2 x2 m2 T where f: "first_half (Suc (Suc k)) t b w1 = Inr (Some T, w2)" and h: "half_done w1 t m y w2 x2 m2"
    by (rule first_half_ok [OF assms(8), of k]) (rule that)
  obtain c d fz where s: "commit_write [] t T w2 = Inr (0, w2\<lparr>clock := c, disk := d, filesz := fz,
      txHeap := (txHeap w2)(t \<mapsto> x2\<lparr>dirtyPageTable := [], metaData := Some (m2\<lparr>checksum := 0\<rparr>)\<rparr>)\<rparr>)"
    and db: "\<And>h. leaf_db (w2\<lparr>clock := c, disk := d, filesz := fz, txHeap := h\<rparr>) (m2\<lparr>checksum := 0\<rparr>) (stored_inodes y)"
    by (rule second_half_ok [OF assms(8) h, of T]) (rule that)
  obtain v1 v2 v3 rt and mm :: meta where r: "spill_root (Suc (Suc k)) b w1 = Inr (True, v1)" "getRootPage b v1 = Inr (rt, v2)"
      "upd_meta t (\<lambda>m. m\<lparr>meta_root := (meta_root m)\<lparr>bh_root := rt\<rparr>\<rparr>) v2 = Inr ((), v3)" "tx_meta t v3 = Inr (mm, v3)"
      "commit_freelist t v3 = Inr (True, w2)" "T = totalPageNumber mm"
    using f by (auto simp: first_half_def act_simps and_then_Inr_iff tx_meta_def result_iffs split: if_splits cong: if_cong)
  have run: "Tx_commit fuel [] t w = Inr (0, w2\<lparr>clock := c, disk := d, filesz := fz,
      txHeap := (txHeap w2)(t \<mapsto> x2\<lparr>dirtyPageTable := [], metaData := Some (m2\<lparr>checksum := 0\<rparr>)\<rparr>)\<rparr>)"
    using assms(1-7) r s by (simp add: Tx_commit_def act_simps tx_root_def)
  have "meta_txid m2 = meta_txid m + 1" "unat (totalPageNumber m2) \<le> unat (totalPageNumber m) + 2"
      "\<forall>n. fl_fits (freelist w1) (n + 2) \<longrightarrow> fl_fits (freelist w2) n" "session w2 = session w1" "nextPtr w2 = nextPtr w1 + 2"
    using half_done_meta [OF h] by simp_all
  then have "committed w1 m (w2\<lparr>clock := c, disk := d, filesz := fz, txHeap := h\<rparr>) (m2\<lparr>checksum := 0\<rparr>) (stored_inodes y)" for h
    using db by (simp add: committed_def session_def)
  with run show ?thesis by blast
qed

end
