(* ===== verification/Leaf_Tx.thy ===== *)
theory Leaf_Tx
  imports Leaf_Commit
begin

unbundle bit_operations_syntax

text \<open>
  Whole transactions on a database whose root page is a leaf: beginning one gives the root bucket of
  the committed state, \<open>DB::update\<close> makes what the user function did the committed state, and \<open>DB::view\<close>
  reads it.
\<close>

section \<open>Databases between transactions\<close>

definition idle :: "world \<Rightarrow> bool" where
  "idle w \<longleftrightarrow> env_ok (env w) \<and> opened w \<and> \<not> readOnly w \<and> rwtx w = None \<and> txs w = [] \<and> \<not> rwLock w \<and> \<not> metaLock w \<and>
     mmapReaders w = 0 \<and> \<not> mmapWriter w"

text \<open>Room for \<open>n\<close> more commits: transaction ids, pages in the mapping, ids on the page of the freelist.\<close>

definition room :: "nat \<Rightarrow> world \<Rightarrow> meta \<Rightarrow> bool" where
  "room n w m \<longleftrightarrow> unat (meta_txid m) + n < 2 ^ 64 \<and> (unat (totalPageNumber m) + 2 * n + 1) * 4096 \<le> nat (datasz w) \<and>
     fl_fits (freelist w) (2 * n)"

lemma leaf_db_cong:
  assumes "leaf_db w m xs" and "mapped w' = mapped w" and "pageSize w' = pageSize w" and "AllocSize w' = AllocSize w"
    and "datasz w' = datasz w" and "disk w' = disk w" and "freelist w' = freelist w"
  shows "leaf_db w' m xs"
  using assms by (simp add: leaf_db_def reopenable_def)

lemma getMeta_mapped:
  assumes "mapped w" and "pageSize w = 4096" and "file_meta (disk w) = Inr m" and "8192 + 80 \<le> nat (datasz w)"
  shows "DB_getMeta w = Inr (m, w)"
proof -
  have r: "read_meta (take (nat (datasz w)) (disk w)) = read_meta (disk w)"
      "read_meta (drop 4096 (take (nat (datasz w)) (disk w))) = read_meta (drop 4096 (disk w))"
    by (rule read_meta_prefix, use assms(4) in \<open>simp add: drop_take min_def\<close>)+
  show ?thesis
    using assms(1-3) r by (auto simp: DB_getMeta_def page_meta_def getPagePtr_def act_simps map_offset_def file_meta_def and_then_Inr_iff)
qed

lemma leaf_db_meta:
  assumes "leaf_db w m xs"
  shows "DB_getMeta w = Inr (m, w)"
proof (rule getMeta_mapped)
  have "2 < totalPageNumber m" using assms unfolding leaf_db_def by (metis insertI1 le_less_trans)
  then have "3 \<le> unat (totalPageNumber m)" by (simp add: word_less_nat_alt)
  moreover have "unat (totalPageNumber m) * 4096 \<le> nat (datasz w)" using assms by (simp add: leaf_db_def)
  ultimately show "8192 + 80 \<le> nat (datasz w)" by linarith
qed (use assms in \<open>simp_all add: leaf_db_def\<close>)

lemma release_pages:
  assumes "fl_inv f"
  shows "sort (ids (freeList_release t f) @ pending_ids (freeList_release t f)) = sort (ids f @ pending_ids f)"
    and "set (ids (freeList_release t f)) \<union> set (pending_ids (freeList_release t f)) = set (ids f) \<union> set (pending_ids f)"
    and "fl_fits (freeList_release t f) n \<longleftrightarrow> fl_fits f n"
proof -
  let ?g = "freeList_release t f"
  have m: "mset (ids ?g @ pending_ids ?g) = mset (ids f @ pending_ids f)" using freeList_release_spec(2) [OF assms, of t] by simp
  then show "sort (ids ?g @ pending_ids ?g) = sort (ids f @ pending_ids f)" by (intro properties_for_sort) simp_all
  show "set (ids ?g) \<union> set (pending_ids ?g) = set (ids f) \<union> set (pending_ids f)" using set_eq_of_mset [OF m] by simp
  show "fl_fits ?g n \<longleftrightarrow> fl_fits f n" using arg_cong [OF m, of size] by (simp add: fl_fits_def)
qed

lemma leaf_db_release:
  assumes "leaf_db w m xs"
  shows "leaf_db (w\<lparr>freelist := freeList_release t (freelist w)\<rparr>) m xs"
proof -
  have inv: "fl_inv (freelist w)" using assms by (simp add: leaf_db_def)
  show ?thesis
    using assms release_pages [OF inv, of t] freeList_release_spec(1) [OF inv, of t]
    by (simp add: leaf_db_def reopenable_def pages_below_def)
qed

section \<open>Beginning\<close>

text \<open>A transaction has just begun on the root bucket \<open>b\<close>.\<close>

definition begun :: "world \<Rightarrow> tx_ptr \<Rightarrow> tx \<Rightarrow> bucket_ptr \<Rightarrow> meta \<Rightarrow> bool" where
  "begun w t x b m \<longleftrightarrow> txHeap w t = Some x \<and> tx_db x \<and> rootBucket x = Some b \<and> dirtyPageTable x = [] \<and>
     metaData x = Some m \<and> bucketHeap w b = Some ((Bucket_new t)\<lparr>bucketHeader := meta_root m\<rparr>) \<and> (\<forall>k \<ge> nextPtr w. b \<noteq> BucketPtr k)"

lemma beginRWTx_idle:
  assumes "idle w" and "leaf_db w m xs"
  obtains w' t x b where "beginRWTx w = Inr (Some t, w')" and "begun w' t x b (m\<lparr>meta_txid := meta_txid m + 1\<rparr>)" and "writable x" and "\<not> managed x"
    and "leaf_db w' m xs" and "\<And>n. fl_fits (freelist w') n = fl_fits (freelist w) n"
    and "session w' = session (w\<lparr>rwtx := Some t, rwLock := True\<rparr>)"
proof -
  have inv: "fl_inv (freelist w)" using assms(2) by (simp add: leaf_db_def)
  have m: "DB_getMeta v = Inr (m, v)" if "mapped v = mapped w" "pageSize v = pageSize w" "AllocSize v = AllocSize w"
      "datasz v = datasz w" "disk v = disk w" "freelist v = freelist w" for v
    using leaf_db_meta [OF leaf_db_cong [OF assms(2) that]] .
  let ?t = "TxPtr (nextPtr w)" and ?b = "BucketPtr (Suc (nextPtr w))" and ?m = "m\<lparr>meta_txid := meta_txid m + 1\<rparr>"
  let ?x = "Tx_new\<lparr>writable := True, tx_db := True, metaData := Some ?m, rootBucket := Some ?b\<rparr>"
  let ?w = "w\<lparr>rwLock := True, rwtx := Some ?t, nextPtr := Suc (Suc (nextPtr w)), txHeap := (txHeap w)(?t \<mapsto> ?x),
    bucketHeap := (bucketHeap w)(?b \<mapsto> (Bucket_new ?t)\<lparr>bucketHeader := meta_root m\<rparr>),
    freelist := freeList_release (- 2) (freelist w)\<rparr>"
  have "(0 :: txid) < - 1" by (simp add: word_gt_0)
  then have "beginRWTx w = Inr (Some ?t, ?w)"
    using assms(1) by (simp add: beginRWTx_def act_simps idle_def lock_rwLock_def lock_metaLock_def new_tx_def Let_def setWriteable_def upd_tx_def
        Tx_new_def Tx_init_def newBucket_def new_bucket_def m setBucketHeader_def upd_bucket_def isWritable_def upd_meta_def
        tx_meta_def unlock_metaLock_def)
  moreover have "leaf_db ?w m xs" by (rule leaf_db_cong [OF leaf_db_release [OF assms(2), of "- 2"]]) simp_all
  ultimately show thesis
    using release_pages(3) [OF inv]
    by (intro that [of ?t ?w ?x ?b]) (simp_all add: begun_def Tx_new_def session_def)
qed

section \<open>Updating\<close>

lemma session_parts:
  "session w' = session w \<longleftrightarrow> env w' = env w \<and> mapGen w' = mapGen w \<and> datasz w' = datasz w \<and> opened w' = opened w \<and> readOnly w' = readOnly w \<and>
     rwtx w' = rwtx w \<and> txs w' = txs w \<and> rwLock w' = rwLock w \<and> metaLock w' = metaLock w \<and> mmapReaders w' = mmapReaders w \<and>
     mmapWriter w' = mmapWriter w"
  by (auto simp: session_def)

text \<open>
  An update whose function succeeds, up to the point of the commit where the root bucket is spilled:
  the user function, rebalancing and the spilling of the sub-buckets lead from \<open>w\<close> to a state in which
  the leaf \<open>y\<close> is to be committed, and leave the freelist alone.
\<close>

definition user_part :: "(tx_ptr \<Rightarrow> int act) \<Rightarrow> tx_ptr \<Rightarrow> int act" where
  "user_part fn t = bnd (fn t) (\<lambda>rc. thn (set_managed t False) (ret rc))"

definition leads_to :: "nat \<Rightarrow> (tx_ptr \<Rightarrow> int act) \<Rightarrow> tx_ptr \<Rightarrow> bucket_ptr \<Rightarrow> meta \<Rightarrow> world \<Rightarrow> node \<Rightarrow> bool" where
  "leads_to fuel fn t b m w y \<longleftrightarrow> (\<exists>w2 x2 w3 w4 x4 k. user_part fn t w = Inr (0, w2) \<and> txHeap w2 t = Some x2 \<and> writable x2 \<and> tx_db x2 \<and>
     \<not> managed x2 \<and> rootBucket x2 = Some b \<and> Bucket_rebalance fuel b w2 = Inr ((), w3) \<and>
     Bucket_spill fuel b w3 = spill_root (Suc (Suc k)) b w4 \<and> leaf_commit w4 t x4 b m y \<and> session w4 = session w \<and> freelist w4 = freelist w)"

lemma leads_toI:
  assumes "fn t w = Inr (0, w2)" and "txHeap w2 t = Some x2" and "writable x2" and "tx_db x2" and "rootBucket x2 = Some b"
    and "Bucket_rebalance fuel b (w2\<lparr>txHeap := (txHeap w2)(t \<mapsto> x2\<lparr>managed := False\<rparr>)\<rparr>) = Inr ((), w3)"
    and "Bucket_spill fuel b w3 = spill_root (Suc (Suc k)) b w4" and "leaf_commit w4 t x4 b m y" and "session w4 = session w"
    and "freelist w4 = freelist w"
  shows "leads_to fuel fn t b m w y"
proof -
  let ?w2 = "w2\<lparr>txHeap := (txHeap w2)(t \<mapsto> x2\<lparr>managed := False\<rparr>)\<rparr>"
  have "user_part fn t w = Inr (0, ?w2)" using assms(1,2) by (simp add: user_part_def act_simps set_managed_def upd_tx_def)
  moreover have "txHeap ?w2 t = Some (x2\<lparr>managed := False\<rparr>)" by simp
  moreover have "writable (x2\<lparr>managed := False\<rparr>)" "tx_db (x2\<lparr>managed := False\<rparr>)" "\<not> managed (x2\<lparr>managed := False\<rparr>)"
      "rootBucket (x2\<lparr>managed := False\<rparr>) = Some b" using assms(3-5) by simp_all
  ultimately show ?thesis unfolding leads_to_def using assms(6-10) by blast
qed

text \<open>A write transaction in its first state, on a database with the entries \<open>xs\<close>.\<close>

definition started :: "world \<Rightarrow> tx_ptr \<Rightarrow> tx \<Rightarrow> bucket_ptr \<Rightarrow> meta \<Rightarrow> inode list \<Rightarrow> bool" where
  "started w t x b m xs \<longleftrightarrow> begun w t x b (m\<lparr>meta_txid := meta_txid m + 1\<rparr>) \<and> writable x \<and> rwtx w = Some t \<and> leaf_db w m xs \<and> room 1 w m \<and> env_ok (env w)"

lemma room_next:
  assumes "room (Suc n) w m" and "committed v m w' m' xs" and "\<And>k. fl_fits (freelist v) k = fl_fits (freelist w) k" and "datasz w' = datasz w"
  shows "room n w' m'"
proof -
  have m': "meta_txid m' = meta_txid m + 1" "unat (totalPageNumber m') \<le> unat (totalPageNumber m) + 2"
      "\<forall>n. fl_fits (freelist v) (n + 2) \<longrightarrow> fl_fits (freelist w') n" using assms(2) by (simp_all add: committed_def)
  have r: "unat (meta_txid m) + Suc n < 2 ^ 64" "(unat (totalPageNumber m) + 2 * Suc n + 1) * 4096 \<le> nat (datasz w)"
      "fl_fits (freelist w) (2 * n + 2)" using assms(1) by (simp_all add: room_def)
  have "unat (meta_txid m') = unat (meta_txid m) + 1" using m'(1) r(1) by (simp add: unat_word_ariths)
  moreover have "(unat (totalPageNumber m') + 2 * n + 1) * 4096 \<le> (unat (totalPageNumber m) + 2 * Suc n + 1) * 4096"
    by (rule mult_le_mono1) (use m'(2) in simp)
  moreover have "fl_fits (freelist w') (2 * n)" using m'(3) r(3) assms(3) by blast
  ultimately show ?thesis using r(1,2) assms(4) by (simp add: room_def)
qed

lemma update_starts:
  assumes "idle w" and "leaf_db w m xs" and "room (Suc n) w m"
  obtains w1 t x b where "beginRWTx w = Inr (Some t, w1)" and "set_managed t True w1 = Inr ((), w1\<lparr>txHeap := (txHeap w1)(t \<mapsto> x\<lparr>managed := True\<rparr>)\<rparr>)"
    and "started (w1\<lparr>txHeap := (txHeap w1)(t \<mapsto> x\<lparr>managed := True\<rparr>)\<rparr>) t (x\<lparr>managed := True\<rparr>) b m xs"
    and "\<And>n. fl_fits (freelist w1) n = fl_fits (freelist w) n" and "session w1 = session (w\<lparr>rwtx := Some t, rwLock := True\<rparr>)"
proof -
  let ?m = "m\<lparr>meta_txid := meta_txid m + 1\<rparr>"
  obtain w1 t x b where b: "beginRWTx w = Inr (Some t, w1)" "begun w1 t x b ?m" "writable x" "leaf_db w1 m xs"
      "\<And>n. fl_fits (freelist w1) n = fl_fits (freelist w) n" "session w1 = session (w\<lparr>rwtx := Some t, rwLock := True\<rparr>)"
    by (rule beginRWTx_idle [OF assms(1,2)]) (rule that)
  let ?w1 = "w1\<lparr>txHeap := (txHeap w1)(t \<mapsto> x\<lparr>managed := True\<rparr>)\<rparr>"
  have s1: "set_managed t True w1 = Inr ((), ?w1)" using b(2) by (simp add: set_managed_def upd_tx_def act_simps begun_def)
  have "fl_fits (freelist w) (2 * 1)" using assms(3) by (simp add: room_def fl_fits_def)
  then have "room 1 w1 m" using assms(3) b(5,6) by (simp add: room_def session_parts)
  moreover have "leaf_db ?w1 m xs" by (rule leaf_db_cong [OF b(4)]) simp_all
  ultimately have "started ?w1 t (x\<lparr>managed := True\<rparr>) b m xs"
    using b(2,3,6) assms(1) by (simp add: started_def begun_def session_parts idle_def room_def)
  then show thesis using that b(1,5,6) s1 by blast
qed

lemma DB_update_leaf:
  assumes "idle w" and "leaf_db w m xs" and "room (Suc n) w m"
    and "\<And>w1 t x b. started w1 t x b m xs \<Longrightarrow> \<exists>y. leads_to fuel fn t b m w1 y \<and> P y"
  shows "\<exists>w' m' y. DB_update fuel [] fn w = Inr (0, w') \<and> idle w' \<and> leaf_db w' m' (stored_inodes y) \<and> room n w' m' \<and> P y"
proof -
  obtain w1 t x b where b: "beginRWTx w = Inr (Some t, w1)" "set_managed t True w1 = Inr ((), w1\<lparr>txHeap := (txHeap w1)(t \<mapsto> x\<lparr>managed := True\<rparr>)\<rparr>)"
      "started (w1\<lparr>txHeap := (txHeap w1)(t \<mapsto> x\<lparr>managed := True\<rparr>)\<rparr>) t (x\<lparr>managed := True\<rparr>) b m xs"
      "\<And>n. fl_fits (freelist w1) n = fl_fits (freelist w) n" "session w1 = session (w\<lparr>rwtx := Some t, rwLock := True\<rparr>)"
    by (rule update_starts [OF assms(1-3)]) (rule that)
  let ?w1 = "w1\<lparr>txHeap := (txHeap w1)(t \<mapsto> x\<lparr>managed := True\<rparr>)\<rparr>"
  from assms(4) [OF b(3)] obtain y w2 x2 w3 w4 x4 k where
    u: "user_part fn t ?w1 = Inr (0, w2)" "txHeap w2 t = Some x2" "writable x2" "tx_db x2" "\<not> managed x2" "rootBucket x2 = Some b"
      "Bucket_rebalance fuel b w2 = Inr ((), w3)" "Bucket_spill fuel b w3 = spill_root (Suc (Suc k)) b w4" "leaf_commit w4 t x4 b m y"
      "session w4 = session ?w1" "freelist w4 = freelist ?w1" "P y"
    unfolding leads_to_def by (elim exE conjE) (rule that)
  from Tx_commit_leaf [OF u(2-4,5-9)] obtain w5 m5 where c: "Tx_commit fuel [] t w2 = Inr (0, w5)" "committed w4 m w5 m5 (stored_inodes y)" by blast
  have s5: "session w5 = session (w\<lparr>rwtx := Some t, rwLock := True\<rparr>)"
    using c(2) u(10) b(5) by (simp add: committed_def session_def)
  let ?w = "w5\<lparr>rwtx := None, rwLock := False\<rparr>"
  have "DB_update fuel [] fn w = Inr (0, ?w)"
    using b(1,2) u(1) c(1) s5
    by (auto simp: DB_update_def user_part_def act_simps and_then_Inr_iff closeTx_def resetRWTX_def writerLeave_def session_parts)
  moreover have "leaf_db ?w m5 (stored_inodes y)" by (rule leaf_db_cong [of w5]) (use c(2) in \<open>simp_all add: committed_def\<close>)
  moreover have "room n ?w m5"
    using room_next [OF assms(3) c(2)] u(11) b(4) s5 by (simp add: room_def session_parts)
  moreover have "idle ?w" using s5 assms(1) by (simp add: idle_def session_parts)
  ultimately show ?thesis using u(12) by blast
qed

section \<open>Viewing\<close>

lemma beginTx_idle:
  assumes "idle w" and "leaf_db w m xs"
  obtains w' t x b where "beginTx w = Inr (Some t, w')" and "begun w' t x b m" and "\<not> writable x" and "leaf_db w' m xs"
    and "freelist w' = freelist w" and "session w' = session (w\<lparr>txs := [t], mmapReaders := 1\<rparr>)"
proof -
  have m: "DB_getMeta v = Inr (m, v)" if "mapped v = mapped w" "pageSize v = pageSize w" "AllocSize v = AllocSize w"
      "datasz v = datasz w" "disk v = disk w" "freelist v = freelist w" for v
    using leaf_db_meta [OF leaf_db_cong [OF assms(2) that]] .
  let ?t = "TxPtr (nextPtr w)" and ?b = "BucketPtr (Suc (nextPtr w))"
  let ?x = "Tx_new\<lparr>tx_db := True, metaData := Some m, rootBucket := Some ?b\<rparr>"
  let ?w = "w\<lparr>mmapReaders := 1, txs := [?t], nextPtr := Suc (Suc (nextPtr w)), txHeap := (txHeap w)(?t \<mapsto> ?x),
    bucketHeap := (bucketHeap w)(?b \<mapsto> (Bucket_new ?t)\<lparr>bucketHeader := meta_root m\<rparr>)\<rparr>"
  have "beginTx w = Inr (Some ?t, ?w)"
    using assms(1) by (simp add: beginTx_def act_simps idle_def lock_metaLock_def getMmapRLock_def new_tx_def Let_def upd_tx_def
        Tx_new_def Tx_init_def newBucket_def new_bucket_def m setBucketHeader_def upd_bucket_def isWritable_def unlock_metaLock_def)
  moreover have "leaf_db ?w m xs" by (rule leaf_db_cong [OF assms(2)]) simp_all
  ultimately show thesis
    by (intro that [of ?t ?w ?x ?b]) (simp_all add: begun_def Tx_new_def session_def)
qed

lemma DB_view_leaf:
  assumes "idle w" and "leaf_db w m xs" and "room n w m"
    and "\<And>w1 t x b. begun w1 t x b m \<Longrightarrow> \<not> writable x \<Longrightarrow> leaf_db w1 m xs \<Longrightarrow>
      \<exists>w2 x2. fn t w1 = Inr (rc, w2) \<and> db_rest w2 = db_rest w1 \<and> freelist w2 = freelist w1 \<and> txHeap w2 t = Some x2 \<and> tx_db x2 \<and> \<not> writable x2"
  shows "\<exists>w'. DB_view fn w = Inr (if rc = 0 then 0 else - 1, w') \<and> idle w' \<and> leaf_db w' m xs \<and> room n w' m"
proof -
  obtain w1 t x b where b: "beginTx w = Inr (Some t, w1)" "begun w1 t x b m" "\<not> writable x" "leaf_db w1 m xs" "freelist w1 = freelist w"
      "session w1 = session (w\<lparr>txs := [t], mmapReaders := 1\<rparr>)"
    by (rule beginTx_idle [OF assms(1,2)]) (rule that)
  let ?w1 = "w1\<lparr>txHeap := (txHeap w1)(t \<mapsto> x\<lparr>managed := True\<rparr>)\<rparr>"
  have s1: "set_managed t True w1 = Inr ((), ?w1)" using b(2) by (simp add: set_managed_def upd_tx_def act_simps begun_def)
  have "leaf_db ?w1 m xs" by (rule leaf_db_cong [OF b(4)]) simp_all
  moreover have "begun ?w1 t (x\<lparr>managed := True\<rparr>) b m" using b(2) by (simp add: begun_def)
  ultimately obtain w2 x2 where u: "fn t ?w1 = Inr (rc, w2)" "db_rest w2 = db_rest ?w1" "freelist w2 = freelist ?w1" "txHeap w2 t = Some x2"
      "tx_db x2" "\<not> writable x2" using assms(4) b(3) by fastforce
  have s2: "session w2 = session (w\<lparr>txs := [t], mmapReaders := 1\<rparr>)"
    using db_rest_session [OF u(2)] b(6) by (simp add: session_def)
  let ?w2 = "w2\<lparr>txHeap := (txHeap w2)(t \<mapsto> x2\<lparr>managed := False\<rparr>)\<rparr>"
  have "set_managed t False w2 = Inr ((), ?w2)" using u(4) by (simp add: set_managed_def upd_tx_def act_simps)
  moreover have "Tx_rollback t ?w2 = Inr (0, ?w2)" using u(5,6) by (simp add: Tx_rollback_def act_simps)
  moreover have "closeTx (Some t) ?w2 = Inr ((), ?w2\<lparr>mmapReaders := 0, txs := []\<rparr>)"
    using s2 assms(1)
    by (simp add: closeTx_def removeTx_def act_simps unlockMmapLock_def lock_metaLock_def unlock_metaLock_def session_parts idle_def)
  ultimately have "DB_view fn w = Inr (if rc = 0 then 0 else - 1, ?w2\<lparr>mmapReaders := 0, txs := []\<rparr>)"
    using b(1) s1 u(1) by (simp add: DB_view_def act_simps)
  moreover have "leaf_db (?w2\<lparr>mmapReaders := 0, txs := []\<rparr>) m xs"
    by (rule leaf_db_cong [OF b(4)]) (use u(2,3) in \<open>simp_all add: db_rest_def\<close>)
  moreover have "idle (?w2\<lparr>mmapReaders := 0, txs := []\<rparr>)" using s2 assms(1) by (simp add: idle_def session_parts)
  moreover have "room n (?w2\<lparr>mmapReaders := 0, txs := []\<rparr>) m"
    using assms(3) s2 u(3) b(5) by (simp add: room_def session_parts)
  ultimately show ?thesis by blast
qed

end
