(* ===== verification/Reopen.thy ===== *)
theory Reopen
  imports Leaf_Tx
begin

unbundle bit_operations_syntax

text \<open>
  \<open>DB::Open\<close> on a file that holds a database: whatever object wrote it, a new object finds the same
  entries, and the freelist it reads has the free pages and those that were pending.
\<close>

section \<open>The file\<close>

text \<open>The part of \<open>leaf_db\<close> that is in the file: \<open>fs\<close> are the ids on the page of the freelist.\<close>

definition db_file :: "buffer \<Rightarrow> meta \<Rightarrow> inode list \<Rightarrow> pgid list \<Rightarrow> bool" where
  "db_file d m xs fs \<longleftrightarrow> 8192 \<le> length d \<and> file_meta d = Inr m \<and> validate m \<and>
     read_meta (drop (unat (meta_txid m mod 2) * 4096) d) = Inr m \<and>
     (\<exists>m1. read_meta (drop ((1 - unat (meta_txid m mod 2)) * 4096) d) = Inr m1 \<and> validate m1) \<and>
     sorted fs \<and> distinct fs \<and> (\<forall>q \<in> set fs. 2 \<le> q \<and> q < totalPageNumber m) \<and> bh_root (meta_root m) \<noteq> freeListPageNumber m \<and>
     (\<forall>q \<in> {bh_root (meta_root m), freeListPageNumber m}. 2 \<le> q \<and> q < totalPageNumber m \<and> q \<notin> set fs) \<and>
     (\<exists>p. disk_page d (bh_root (meta_root m)) p \<and> page_inodes p = Inr (True, xs)) \<and>
     (\<exists>p. disk_page d (freeListPageNumber m) p \<and> (\<forall>g. freeList_read p g = Inr (reindex (g\<lparr>ids := fs\<rparr>))))"

lemma leaf_db_file:
  assumes "leaf_db w m xs"
  shows "db_file (disk w) m xs (sort (ids (freelist w) @ pending_ids (freelist w)))"
proof -
  have "fl_inv (freelist w)" "pages_below (freelist w) (totalPageNumber m)" "reopenable w m" using assms by (simp_all add: leaf_db_def)
  then show ?thesis
    using assms unfolding db_file_def leaf_db_def fl_inv_def pages_below_def reopenable_def by simp
qed

section \<open>Opening\<close>

lemma mmap_size_ok:
  fixes a b :: u32
  assumes "unat a \<le> 2 ^ 24" and "unat b \<le> 2 ^ 24"
  obtains s where "getMmapSize (max a b) = Inr (0, s)" and "unat a \<le> unat s" and "unat b \<le> unat s" and "unat s \<le> 2 ^ 24"
proof -
  let ?t = "max a b" and ?P = "\<lambda>i. 15 \<le> i \<and> unat (max a b) \<le> 2 ^ i"
  have t: "unat ?t \<le> 2 ^ 24" "unat a \<le> unat ?t" "unat b \<le> unat ?t" using assms by (auto simp: max_def word_le_nat_alt)
  then have P: "?P 24" by simp
  define k where "k = (LEAST i. ?P i)"
  have k: "?P k" "k \<le> 24" unfolding k_def using LeastI [of ?P, OF P] Least_le [of ?P, OF P] by blast+
  have "(2 :: nat) ^ k \<le> 2 ^ 24" by (rule power_increasing) (use k in simp_all)
  moreover from this have "unat (of_nat (2 ^ k) :: u32) = 2 ^ k" by (simp add: unat_of_nat del: of_nat_power)
  moreover have "\<exists>i. 15 \<le> i \<and> i < 31 \<and> unat ?t \<le> 2 ^ i" using P by (intro exI [of _ 24]) simp
  then have "getMmapSize ?t = Inr (0, of_nat (2 ^ k))" using getMmapSize_loop_upt [of 15 31 ?t] unfolding getMmapSize_def k_def by simp
  ultimately show thesis using that [of "of_nat (2 ^ k)"] t k by simp
qed

lemma reread_freelist:
  assumes "sorted fs" and "distinct fs" and "\<forall>q \<in> set fs. 2 \<le> q"
  defines "fl \<equiv> reindex (freeList_new\<lparr>ids := fs\<rparr>)"
  shows "fl_inv fl" and "ids fl = fs" and "pending_ids fl = []"
proof -
  have p: "pending_ids (freeList_new\<lparr>ids := fs\<rparr>) = []" "pending (freeList_new\<lparr>ids := fs\<rparr>) = []" by (simp_all add: pending_ids_def freeList_new_def)
  show "ids fl = fs" "pending_ids fl = []" using p by (simp_all add: fl_def)
  then show "fl_inv fl" using assms(1-3) p unfolding fl_inv_def fl_def by (simp add: cache_reindex)
qed

text \<open>A mapping of a file that shows the database.\<close>

lemma db_file_shown:
  assumes "db_file (disk w) m xs fs" and "mapped w" and "pageSize w = 4096" and "length (disk w) \<le> nat (datasz w)"
    and "unat (totalPageNumber m) * 4096 \<le> nat (datasz w)" and "datasz w \<le> DEFAULTALLOCSIZE" and "AllocSize w = DEFAULTALLOCSIZE"
  shows "DB_getMeta w = Inr (m, w)"
    and "\<exists>b. page_bytes w (MapPage (mapGen w) (freeListPageNumber m)) = Inr b \<and> freeList_read b g = Inr (reindex (g\<lparr>ids := fs\<rparr>))"
    and "leaf_db (w\<lparr>freelist := reindex (freeList_new\<lparr>ids := fs\<rparr>)\<rparr>) m xs"
proof -
  have f: "file_meta (disk w) = Inr m" "2 \<le> freeListPageNumber m" "freeListPageNumber m < totalPageNumber m"
    using assms(1) by (simp_all add: db_file_def)
  then have t: "3 \<le> unat (totalPageNumber m)" "unat (freeListPageNumber m) + 1 \<le> unat (totalPageNumber m)"
    by (simp_all add: word_less_nat_alt word_le_nat_alt)
  show "DB_getMeta w = Inr (m, w)" by (rule getMeta_mapped [OF assms(2,3) f(1)]) (use assms(5) t(1) in linarith)
  obtain p where p: "disk_page (disk w) (freeListPageNumber m) p" "freeList_read p g = Inr (reindex (g\<lparr>ids := fs\<rparr>))"
    using assms(1) by (auto simp: db_file_def)
  have "(unat (freeListPageNumber m) + 1) * 4096 \<le> nat (datasz w)" by (rule order_trans [OF mult_le_mono1 [OF t(2)] assms(5)])
  from disk_page_mapped [OF p(1) assms(2,3) this] obtain z where "page_bytes w (MapPage (mapGen w) (freeListPageNumber m)) = Inr (p @ z)"
    using assms(6) by (auto simp: DEFAULTALLOCSIZE_def)
  then show "\<exists>b. page_bytes w (MapPage (mapGen w) (freeListPageNumber m)) = Inr b \<and> freeList_read b g = Inr (reindex (g\<lparr>ids := fs\<rparr>))"
    using stableD [OF stable_freeList_read p(2)] by blast
  have "sorted fs" "distinct fs" "\<forall>q \<in> set fs. 2 \<le> q" using assms(1) by (simp_all add: db_file_def)
  note fl = reread_freelist [OF this]
  have "datasz w < 2 ^ 31" using assms(6) by (simp add: DEFAULTALLOCSIZE_def)
  then show "leaf_db (w\<lparr>freelist := reindex (freeList_new\<lparr>ids := fs\<rparr>)\<rparr>) m xs"
    using assms fl unfolding db_file_def leaf_db_def pages_below_def reopenable_def
    by (simp add: DEFAULTALLOCSIZE_def sorted_sort_id)
qed

lemma db_file_metas:
  assumes "db_file d m xs fs"
  obtains m0 m1 where "read_meta d = Inr m0" and "read_meta (drop 4096 d) = Inr m1" and "validate m0" and "validate m1"
proof -
  have "unat (meta_txid m mod 2) < 2" by (simp add: unat_mod)
  then show thesis using assms that by (cases "unat (meta_txid m mod 2) = 0") (auto simp: db_file_def less_2_cases_iff)
qed

text \<open>The object that \<open>DB::Open\<close> makes of a new one, before it reads the freelist.\<close>

definition opened_object :: "options \<Rightarrow> int \<Rightarrow> world \<Rightarrow> world" where
  "opened_object opts sz g = (DB_new g)\<lparr>opened := True, NoGrowSync := opt_NoGrowSync opts, AllocSize := DEFAULTALLOCSIZE, fd := 3,
     filesz := of_nat (length (disk g)), pageSize := 4096, clock := Suc (Suc (Suc (Suc (Suc (clock g))))), mapped := True,
     mapGen := Suc (mapGen g), datasz := sz, mmapWriter := False\<rparr>"

lemma open_steps:
  assumes "env_ok (env g)" and "\<not> opt_ReadOnly opts" and "8192 \<le> length (disk g)" and "unat (of_nat (length (disk g)) :: u32) = length (disk g)"
    and "read_meta (disk g) = Inr m0" and "read_meta (drop 4096 (disk g)) = Inr m1" and "validate m0"
    and "getMmapSize (max (of_nat (length (disk g))) (opt_InitialMMapSize opts)) = Inr (0, s)" and "8272 \<le> nat (sint s)"
    and "DB_getMeta (opened_object opts (sint s) g) = Inr (m, opened_object opts (sint s) g)"
    and "page_bytes (opened_object opts (sint s) g) (MapPage (mapGen (opened_object opts (sint s) g)) (freeListPageNumber m)) = Inr b"
    and "freeList_read b freeList_new = Inr fl"
  shows "DB_Open opts (DB_new g) = Inr (0, (opened_object opts (sint s) g)\<lparr>freelist := fl\<rparr>)"
proof -
  have t: "read_meta (take n (disk g)) = Inr m0" if "80 \<le> n" for n
    using assms(5) read_meta_prefix [of "take n (disk g)" "disk g"] that by simp
  have t1: "read_meta (drop 4096 (take (nat (sint s)) (disk g))) = Inr m1"
    using assms(6,9) read_meta_prefix [of "drop 4096 (take (nat (sint s)) (disk g))" "drop 4096 (disk g)"] by (simp add: drop_take min_def)
  have init: "initMeta (opt_InitialMMapSize opts) v = Inr (0, v\<lparr>clock := (if mapped v then 2 else 1) + clock v, mapped := True,
      mapGen := Suc (mapGen v), datasz := sint s, mmapWriter := False\<rparr>)"
    if "env_ok (env v)" "\<not> mmapWriter v" "mmapReaders v = 0" "pageSize v = 4096" "filesz v = of_nat (length (disk g))" "disk v = disk g" for v
    by (rule initMeta_ok [where ?m0.0 = m0 and ?m1.0 = m1])
      (use that assms t t1 in \<open>simp_all add: map_offset_def word_le_nat_alt\<close>)
  have "disk g \<noteq> []" "of_nat (length (disk g)) \<noteq> (0 :: u32)" "4096 - length (disk g) = 0" using assms(3,4) by auto
  then show ?thesis
    using assms(1,2,7,10-12) t [of 4096]
    by (simp add: DB_Open_def opened_object_def DB_new_def act_simps GetFileSize_def init DEFAULTPAGESIZE_def getPagePtr_def)
qed

lemma open_file:
  assumes "db_file (disk g) m xs fs" and "env_ok (env g)" and "length (disk g) \<le> 2 ^ 24" and "\<not> opt_ReadOnly opts"
    and "unat (totalPageNumber m) * 4096 \<le> unat (opt_InitialMMapSize opts)" and "unat (opt_InitialMMapSize opts) \<le> 2 ^ 24"
  shows "\<exists>w'. DB_Open opts (DB_new g) = Inr (0, w') \<and> idle w' \<and> leaf_db w' m xs \<and> unat (opt_InitialMMapSize opts) \<le> nat (datasz w') \<and>
    ids (freelist w') = fs \<and> pending_ids (freelist w') = [] \<and> disk w' = disk g"
proof -
  have len: "8192 \<le> length (disk g)" using assms(1) by (simp add: db_file_def)
  have fsz: "unat (of_nat (length (disk g)) :: u32) = length (disk g)" using assms(3) by (simp add: unat_of_nat)
  obtain m0 m1 where m: "read_meta (disk g) = Inr m0" "read_meta (drop 4096 (disk g)) = Inr m1" "validate m0" "validate m1"
    by (rule db_file_metas [OF assms(1)]) (rule that)
  obtain s where s: "getMmapSize (max (of_nat (length (disk g))) (opt_InitialMMapSize opts)) = Inr (0, s)" "length (disk g) \<le> unat s"
      "unat (opt_InitialMMapSize opts) \<le> unat s" "unat s \<le> 2 ^ 24"
    using mmap_size_ok [of "of_nat (length (disk g))" "opt_InitialMMapSize opts"] assms(3,6) fsz by metis
  have "int (unat s) \<le> int (2 ^ 24)" by (simp only: of_nat_le_iff s(4))
  moreover have "sint s = int (unat s)" by (rule sint_small) (use s(4) in simp)
  ultimately have si: "nat (sint s) = unat s" "sint s \<le> DEFAULTALLOCSIZE" by (simp_all add: DEFAULTALLOCSIZE_def)
  have "2 < totalPageNumber m" using assms(1) unfolding db_file_def by (metis insertI1 le_less_trans)
  then have big: "8272 \<le> nat (sint s)" using assms(5) s(3) si(1) by (simp add: word_less_nat_alt)
  let ?v = "opened_object opts (sint s) g" and ?fl = "reindex (freeList_new\<lparr>ids := fs\<rparr>)"
  have v: "db_file (disk ?v) m xs fs" "mapped ?v" "pageSize ?v = 4096" "length (disk ?v) \<le> nat (datasz ?v)"
      "unat (totalPageNumber m) * 4096 \<le> nat (datasz ?v)" "datasz ?v \<le> DEFAULTALLOCSIZE" "AllocSize ?v = DEFAULTALLOCSIZE"
    using assms(1,5) s(2,3) si by (simp_all add: opened_object_def DB_new_def)
  note shown = db_file_shown [OF v]
  obtain b where b: "page_bytes ?v (MapPage (mapGen ?v) (freeListPageNumber m)) = Inr b" "freeList_read b freeList_new = Inr ?fl"
    using shown(2) by blast
  have "DB_Open opts (DB_new g) = Inr (0, ?v\<lparr>freelist := ?fl\<rparr>)"
    by (rule open_steps [OF assms(2,4) len fsz m(1-3) s(1) big shown(1) b])
  moreover have "idle (?v\<lparr>freelist := ?fl\<rparr>)" using assms(2) by (simp add: idle_def opened_object_def DB_new_def)
  moreover have "sorted fs" "distinct fs" "\<forall>q \<in> set fs. 2 \<le> q" using assms(1) by (simp_all add: db_file_def)
  note fl = reread_freelist [OF this]
  ultimately show ?thesis
    using shown(3) fl(2,3) s(3) si(1) by (intro exI [of _ "?v\<lparr>freelist := ?fl\<rparr>"]) (simp add: opened_object_def DB_new_def)
qed

section \<open>A new file\<close>

lemma init_image_file:
  obtains img where "init_image 4096 = Inr img" and "length img = 16384" and "db_file img (init_meta_of 4096 1) [] []"
    and "read_meta img = Inr (init_meta_of 4096 0)"
proof -
  obtain img where img: "init_image 4096 = Inr img" "length img = 16384"
      "read_meta (image_page 4096 0 img) = Inr (init_meta_of 4096 0)" "read_meta (image_page 4096 1 img) = Inr (init_meta_of 4096 1)"
      "page_id (image_page 4096 2 img) = Inr 2" "page_count (image_page 4096 2 img) = Inr 0" "page_overflow (image_page 4096 2 img) = Inr 0"
      "page_id (image_page 4096 3 img) = Inr 3" "page_count (image_page 4096 3 img) = Inr 0" "page_overflow (image_page 4096 3 img) = Inr 0"
      "page_flag (image_page 4096 3 img) = Inr leafPageFlag"
    using init_image_spec [of 4096] by auto
  let ?p = "\<lambda>i. take 4096 (image_page 4096 i img)"
  have "length (image_page 4096 i img) = (4 - i) * 4096" for i using img(2) by (simp add: image_page_def diff_mult_distrib)
  then have len: "4096 \<le> length (image_page 4096 i img)" if "i < 4" for i using that by simp
  have pre: "page_id (?p i) = page_id (image_page 4096 i img)" "page_count (?p i) = page_count (image_page 4096 i img)"
      "page_overflow (?p i) = page_overflow (image_page 4096 i img)" "page_flag (?p i) = page_flag (image_page 4096 i img)" if "i < 4" for i
    using header_cong [of "?p i" "image_page 4096 i img"] read_bytes_take [OF _ len [OF that]] by simp_all
  have place: "disk_page img (of_nat i) (?p i)" if "i \<in> {2, 3}" for i
  proof -
    have "i < 4" using that by auto
    note i = len [OF this] pre [OF this]
    have "?p i = take 4096 (drop (i * 4096) img)" by (simp add: image_page_def)
    then have "\<exists>z. drop (i * 4096) img = ?p i @ z" by (metis append_take_drop_id)
    then show ?thesis using that i img(2,5,7,8,10) by (auto simp: disk_page_def stored_def)
  qed
  have root: "page_inodes (?p 3) = Inr (True, [])" using pre [of 3] img(9,11) by (simp add: page_inodes_def Let_def check_def leafPageFlag_def branchPageFlag_def)
  have fl: "freeList_read (?p 2) g = Inr (reindex (g\<lparr>ids := []\<rparr>))" for g using pre [of 2] img(6) by (simp add: freeList_read_empty)
  have metas: "read_meta img = Inr (init_meta_of 4096 0)" "read_meta (drop 4096 img) = Inr (init_meta_of 4096 1)"
    using img(3,4) by (simp_all add: image_page_def)
  have "disk_page img 3 (?p 3)" "disk_page img 2 (?p 2)" using place [of 3] place [of 2] by simp_all
  then have "db_file img (init_meta_of 4096 1) [] []"
    using img(2) metas getMeta_init [of 4096] validate_init_meta [of 4096] root fl
    unfolding db_file_def file_meta_def by (auto simp: init_meta_of_def)
  with that img(1,2) metas(1) show thesis by blast
qed

text \<open>Opening an empty file is opening the image of an empty database.\<close>

lemma open_empty:
  assumes "disk g = []" and "env_ok (env g)" and "getpagesize (env g) = 4096" and "init_image 4096 = Inr img" and "length img = 16384"
  shows "DB_Open opts (DB_new g) = DB_Open opts (DB_new (g\<lparr>disk := img, clock := Suc (Suc (clock g))\<rparr>))"
proof -
  have "file_write img 0 [] = img" using assms(5) by (auto simp: file_write_def)
  then show ?thesis
    using assms by (cases "read_meta (take 4096 img)"; cases g)
      (simp_all add: DB_Open_def DB_Init_def DB_new_def act_simps GetFileSize_def)
qed

text \<open>The options the sessions use: 16 MB are mapped from the start.\<close>

definition session_options :: options where
  "session_options = \<lparr>opt_NoGrowSync = False, opt_ReadOnly = False, opt_InitialMMapSize = 16777216\<rparr>"

lemma open_new_file:
  assumes "disk g = []" and "env_ok (env g)" and "getpagesize (env g) = 4096"
  shows "\<exists>w'. DB_Open session_options (DB_new g) = Inr (0, w') \<and> idle w' \<and> leaf_db w' (init_meta_of 4096 1) [] \<and> 2 ^ 24 \<le> nat (datasz w') \<and>
    ids (freelist w') = [] \<and> pending_ids (freelist w') = [] \<and> read_meta (disk w') = Inr (init_meta_of 4096 0)"
proof -
  obtain img where img: "init_image 4096 = Inr img" "length img = 16384" "db_file img (init_meta_of 4096 1) [] []"
      "read_meta img = Inr (init_meta_of 4096 0)" by (rule init_image_file)
  let ?g = "g\<lparr>disk := img, clock := Suc (Suc (clock g))\<rparr>"
  have f: "db_file (disk ?g) (init_meta_of 4096 1) [] []" "env_ok (env ?g)" "length (disk ?g) \<le> 2 ^ 24" using img(2,3) assms(2) by simp_all
  show ?thesis
    using open_file [OF f, of session_options] open_empty [OF assms img(1,2)] img(4) by (auto simp: session_options_def init_meta_of_def)
qed

end
