(* ===== verification/Torn_Meta.thy ===== *)
theory Torn_Meta
  imports Reopen
begin

unbundle bit_operations_syntax

text \<open>
  A write of a meta page that stops anywhere. The meta is stored field by field with little-endian integers
  and its transaction number comes last but one, before the checksum: whatever prefix of the new page reaches
  the file over an older meta, the page holds the new meta, or a number below the current one, or does not validate.
\<close>

section \<open>Prefixes of integers\<close>

lemma le_nat_append: "le_nat (xs @ ys) = le_nat xs + 256 ^ length xs * le_nat ys"
  by (induction xs) (simp_all add: algebra_simps)

lemma le_nat_less: "le_nat xs < 256 ^ length xs"
proof (induction xs)
  case (Cons x xs)
  have "unat x < 256" using unsigned_less [of x, where ?'a = nat] by simp
  then show ?case using Cons by simp
qed simp

lemma le_nat_take_drop:
  assumes "j \<le> length xs"
  shows "le_nat xs mod 256 ^ j = le_nat (take j xs)" and "le_nat xs div 256 ^ j = le_nat (drop j xs)"
proof -
  have e: "le_nat xs = le_nat (take j xs) + 256 ^ j * le_nat (drop j xs)"
    using le_nat_append [of "take j xs" "drop j xs"] assms by simp
  have l: "le_nat (take j xs) < 256 ^ j" using le_nat_less [of "take j xs"] assms by simp
  show "le_nat xs mod 256 ^ j = le_nat (take j xs)" "le_nat xs div 256 ^ j = le_nat (drop j xs)"
    unfolding e using l by simp_all
qed

text \<open>An older number whose low digits are replaced by those of the successor of the current one.\<close>

lemma torn_number:
  fixes t u B :: nat
  assumes "u < t" and "0 < B"
  shows "Suc t mod B + B * (u div B) < t \<or> Suc t mod B + B * (u div B) = Suc t"
proof (cases "B = 1 \<or> u div B = Suc t div B")
  case True
  then show ?thesis using assms(1) mod_mult_div_eq [of "Suc t" B] by auto
next
  case False
  have "u div B \<le> Suc t div B" using assms(1) by (intro div_le_mono) simp
  with False have "B * Suc (u div B) \<le> B * (Suc t div B)" by (intro mult_le_mono2) simp
  then have "B + B * (u div B) \<le> B * (Suc t div B)" by simp
  moreover have "Suc t mod B + B * (Suc t div B) = Suc t" by (rule mod_mult_div_eq)
  ultimately have "B + (Suc t mod B + B * (u div B)) \<le> Suc t" by linarith
  moreover have "2 \<le> B" using False assms(2) by auto
  ultimately show ?thesis by linarith
qed

lemma torn_u64:
  assumes "get_u64 b off = Inr x" and "get_u64 c off = Inr y" and "off \<le> n" and "n \<le> off + 8"
  shows "get_u64 (take n b @ drop n c) off = Inr (of_nat (unat x mod 256 ^ (n - off) + 256 ^ (n - off) * (unat y div 256 ^ (n - off))))"
proof -
  define j where "j = n - off"
  let ?X = "take 8 (drop off b)" and ?Y = "take 8 (drop off c)"
  have n: "n = off + j" "j \<le> 8" using assms(3,4) by (simp_all add: j_def)
  have len: "off + 8 \<le> length b" "off + 8 \<le> length c" and xy: "x = of_nat (le_nat ?X)" "y = of_nat (le_nat ?Y)"
    using assms(1,2) by (auto simp: get_defs read_bytes_def split: if_splits)
  have l: "length ?X = 8" "length ?Y = 8" using len by simp_all
  then have u: "unat x = le_nat ?X" "unat y = le_nat ?Y"
    using le_nat_less [of ?X] le_nat_less [of ?Y] xy by (simp_all add: unat_of_nat)
  have "take (8 - j) (drop (off + j) c) = drop j ?Y" by (simp add: drop_take add.commute)
  moreover have "take j (drop off b) = take j ?X" using n(2) by (simp add: min_def)
  ultimately have "take 8 (drop off (take n b @ drop n c)) = take j ?X @ drop j ?Y"
    using n len by (simp add: drop_take min_def)
  moreover have "le_nat (take j ?X @ drop j ?Y) = unat x mod 256 ^ j + 256 ^ j * (unat y div 256 ^ j)"
    using le_nat_append [of "take j ?X" "drop j ?Y"] le_nat_take_drop [of j ?X] le_nat_take_drop [of j ?Y] l u n(2) by simp
  moreover have "off + 8 \<le> length (take n b @ drop n c)" using n len by simp
  ultimately show ?thesis unfolding j_def [symmetric] by (simp add: get_defs read_bytes_def)
qed

section \<open>Prefixes of a meta page\<close>

lemma read_meta_txid: "read_meta p = Inr m \<Longrightarrow> get_u64 p 64 = Inr (meta_txid m)"
  by (auto simp: read_meta_def and_then_Inr_iff metaPtr_def PAGEHEADERSIZE_def)

lemma read_meta_total:
  assumes "80 \<le> length p"
  shows "\<exists>m. read_meta p = Inr m"
  using assms by (simp add: read_meta_def read_bucketHeader_def get_defs read_bytes_def metaPtr_def PAGEHEADERSIZE_def)

lemma read_meta_head:
  assumes "take 64 p = take 64 q" and "read_meta p = Inr m" and "read_meta q = Inr m'" and "meta_txid m' = meta_txid m"
  shows "m' = m\<lparr>checksum := checksum m'\<rparr>"
  using assms get_prefix [OF assms(1)]
  by (auto simp: read_meta_def read_bucketHeader_def and_then_Inr_iff metaPtr_def PAGEHEADERSIZE_def)

lemma torn_meta:
  assumes "read_meta b = Inr m" and "read_meta c = Inr m1" and "80 \<le> length b" and "80 \<le> length c"
    and "meta_txid m1 < t" and "meta_txid m = t + 1" and "t \<noteq> - 1"
  shows "\<exists>mt. read_meta (take n b @ drop n c) = Inr mt \<and> (meta_txid mt < t \<or> mt = m\<lparr>checksum := checksum mt\<rparr>)"
proof -
  let ?q = "take n b @ drop n c"
  have "80 \<le> length ?q" using assms(3,4) by simp
  then obtain mt where mt: "read_meta ?q = Inr mt" using read_meta_total by blast
  have t: "unat (t + 1) = Suc (unat t)" using unat_succ [OF assms(7)] .
  have u: "unat (meta_txid m1) < unat t" using assms(5) by (simp add: word_less_nat_alt)
  note tx = read_meta_txid [OF assms(1)] read_meta_txid [OF assms(2)] read_meta_txid [OF mt]
  have head: "mt = m\<lparr>checksum := checksum mt\<rparr>" if "64 \<le> n" "meta_txid mt = meta_txid m"
  proof (rule read_meta_head [OF _ assms(1) mt that(2)])
    show "take 64 b = take 64 ?q" using that(1) assms(3) by (simp add: min_def)
  qed
  consider "n < 64" | "64 \<le> n" "n \<le> 72" | "72 < n" by linarith
  then have "meta_txid mt < t \<or> mt = m\<lparr>checksum := checksum mt\<rparr>"
  proof cases
    case 1
    then have "drop 64 ?q = drop 64 c" "length c \<le> length ?q" using assms(3) by simp_all
    then have "get_u64 ?q 64 = get_u64 c 64" using assms(3,4) by (simp add: get_defs read_bytes_def)
    then show ?thesis using tx(2,3) assms(5) by simp
  next
    case 2
    let ?B = "256 ^ (n - 64) :: nat"
    let ?mix = "Suc (unat t) mod ?B + ?B * (unat (meta_txid m1) div ?B)"
    have e: "meta_txid mt = of_nat ?mix"
      using torn_u64 [OF tx(1,2), of n] tx(3) 2 assms(6) t by simp
    consider "?mix < unat t" | "?mix = Suc (unat t)" using torn_number [OF u, of ?B] by auto
    then show ?thesis
    proof cases
      case 1
      then have "meta_txid mt < t" using e unsigned_less [of t, where ?'a = nat]
        by (simp only: word_less_nat_alt unat_of_nat) simp
      then show ?thesis ..
    next
      case 2
      then have "meta_txid mt = meta_txid m" unfolding e assms(6) 2 by (simp add: algebra_simps)
      then show ?thesis using head \<open>64 \<le> n\<close> by blast
    qed
  next
    case 3
    then have "take 72 ?q = take 72 b" using assms(3) by (simp add: min_def)
    from get_prefix(2) [OF this, of 64] have "meta_txid mt = meta_txid m" using tx(1,3) by simp
    then show ?thesis using head 3 by simp
  qed
  with mt show ?thesis by blast
qed

section \<open>The current meta after a torn write\<close>

lemma file_write_prefix:
  assumes "off + length b \<le> length d"
  shows "file_write (take n b) off d = file_write (take n b @ drop n (take (length b) (drop off d))) off d"
proof (cases "n \<le> length b")
  case True
  then obtain k where k: "length b = n + k" using le_Suc_ex by blast
  have "drop n (take (length b) (drop off d)) @ drop (off + length b) d = take k (drop (off + n) d) @ drop k (drop (off + n) d)"
    unfolding k by (simp add: drop_take ac_simps)
  then have "drop (off + n) d = drop n (take (length b) (drop off d)) @ drop (off + length b) d" by (simp only: append_take_drop_id)
  moreover have "off + length (take n b @ drop n (take (length b) (drop off d))) = off + length b" "length (take n b) = n"
    using assms True by simp_all
  moreover have "off \<le> length d" "d = take off d @ drop off d" using assms by simp_all
  ultimately show ?thesis unfolding file_write_def by (cases "n = 0") (simp_all del: length_append length_take length_drop append_take_drop_id)
qed simp

lemma file_meta_torn:
  assumes "length b = 4096" and "read_meta b = Inr m" and "checksum m = 0" and "8192 \<le> length d" and "validate m" and "validate m0"
    and "read_meta (drop ((1 - unat (meta_txid m mod 2)) * 4096) d) = Inr m0" and "meta_txid m = meta_txid m0 + 1" and "meta_txid m0 \<noteq> - 1"
    and "read_meta (drop (unat (meta_txid m mod 2) * 4096) d) = Inr m1" and "meta_txid m1 < meta_txid m0"
  shows "file_meta (file_write (take n b) (unat (meta_txid m mod 2) * 4096) d) \<in> {Inr m0, Inr m}"
proof -
  let ?p = "unat (meta_txid m mod 2)"
  let ?c = "take 4096 (drop (?p * 4096) d)"
  let ?q = "take n b @ drop n ?c"
  have p: "?p < 2" by (simp add: unat_mod)
  then have c: "length ?c = 4096" "?p * 4096 + length b \<le> length d" using assms(1,4) by simp_all
  have "take 80 ?c = take 80 (drop (?p * 4096) d)" by simp
  then have "read_meta ?c = Inr m1" using read_meta_prefix assms(10) by metis
  moreover have "80 \<le> length b" "80 \<le> length ?c" unfolding assms(1) c(1) by simp_all
  ultimately obtain mt where mt: "read_meta ?q = Inr mt" "meta_txid mt < meta_txid m0 \<or> mt = m\<lparr>checksum := checksum mt\<rparr>"
    using torn_meta [OF assms(2) _ _ _ assms(11,8,9), of ?c n] by blast
  have q: "length ?q = 4096" using c(1) assms(1) by simp
  have lt: "meta_txid m0 < meta_txid m" using unat_succ [OF assms(9)] assms(8) by (simp add: word_less_nat_alt)
  have "mt = m" if "validate mt" "\<not> meta_txid mt < meta_txid m0"
  proof -
    have "checksum mt = 0" using that(1) by (auto simp: validate_def sum64_def split: if_splits)
    then show ?thesis using mt(2) that(2) assms(3) by (metis meta.surjective meta.update_convs(9))
  qed
  moreover have "meta_txid mt < meta_txid m0 \<or> meta_txid m0 < meta_txid mt"
    using mt(2) lt by (metis meta.select_convs(8) meta.surjective meta.update_convs(9))
  ultimately have "getMeta m0 mt \<in> {Inr m0, Inr m}" "getMeta mt m0 \<in> {Inr m0, Inr m}"
    using assms(6) by (auto simp: getMeta_def)
  then have "file_meta (file_write ?q (?p * 4096) d) \<in> {Inr m0, Inr m}"
    using meta_page_write [OF q mt(1) assms(4) p] assms(7) p by (cases "?p = 0") (simp_all add: file_meta_def less_2_cases_iff)
  then show ?thesis using file_write_prefix [OF c(2), of n] assms(1) by simp
qed

end
