(* ===== verification/Inline_Bucket.thy ===== *)
theory Inline_Bucket
  imports Leaf_Tx
begin

unbundle bit_operations_syntax

text \<open>
  Buckets stored in their entry. A value that holds a bucket is a header and a leaf page; \<open>Bucket::write\<close>
  makes one, and \<open>Bucket::openBucket\<close> finds the entries again, inside the page of the parent.
\<close>

section \<open>Values that hold a bucket\<close>

text \<open>The size of the page that a leaf with these entries takes.\<close>

definition leaf_bytes :: "inode list \<Rightarrow> nat" where
  "leaf_bytes xs = 16 + sum_list (map (\<lambda>i. 16 + content_bytes i) xs)"

definition inline_value :: "item \<Rightarrow> inode list \<Rightarrow> bool" where
  "inline_value v ys \<longleftrightarrow> item_wf v \<and> length (item_data v) = BUCKETHEADERSIZE + leaf_bytes ys \<and>
     (\<exists>h. read_bucketHeader (item_data v @ [0]) 0 = Inr h \<and> bh_root h = 0) \<and>
     page_id (drop BUCKETHEADERSIZE (item_data v)) = Inr 0 \<and> page_inodes (drop BUCKETHEADERSIZE (item_data v)) = Inr (True, ys)"

lemma node_bytes_leaf:
  assumes "\<forall>i \<in> set (inodeList y). inode_wf i"
  shows "node_bytes y = leaf_bytes (inodeList y)" and "leaf_bytes (stored_inodes y) = leaf_bytes (inodeList y)"
proof -
  have e: "map (inode_bytes y) (inodeList y) = map (\<lambda>i. 16 + content_bytes i) (inodeList y)"
    using assms by (auto simp: inode_bytes_def content_bytes_def inode_wf_def item_wf_def)
  show "node_bytes y = leaf_bytes (inodeList y)" unfolding node_bytes_def leaf_bytes_def PAGEHEADERSIZE_def e ..
  show "leaf_bytes (stored_inodes y) = leaf_bytes (inodeList y)"
    by (simp add: leaf_bytes_def stored_inodes_def content_bytes_def o_def)
qed

lemma header_bytes_read: "read_bucketHeader (bucketHeader_bytes h @ z) 0 = Inr h"
  by (simp add: read_bucketHeader_def get_defs read_bytes_def bucketHeader_bytes_def)

lemma Bucket_write_inline:
  assumes "bucketHeap w b = Some x" and "rootNode x = Some r" and "nodeHeap w r = Some y" and "leaf_ok y" and "node_bytes y < 2 ^ 31"
    and "root_page x = 0"
  shows "\<exists>v. Bucket_write b w = Inr (v, w) \<and> inline_value v (stored_inodes y)"
proof -
  let ?hdr = "bucketHeader_bytes (bucketHeader x)" and ?n = "node_bytes y"
  have size: "unat (of_nat BUCKETHEADERSIZE + Node_size y) = 16 + ?n"
    using assms(5) unat_Node_size [of y] by (simp add: unat_word_ariths BUCKETHEADERSIZE_def)
  have ns: "of_nat ?n = Node_size y" by (subst unat_Node_size [symmetric]) (use assms(5) in simp_all)
  have hdr: "length ?hdr = 16" by (simp add: bucketHeader_bytes_def)
  have n16: "16 \<le> ?n" by (simp add: node_bytes_def PAGEHEADERSIZE_def)
  have buf: "write_bytes (replicate (16 + ?n) 0) 0 ?hdr = Inr (?hdr @ replicate ?n 0)"
    using hdr by (simp add: write_bytes_def replicate_add)
  have "page_id (replicate ?n 0) = Inr 0" using n16 by (simp add: page_id_def get_defs read_bytes_def numeral_eq_Suc)
  then have pre: "?n \<le> length (replicate ?n (0 :: byte))" "length (replicate ?n (0 :: byte)) < 2 ^ 32" "page_id (replicate ?n 0) = Inr 0"
    using assms(5) by simp_all
  obtain p where p: "Node_write (page_address (env w) (nextPtr w)) (stack_address (env w)) y (replicate ?n 0) = Inr p" "length p = ?n"
      "page_id p = Inr 0" "page_inodes p = Inr (True, stored_inodes y)"
    by (rule Node_write_leaf [OF assms(4) pre]) (rule that, simp_all)
  let ?v = "\<lparr>item_data = ?hdr @ p, item_length = of_nat (16 + ?n)\<rparr> :: item"
  have "Bucket_write b w = Inr (?v, w)"
    using assms(1-3) size hdr buf p(1) ns
    by (simp add: Bucket_write_def act_simps Let_def on_page_def BUCKETHEADERSIZE_def)
  moreover have "leaf_bytes (stored_inodes y) = ?n" using node_bytes_leaf [of y] assms(4) by (auto simp: leaf_ok_def)
  then have "inline_value ?v (stored_inodes y)"
    using p hdr assms(6) size ns header_bytes_read [of "bucketHeader x" "p @ [0]"]
    by (simp add: inline_value_def BUCKETHEADERSIZE_def item_wf_def)
  ultimately show ?thesis by blast
qed

section \<open>Opening\<close>

text \<open>The bytes of a value, from its place in the page on.\<close>

lemma value_in_page:
  assumes "page_inodes bytes = Inr (True, xs)" and "i < length xs"
  obtains off z where "leafPageElement_valuePtr bytes i = Inr off" and "drop off bytes = item_data (inode_value (xs ! i)) @ z"
proof -
  obtain cnt :: u16 where cnt: "length xs = unat cnt" "read_inodes bytes True 0 (replicate (unat cnt) Inode_default) = Inr xs"
    using page_inodes_Inr [OF assms(1)] by blast
  have "read_inode bytes True i Inode_default = Inr (xs ! i)" using read_inodes_nth [OF cnt(2)] cnt(1) assms(2) by simp
  from leaf_inode_fields [OF this] obtain el where el: "getLeafPageElement bytes i = Inr el" "leafPageElement_value bytes i = Inr (inode_value (xs ! i))"
    by blast
  let ?off = "leafElementOffset i + unat (leaf_pos el + leaf_ksize el)"
  have "\<lparr>item_data = take (unat (leaf_vsize el)) (drop ?off bytes), item_length = leaf_vsize el\<rparr> = inode_value (xs ! i)"
    using el by (auto simp: leafPageElement_value_def leafPageElement_read_def Item_buf_def read_bytes_def and_then_Inr_iff split: if_splits)
  then have "item_data (inode_value (xs ! i)) = take (unat (leaf_vsize el)) (drop ?off bytes)" by (metis item.select_convs(1))
  then have "drop ?off bytes = item_data (inode_value (xs ! i)) @ drop (unat (leaf_vsize el)) (drop ?off bytes)"
    by (metis append_take_drop_id)
  moreover have "leafPageElement_valuePtr bytes i = Inr ?off" using el(1) by (simp add: leafPageElement_valuePtr_def)
  ultimately show thesis by (rule that [rotated])
qed

text \<open>A bucket that was just opened from the value \<open>v\<close> in a page.\<close>

definition opened_inline :: "world \<Rightarrow> bucket_ptr \<Rightarrow> tx_ptr \<Rightarrow> item \<Rightarrow> bool" where
  "opened_inline w c t v \<longleftrightarrow> (\<exists>h q z. bucketHeap w c = Some ((Bucket_new t)\<lparr>bucketHeader := h, bucket_page := Some q\<rparr>) \<and> bh_root h = 0 \<and>
     page_bytes w q = Inr (drop BUCKETHEADERSIZE (item_data v) @ z))"

lemma opened_inline_other: "opened_inline w c t v \<Longrightarrow> c \<noteq> b \<Longrightarrow> opened_inline (w\<lparr>bucketHeap := (bucketHeap w)(b \<mapsto> x)\<rparr>) c t v"
proof -
  have "page_bytes (w\<lparr>bucketHeap := g\<rparr>) p = page_bytes w p" for g p by (induction p) (simp_all add: map_offset_def)
  then show "opened_inline w c t v \<Longrightarrow> c \<noteq> b \<Longrightarrow> opened_inline (w\<lparr>bucketHeap := (bucketHeap w)(b \<mapsto> x)\<rparr>) c t v"
    unfolding opened_inline_def by simp
qed

lemma openBucket_page:
  assumes "bucketHeap w b = Some x" and "page_bytes w p = Inr bytes" and "page_inodes bytes = Inr (True, xs)" and "i < length xs"
    and "inline_value (inode_value (xs ! i)) ys"
  obtains w' where "openBucket b (inode_value (xs ! i)) (Some (p, i)) w = Inr (BucketPtr (nextPtr w), w')"
    and "opened_inline w' (BucketPtr (nextPtr w)) (bucket_tx x) (inode_value (xs ! i))"
    and "\<exists>y. w' = w\<lparr>nextPtr := Suc (nextPtr w), bucketHeap := (bucketHeap w)(BucketPtr (nextPtr w) \<mapsto> y)\<rparr>"
proof -
  let ?v = "inode_value (xs ! i)" and ?c = "BucketPtr (nextPtr w)"
  obtain off z where off: "leafPageElement_valuePtr bytes i = Inr off" "drop off bytes = item_data ?v @ z"
    by (rule value_in_page [OF assms(3,4)])
  obtain h where h: "read_bucketHeader (item_data ?v @ [0]) 0 = Inr h" "bh_root h = 0" and len: "BUCKETHEADERSIZE \<le> length (item_data ?v)"
    using assms(5) by (auto simp: inline_value_def)
  let ?y = "(Bucket_new (bucket_tx x))\<lparr>bucketHeader := h, bucket_page := Some (InsidePage p (off + BUCKETHEADERSIZE))\<rparr>"
  let ?w = "w\<lparr>nextPtr := Suc (nextPtr w), bucketHeap := (bucketHeap w)(?c \<mapsto> ?y)\<rparr>"
  have pb: "page_bytes (w\<lparr>nextPtr := k, bucketHeap := g\<rparr>) p = page_bytes w p" for k g
    by (induction p) (simp_all add: map_offset_def)
  have "openBucket b ?v (Some (p, i)) w = Inr (?c, ?w)"
    using assms(1,2) h off(1) pb
    by (simp add: openBucket_def act_simps newBucket_def new_bucket_def Let_def setBucketHeader_def upd_bucket_def)
  moreover have "drop (off + BUCKETHEADERSIZE) bytes = drop BUCKETHEADERSIZE (drop off bytes)" by (simp add: add.commute)
  then have "drop (off + BUCKETHEADERSIZE) bytes = drop BUCKETHEADERSIZE (item_data ?v) @ z" using off(2) len by simp
  then have "opened_inline ?w ?c (bucket_tx x) ?v"
    unfolding opened_inline_def using h(2) assms(2) pb
    by (intro exI [of _ h] exI [of _ "InsidePage p (off + BUCKETHEADERSIZE)"] exI [of _ z]) simp
  ultimately show thesis by (rule that) blast
qed

section \<open>Finding a bucket on the root page\<close>

text \<open>The root bucket \<open>b\<close> of the transaction \<open>t\<close> shows the leaf page of the committed state.\<close>

definition on_root_page :: "world \<Rightarrow> bucket_ptr \<Rightarrow> tx_ptr \<Rightarrow> (item \<times> bucket_ptr) list \<Rightarrow> inode list \<Rightarrow> bool" where
  "on_root_page w b t bs xs \<longleftrightarrow> (\<exists>x y m bytes. bucketHeap w b = Some x \<and> bucket_tx x = t \<and> rootNode x = None \<and> nodes x = [] \<and>
     bucket_parentNode x = None \<and> bucket_page x = None \<and> buckets x = bs \<and> root_page x \<noteq> 0 \<and> txHeap w t = Some y \<and> tx_db y \<and>
     metaData y = Some m \<and> dirtyPageTable y = [] \<and> root_page x < totalPageNumber m \<and>
     page_bytes w (MapPage (mapGen w) (root_page x)) = Inr bytes \<and> page_id bytes = Inr (root_page x) \<and> page_inodes bytes = Inr (True, xs))"

lemma on_root_pageD:
  assumes "on_root_page w b t bs xs"
  obtains x y p bytes where "bucketHeap w b = Some x" and "bucket_tx x = t" and "txHeap w t = Some y" and "rootNode x = None" and "nodes x = []"
    and "bucket_parentNode x = None" and "bucket_page x = None" and "buckets x = bs" and "getPageNode b (root_page x) w = Inr ((None, Some p), w)"
    and "page_bytes w p = Inr bytes" and "page_id bytes = Inr (root_page x)" and "page_inodes bytes = Inr (True, xs)"
    and "content w b (root_page x) = Inr (True, xs)" and "p = MapPage (mapGen w) (root_page x)"
proof -
  obtain x y m bytes where x: "bucketHeap w b = Some x" "bucket_tx x = t" "rootNode x = None" "nodes x = []" "bucket_parentNode x = None"
      "bucket_page x = None" "buckets x = bs" "root_page x \<noteq> 0" "txHeap w t = Some y" "tx_db y" "metaData y = Some m" "dirtyPageTable y = []"
      "root_page x < totalPageNumber m" "page_bytes w (MapPage (mapGen w) (root_page x)) = Inr bytes" "page_id bytes = Inr (root_page x)"
      "page_inodes bytes = Inr (True, xs)" using assms unfolding on_root_page_def by (elim exE conjE) (rule that)
  have g: "getPageNode b (root_page x) w = Inr ((None, Some (MapPage (mapGen w) (root_page x))), w)"
    using x(1-13) by (simp add: getPageNode_def act_simps Tx_getPage_def tx_meta_def getPagePtr_def not_le)
  moreover have "content w b (root_page x) = Inr (True, xs)"
    using g x(14,16) by (simp add: content_def ref_content_def ElementRef_def del: page_bytes.simps)
  ultimately show thesis using x by (intro that) simp_all
qed

text \<open>It depends on the file, the root bucket and the transaction.\<close>

lemma on_root_page_cong:
  assumes "on_root_page w b t bs xs" and "db_rest w' = db_rest w" and "bucketHeap w b = Some x" and "bucketHeap w' b = Some (x\<lparr>buckets := bs'\<rparr>)"
    and "txHeap w t = Some y" and "txHeap w' t = Some (y\<lparr>cursorCount := k, managed := g\<rparr>)"
  shows "on_root_page w' b t bs' xs"
proof -
  have "page_bytes w' (MapPage (mapGen w') q) = page_bytes w (MapPage (mapGen w) q)" for q
    using assms(2) by (simp add: db_rest_def map_offset_def)
  then show ?thesis using assms(1,3-6) unfolding on_root_page_def by (auto simp del: page_bytes.simps)
qed

lemma on_root_page_leaf:
  assumes "on_root_page w b t bs xs" and "in_write_tx w t k" and "leaf_inv xs"
  shows "leaf_bucket w b xs" and "solo w b"
  by (rule on_root_pageD [OF assms(1)]; use assms(2,3) in \<open>auto simp: leaf_bucket_def loadable_def solo_def\<close>)+

lemma begun_root_page:
  assumes "begun w t x b m'" and "leaf_db w m xs" and "meta_root m' = meta_root m" and "totalPageNumber m' = totalPageNumber m"
  shows "on_root_page w b t [] xs"
proof -
  let ?r = "bh_root (meta_root m)"
  obtain p where p: "disk_page (disk w) ?r p" "page_inodes p = Inr (True, xs)" and r: "2 \<le> ?r" "?r < totalPageNumber m"
    using assms(2) by (auto simp: leaf_db_def)
  have w: "mapped w" "pageSize w = 4096" "datasz w < 2 ^ 31" "unat (totalPageNumber m) * 4096 \<le> nat (datasz w)"
    using assms(2) by (simp_all add: leaf_db_def)
  have "(unat ?r + 1) * 4096 \<le> unat (totalPageNumber m) * 4096" using r(2) by (intro mult_le_mono1) (simp add: word_less_nat_alt)
  then have "(unat ?r + 1) * 4096 \<le> nat (datasz w)" using w(4) by (rule order_trans)
  from disk_page_mapped [OF p(1) w(1,2) this w(3)] obtain z where z: "page_bytes w (MapPage (mapGen w) ?r) = Inr (p @ z)" ..
  have "page_id (p @ z) = Inr ?r" using p(1) stableD [OF stable_header(1)] by (simp add: disk_page_def)
  moreover have "?r \<noteq> 0" using r(1) by auto
  ultimately show ?thesis
    using assms(1,3,4) r(2) z page_inodes_append [OF p(2), of z] unfolding on_root_page_def
    by (intro exI [of _ "(Bucket_new t)\<lparr>bucketHeader := meta_root m'\<rparr>"] exI [of _ x] exI [of _ m'] exI [of _ "p @ z"])
      (auto simp: begun_def Bucket_new_def)
qed

text \<open>The entry of a name.\<close>

definition entry_at :: "inode list \<Rightarrow> byte list \<Rightarrow> inode option" where
  "entry_at xs k = find (\<lambda>e. item_data (inode_key e) = k) xs"

lemma entry_at_search:
  fixes k :: "byte list"
  assumes "ascending (keys_of xs)"
  defines "i \<equiv> lower_bound (keys_of xs) k"
  shows "entry_at xs k = (if i < length xs \<and> item_data (inode_key (xs ! i)) = k then Some (xs ! i) else None)"
proof (cases "entry_at xs k")
  case None
  then have "\<forall>e \<in> set xs. item_data (inode_key e) \<noteq> k" by (auto simp: entry_at_def find_None_iff)
  then show ?thesis using None by (auto dest: nth_mem)
next
  case (Some e)
  then have e: "e \<in> set xs" "item_data (inode_key e) = k" by (auto simp: entry_at_def find_Some_iff)
  then have "k \<in> set (keys_of xs)" by auto
  then have "i < length xs" "item_data (inode_key (xs ! i)) = k"
    using lower_bound_mem [OF assms(1), of k] by (auto simp: i_def)
  moreover have "inj_on (\<lambda>e. item_data (inode_key e)) (set xs)"
    using assms(1) by (simp add: ascending_iff distinct_map)
  ultimately show ?thesis using Some e by (auto dest: inj_onD)
qed

text \<open>The state in which the bucket \<open>c\<close> with the name \<open>name\<close> was opened.\<close>

definition found_child :: "world \<Rightarrow> bucket_ptr \<Rightarrow> byte list \<Rightarrow> bucket_ptr \<Rightarrow> world \<Rightarrow> bool" where
  "found_child w b name c w' \<longleftrightarrow> c = BucketPtr (nextPtr w) \<and> (\<exists>x y. bucketHeap w b = Some x \<and>
     w' = (count_cursor b w)\<lparr>nextPtr := Suc (nextPtr w), bucketHeap := (bucketHeap w)(c \<mapsto> y, b \<mapsto> x\<lparr>buckets := [(Item_string name, c)]\<rparr>)\<rparr>)"

lemma getBucketByName_page:
  assumes "on_root_page w b t [] xs" and "leaf_inv xs" and "length xs < 2 ^ 32" and "key_ok name" and "b \<noteq> BucketPtr (nextPtr w)"
  shows "entry_at xs name = None \<Longrightarrow> getBucketByName (Suc fuel) b (Item_string name) w = Inr (None, count_cursor b w)"
    and "entry_at xs name = Some e \<Longrightarrow> inode_flag e AND bucketLeafFlag \<noteq> 0 \<Longrightarrow> inline_value (inode_value e) ys \<Longrightarrow>
      \<exists>c w'. getBucketByName (Suc fuel) b (Item_string name) w = Inr (Some c, w') \<and> found_child w b name c w' \<and>
        opened_inline w' c t (inode_value e)"
proof -
  obtain x y p bytes where x: "bucketHeap w b = Some x" "bucket_tx x = t" "txHeap w t = Some y" "buckets x = []"
      "getPageNode b (root_page x) w = Inr ((None, Some p), w)" "page_bytes w p = Inr bytes" "page_inodes bytes = Inr (True, xs)"
    by (rule on_root_pageD [OF assms(1)]) (rule that)
  let ?w = "count_cursor b w" and ?i = "lower_bound (keys_of xs) name"
  have asc: "ascending (keys_of xs)" using assms(2) by (simp add: leaf_inv_def)
  have gp: "getPageNode b (root_page x) ?w = Inr ((None, Some p), ?w)" using x(5) by (simp add: getPageNode_count_cursor)
  then have "content ?w b (root_page x) = Inr (True, xs)"
    using x(6,7) unfolding content_def by (simp add: ref_content_def ElementRef_def del: content_count_cursor)
  moreover have "bucketHeap ?w b = Some x" using x(1) by simp
  ultimately obtain s c r where s: "seek (Suc fuel) (Item_string name) (Cursor_new b) ?w = Inr ((s, c), ?w)"
      "getPageNode b (root_page x) ?w = Inr ((er_node r, er_page r), ?w)" "s = (if ?i < length xs then shown_at r ?i (xs ! ?i) else shown_reset)"
    using seek_leaf [of ?w b x xs fuel "Item_string name"] asc assms(3) unfolding Item_string_simps(1) by blast
  have r: "er_node r = None" "er_page r = Some p" using s(2) gp by simp_all
  have cur: "createCursor b w = Inr (Cursor_new b, ?w)" using createCursor_apply x(1-3) by simp
  note e = entry_at_search [OF asc, of name]
  show "getBucketByName (Suc fuel) b (Item_string name) w = Inr (None, ?w)" if "entry_at xs name = None"
    using that e s(1,3) cur x(1,4) assms(4)
    by (auto simp: getBucketByName_def act_simps find_bucket_def shown_reset_def Item_default_def key_ok_def split: if_splits)
  assume a: "entry_at xs name = Some e" "inode_flag e AND bucketLeafFlag \<noteq> 0" "inline_value (inode_value e) ys"
  then have i: "?i < length xs" "xs ! ?i = e" "item_data (inode_key e) = name" using e by (auto split: if_splits)
  have "page_bytes ?w p = Inr bytes" using x(6) by simp
  from openBucket_page [OF \<open>bucketHeap ?w b = Some x\<close> this x(7) i(1), of ys] a(3) i(2)
  obtain w' where w': "openBucket b (inode_value e) (Some (p, ?i)) ?w = Inr (BucketPtr (nextPtr w), w')"
      "opened_inline w' (BucketPtr (nextPtr w)) t (inode_value e)"
      "\<exists>y. w' = ?w\<lparr>nextPtr := Suc (nextPtr w), bucketHeap := (bucketHeap w)(BucketPtr (nextPtr w) \<mapsto> y)\<rparr>"
    using x(2) by auto
  let ?c = "BucketPtr (nextPtr w)" and ?x = "x\<lparr>buckets := [(Item_string name, BucketPtr (nextPtr w))]\<rparr>"
  let ?w' = "w'\<lparr>bucketHeap := (bucketHeap w')(b \<mapsto> ?x)\<rparr>"
  have "bucketHeap w' b = Some x" using w'(3) x(1) assms(5) by auto
  then have "getBucketByName (Suc fuel) b (Item_string name) w = Inr (Some ?c, ?w')"
    using s(1,3) cur x(1,4) a(2) i r w'(1)
    by (simp add: getBucketByName_def act_simps find_bucket_def shown_at_def upd_bucket_def)
  moreover have "found_child w b name ?c ?w'" using w'(3) x(1) by (auto simp: found_child_def)
  moreover have "opened_inline ?w' ?c t (inode_value e)" by (rule opened_inline_other [OF w'(2)]) (use assms(5) in simp)
  ultimately show "\<exists>c w'. getBucketByName (Suc fuel) b (Item_string name) w = Inr (Some c, w') \<and> found_child w b name c w' \<and>
      opened_inline w' c t (inode_value e)" by blast
qed

end
