(* ===== verification/Bucket_Db.thy ===== *)
theory Bucket_Db
  imports Inline_Bucket
begin

unbundle bit_operations_syntax

text \<open>
  The database as its user sees it: names of buckets, and in each bucket a map from keys to values.
  For databases whose root page is a leaf of inline buckets, \<open>DB::update\<close> with \<open>createBucket\<close>, \<open>put\<close> and
  \<open>remove\<close> changes this nested map, and \<open>DB::view\<close> with \<open>getBucket\<close> and \<open>get\<close> reads it, across transactions
  and through the file.
\<close>

section \<open>The nested map\<close>

definition inline_entries :: "item \<Rightarrow> inode list" where
  "inline_entries v = (case page_inodes (drop BUCKETHEADERSIZE (item_data v)) of Inr (_, ys) \<Rightarrow> ys | Inl _ \<Rightarrow> [])"

definition db_map :: "inode list \<Rightarrow> byte list \<Rightarrow> (byte list \<Rightarrow> item option) option" where
  "db_map xs name = map_option (\<lambda>e. entry_map (inline_entries (inode_value e))) (entry_at xs name)"

text \<open>Entries that can be stored, and a root page all of whose entries are inline buckets of values.\<close>

definition storable :: "inode list \<Rightarrow> bool" where
  "storable xs \<longleftrightarrow> leaf_inv xs \<and> (\<forall>e \<in> set xs. inode_wf e \<and> inode_pageId e = 0)"

definition bucket_entry :: "inode \<Rightarrow> bool" where
  "bucket_entry e \<longleftrightarrow> inode_flag e = bucketLeafFlag \<and> (\<exists>ys. inline_value (inode_value e) ys \<and> storable ys \<and> plain ys)"

definition db_ok :: "inode list \<Rightarrow> bool" where
  "db_ok xs \<longleftrightarrow> storable xs \<and> (\<forall>e \<in> set xs. bucket_entry e)"

lemma inline_entries_eq: "inline_value v ys \<Longrightarrow> inline_entries v = ys"
  by (simp add: inline_value_def inline_entries_def)

lemma bucketLeafFlag_nonzero [simp]: "bucketLeafFlag \<noteq> 0"
  by (simp add: bucketLeafFlag_def)

lemma db_okD:
  assumes "db_ok xs" and "entry_at xs name = Some e"
  obtains ys where "inode_flag e = bucketLeafFlag" and "inline_value (inode_value e) ys" and "storable ys" and "plain ys"
    and "db_map xs name = Some (entry_map ys)" and "e \<in> set xs"
proof -
  have "e \<in> set xs" using assms(2) by (auto simp: entry_at_def find_Some_iff)
  then show thesis using assms that inline_entries_eq by (auto simp: db_ok_def bucket_entry_def db_map_def)
qed

text \<open>The size of a leaf bounds the number of its entries and their sizes.\<close>

lemma leaf_bytes_bounds:
  shows "16 * length xs + 16 \<le> leaf_bytes xs" and "e \<in> set xs \<Longrightarrow> 32 + content_bytes e \<le> leaf_bytes xs"
proof -
  show "16 * length xs + 16 \<le> leaf_bytes xs" by (induction xs) (simp_all add: leaf_bytes_def)
  assume "e \<in> set xs"
  then have "16 + content_bytes e \<le> sum_list (map (\<lambda>i. 16 + content_bytes i) xs)" by (intro member_le_sum_list) auto
  then show "32 + content_bytes e \<le> leaf_bytes xs" by (simp add: leaf_bytes_def)
qed

lemma leaf_okI: "storable (inodeList y) \<Longrightarrow> isLeaf y \<Longrightarrow> leaf_bytes (inodeList y) < 4096 \<Longrightarrow> leaf_ok y \<and> node_bytes y = leaf_bytes (inodeList y)"
  using leaf_bytes_bounds(1) [of "inodeList y"] node_bytes_leaf(1) [of y] item_wf_length
  by (auto simp: leaf_ok_def storable_def leaf_inv_def)

lemma stored_inodes_id: "storable (inodeList y) \<Longrightarrow> stored_inodes y = inodeList y"
  unfolding stored_inodes_def storable_def by (intro map_idI) auto

section \<open>Changing entries\<close>

text \<open>Where an entry goes: between \<open>us\<close> and \<open>vs\<close>, in the place of the one with its key if there is one.\<close>

lemma entry_split:
  assumes "leaf_inv xs"
  obtains us vs where "xs = (case entry_at xs k of None \<Rightarrow> us @ vs | Some e \<Rightarrow> us @ e # vs)" and "del_entry k xs = us @ vs"
    and "\<And>flag v. key_ok k \<Longrightarrow> put_entry k flag v xs = us @ put_inode (Item_string k) v 0 flag # vs"
proof -
  let ?i = "lower_bound (keys_of xs) k"
  have asc: "ascending (keys_of xs)" using assms by (simp add: leaf_inv_def)
  note e = entry_at_search [OF asc, of k]
  have mem: "k \<in> set (keys_of xs) \<longleftrightarrow> ?i < length xs \<and> item_data (inode_key (xs ! ?i)) = k" using lower_bound_mem [OF asc, of k] by auto
  show thesis
  proof (cases "k \<in> set (keys_of xs)")
    case True
    then have "entry_at xs k = Some (xs ! ?i)" "xs = take ?i xs @ xs ! ?i # drop (Suc ?i) xs"
      using e mem id_take_nth_drop [of ?i xs] by (simp_all del: set_map)
    then show thesis
      using True del_entry_inodes [OF assms, of k] put_entry_inodes [OF assms, of k] by (intro that [of "take ?i xs" "drop (Suc ?i) xs"]) (simp_all del: set_map)
  next
    case False
    then have "entry_at xs k = None" using e mem by (simp del: set_map)
    then show thesis
      using False del_entry_inodes [OF assms, of k] put_entry_inodes [OF assms, of k] by (intro that [of "take ?i xs" "drop ?i xs"]) (simp_all del: set_map)
  qed
qed

lemma leaf_bytes_simps [simp]: "leaf_bytes (e # xs) = 16 + content_bytes e + leaf_bytes xs" "leaf_bytes (us @ e # vs) = 16 + content_bytes e + leaf_bytes (us @ vs)"
  by (simp_all add: leaf_bytes_def)

lemma edit_sizes:
  assumes "leaf_inv xs"
  shows "leaf_bytes (del_entry k xs) \<le> leaf_bytes xs"
    and "key_ok k \<Longrightarrow> leaf_bytes (put_entry k flag v xs) \<le> leaf_bytes xs + 16 + length k + length (item_data v)"
    and "key_ok k \<Longrightarrow> entry_at xs k = Some e \<Longrightarrow>
      leaf_bytes (put_entry k flag v xs) + length (item_data (inode_value e)) = leaf_bytes xs + length (item_data v)"
proof -
  obtain us vs where s: "xs = (case entry_at xs k of None \<Rightarrow> us @ vs | Some e \<Rightarrow> us @ e # vs)" "del_entry k xs = us @ vs"
      "\<And>flag v. key_ok k \<Longrightarrow> put_entry k flag v xs = us @ put_inode (Item_string k) v 0 flag # vs"
    by (rule entry_split [OF assms, of k]) (rule that)
  have le: "leaf_bytes (us @ vs) \<le> leaf_bytes xs" by (subst s(1)) (simp split: option.split)
  then show "leaf_bytes (del_entry k xs) \<le> leaf_bytes xs" using s(2) by simp
  assume k: "key_ok k"
  have p: "leaf_bytes (put_entry k flag v xs) = leaf_bytes (us @ vs) + 16 + length k + length (item_data v)"
    using s(3) [OF k] by (simp add: content_bytes_def put_inode_def)
  then show "leaf_bytes (put_entry k flag v xs) \<le> leaf_bytes xs + 16 + length k + length (item_data v)" using le by simp
  assume e: "entry_at xs k = Some e"
  then have "item_data (inode_key e) = k" by (auto simp: entry_at_def find_Some_iff)
  moreover have "leaf_bytes xs = leaf_bytes (us @ e # vs)" using arg_cong [OF s(1), of leaf_bytes] e by simp
  ultimately show "leaf_bytes (put_entry k flag v xs) + length (item_data (inode_value e)) = leaf_bytes xs + length (item_data v)"
    using p by (simp add: content_bytes_def)
qed

lemma edit_set:
  assumes "leaf_inv xs"
  shows "set (del_entry k xs) \<subseteq> set xs" and "key_ok k \<Longrightarrow> set (put_entry k flag v xs) \<subseteq> insert (put_inode (Item_string k) v 0 flag) (set xs)"
proof -
  obtain us vs where s: "xs = (case entry_at xs k of None \<Rightarrow> us @ vs | Some e \<Rightarrow> us @ e # vs)" "del_entry k xs = us @ vs"
      "\<And>flag v. key_ok k \<Longrightarrow> put_entry k flag v xs = us @ put_inode (Item_string k) v 0 flag # vs"
    by (rule entry_split [OF assms, of k]) (rule that)
  have "set us \<union> set vs \<subseteq> set xs" by (subst s(1)) (auto split: option.split)
  then show "set (del_entry k xs) \<subseteq> set xs" "key_ok k \<Longrightarrow> set (put_entry k flag v xs) \<subseteq> insert (put_inode (Item_string k) v 0 flag) (set xs)"
    using s(2,3) by auto
qed

lemma storable_edit:
  assumes "storable xs"
  shows "storable (del_entry k xs)" and "key_ok k \<Longrightarrow> item_wf v \<Longrightarrow> storable (put_entry k flag v xs)"
proof -
  have inv: "leaf_inv xs" using assms by (simp add: storable_def)
  show "storable (del_entry k xs)" using assms edit_set(1) [OF inv, of k] leaf_inv_edit(2) [OF inv] by (auto simp: storable_def)
  assume k: "key_ok k" "item_wf v"
  then have "inode_wf (put_inode (Item_string k) v 0 flag)" by (simp add: inode_wf_def put_inode_def key_ok_def item_wf_def unat_of_nat)
  then show "storable (put_entry k flag v xs)"
    using assms edit_set(2) [OF inv k(1), of flag v] leaf_inv_edit(1) [OF inv k(1)] by (auto simp: storable_def put_inode_def)
qed

text \<open>How the entry of a key changes.\<close>

lemma entry_at_put:
  assumes "leaf_inv xs" and "key_ok k"
  shows "entry_at (put_entry k flag v xs) j = (if j = k then Some (put_inode (Item_string k) v 0 flag) else entry_at xs j)"
proof -
  obtain us vs where s: "xs = (case entry_at xs k of None \<Rightarrow> us @ vs | Some e \<Rightarrow> us @ e # vs)"
      "\<And>flag v. key_ok k \<Longrightarrow> put_entry k flag v xs = us @ put_inode (Item_string k) v 0 flag # vs"
    by (rule entry_split [OF assms(1), of k]) (rule that)
  have "k \<notin> set (keys_of us)"
  proof -
    have "distinct (keys_of (put_entry k flag v xs))"
      using leaf_inv_edit(1) [OF assms] by (simp add: leaf_inv_def ascending_iff)
    then show ?thesis using s(2) [OF assms(2)] by (auto simp: put_inode_def)
  qed
  then have "find (\<lambda>e. item_data (inode_key e) = k) us = None" by (auto simp: find_None_iff)
  moreover have "entry_at xs j = entry_at (us @ vs) j" if "j \<noteq> k"
  proof (cases "entry_at xs k")
    case None
    then show ?thesis using s(1) by simp
  next
    case (Some e)
    then have "item_data (inode_key e) = k" by (auto simp: entry_at_def find_Some_iff)
    moreover have "xs = us @ e # vs" using s(1) Some by simp
    ultimately show ?thesis using that by (simp add: entry_at_def find_append split: option.split)
  qed
  ultimately show ?thesis
    using s(2) [OF assms(2), of flag v] by (auto simp: entry_at_def find_append put_inode_def split: option.split)
qed

section \<open>An opened bucket\<close>

lemma opened_content:
  assumes "opened_inline w c t v" and "inline_value v ys"
  obtains x q bytes where "bucketHeap w c = Some x" and "bucket_tx x = t" and "root_page x = 0" and "rootNode x = None" and "nodes x = []"
    and "bucket_parentNode x = None" and "bucket_page x = Some q" and "getPageNode c (root_page x) w = Inr ((None, Some q), w)"
    and "page_bytes w q = Inr bytes" and "page_id bytes = Inr 0" and "page_inodes bytes = Inr (True, ys)" and "buckets x = []"
    and "content w c (root_page x) = Inr (True, ys)"
proof -
  obtain h q z where o: "bucketHeap w c = Some ((Bucket_new t)\<lparr>bucketHeader := h, bucket_page := Some q\<rparr>)" "bh_root h = 0"
      "page_bytes w q = Inr (drop BUCKETHEADERSIZE (item_data v) @ z)" using assms(1) by (auto simp: opened_inline_def)
  have "page_id (drop BUCKETHEADERSIZE (item_data v) @ z) = Inr 0" "page_inodes (drop BUCKETHEADERSIZE (item_data v) @ z) = Inr (True, ys)"
    using assms(2) stableD [OF stable_header(1)] page_inodes_append by (auto simp: inline_value_def)
  then show thesis
    using o by (intro that [of "(Bucket_new t)\<lparr>bucketHeader := h, bucket_page := Some q\<rparr>" q])
      (simp_all add: Bucket_new_def getPageNode_def act_simps content_def ref_content_def ElementRef_def)
qed

lemma opened_leaf_bucket:
  assumes "opened_inline w c t v" and "inline_value v ys" and "leaf_inv ys" and "in_write_tx w t k"
  shows "leaf_bucket w c ys" and "solo w c"
  by (rule opened_content [OF assms(1,2)]; use assms(3,4) in \<open>auto simp: leaf_bucket_def loadable_def solo_def\<close>)+

lemma opened_get:
  assumes "opened_inline w c t v" and "inline_value v ys" and "leaf_inv ys" and "plain ys" and "length ys < 2 ^ 32" and "txHeap w t = Some y" and "key_ok k"
  shows "Bucket_get (Suc fuel) c (Item_string k) w = Inr (case entry_map ys k of None \<Rightarrow> Item_default | Some v \<Rightarrow> v, count_cursor c w)"
  by (rule opened_content [OF assms(1,2)], rule get_content) (use assms in auto)

section \<open>Reading\<close>

text \<open>
  A user function for \<open>DB::view\<close>: look up a bucket and a key in it, and return what \<open>obs\<close> makes of the value found
  (of \<open>None\<close> when there is no such bucket).
\<close>

definition lookup_fn :: "nat \<Rightarrow> byte list \<Rightarrow> byte list \<Rightarrow> (item option \<Rightarrow> int) \<Rightarrow> tx_ptr \<Rightarrow> int act" where
  "lookup_fn fuel name k obs t =
     bnd (Tx_getBucket fuel t (Item_string name)) (\<lambda>c.
     case c of
       None \<Rightarrow> ret (obs None)
     | Some c \<Rightarrow> bnd (Bucket_get fuel c (Item_string k)) (\<lambda>v. ret (obs (Some v))))"

text \<open>What it finds: \<open>Bucket::get\<close> answers with the empty item for a key that is absent.\<close>

definition found_in :: "(byte list \<Rightarrow> (byte list \<Rightarrow> item option) option) \<Rightarrow> byte list \<Rightarrow> byte list \<Rightarrow> item option" where
  "found_in M name k = map_option (\<lambda>f. case f k of None \<Rightarrow> Item_default | Some v \<Rightarrow> v) (M name)"

lemma count_cursor_rest [simp]: "db_rest (count_cursor b w) = db_rest w" "freelist (count_cursor b w) = freelist w"
  by (simp_all add: count_cursor_def db_rest_def split: option.split)

lemma count_cursor_tx: "txHeap w t = Some x \<Longrightarrow> \<exists>c. txHeap (count_cursor b w) t = Some (x\<lparr>cursorCount := c\<rparr>)"
  by (cases x) (auto simp: txHeap_count_cursor split: option.split)

lemma found_child_rest:
  assumes "found_child w b name c w'" and "txHeap w t = Some x"
  shows "db_rest w' = db_rest w" and "freelist w' = freelist w" and "\<exists>k. txHeap w' t = Some (x\<lparr>cursorCount := k\<rparr>)"
proof -
  obtain g where w': "w' = (count_cursor b w)\<lparr>nextPtr := Suc (nextPtr w), bucketHeap := g\<rparr>"
    using assms(1) by (auto simp: found_child_def)
  have "db_rest (u\<lparr>nextPtr := k, bucketHeap := g\<rparr>) = db_rest u" for u k g by (simp add: db_rest_def)
  then show "db_rest w' = db_rest w" "freelist w' = freelist w" using w' by simp_all
  show "\<exists>k. txHeap w' t = Some (x\<lparr>cursorCount := k\<rparr>)" using w' count_cursor_tx [OF assms(2), of b] by simp
qed

lemma lookup_fn_spec:
  assumes "begun w t x b m" and "leaf_db w m xs" and "db_ok xs" and "length xs < 2 ^ 32" and "leaf_bytes xs < 4096" and "key_ok name" and "key_ok k"
  shows "\<exists>w' c. lookup_fn (Suc fuel) name k obs t w = Inr (obs (found_in (db_map xs) name k), w') \<and> db_rest w' = db_rest w \<and>
    freelist w' = freelist w \<and> txHeap w' t = Some (x\<lparr>cursorCount := c\<rparr>)"
proof -
  have inv: "leaf_inv xs" using assms(3) by (simp add: db_ok_def storable_def)
  have b: "txHeap w t = Some x" "rootBucket x = Some b" "b \<noteq> BucketPtr (nextPtr w)" using assms(1) by (auto simp: begun_def)
  have get: "Tx_getBucket (Suc fuel) t (Item_string name) w = getBucketByName (Suc fuel) b (Item_string name) w"
    using b(1,2) by (simp add: Tx_getBucket_def tx_root_def act_simps)
  note page = getBucketByName_page [OF begun_root_page [OF assms(1,2)] inv assms(4,6) b(3), simplified, where fuel = fuel]
  show ?thesis
  proof (cases "entry_at xs name")
    case None
    then show ?thesis
      using page(1) get count_cursor_tx [OF b(1), of b] by (auto simp: lookup_fn_def act_simps found_in_def db_map_def)
  next
    case (Some e)
    obtain ys where ys: "inode_flag e = bucketLeafFlag" "inline_value (inode_value e) ys" "storable ys" "plain ys"
        "db_map xs name = Some (entry_map ys)" "e \<in> set xs" by (rule db_okD [OF assms(3) Some])
    obtain c w1 where c: "getBucketByName (Suc fuel) b (Item_string name) w = Inr (Some c, w1)" "found_child w b name c w1"
        "opened_inline w1 c t (inode_value e)" using page(2) [OF Some _ ys(2)] ys(1) by auto
    obtain j where j: "txHeap w1 t = Some (x\<lparr>cursorCount := j\<rparr>)" using found_child_rest(3) [OF c(2) b(1)] by blast
    have "length (item_data (inode_value e)) \<le> leaf_bytes xs"
      using leaf_bytes_bounds(2) [OF ys(6)] by (simp add: content_bytes_def)
    then have "length ys < 2 ^ 32" using leaf_bytes_bounds(1) [of ys] ys(2) assms(5) by (simp add: inline_value_def)
    then have "Bucket_get (Suc fuel) c (Item_string k) w1 =
        Inr (case entry_map ys k of None \<Rightarrow> Item_default | Some v \<Rightarrow> v, count_cursor c w1)"
      by (intro opened_get [OF c(3) ys(2) _ ys(4) _ j assms(7)]) (use ys(3) in \<open>simp_all add: storable_def\<close>)
    moreover obtain i where "txHeap (count_cursor c w1) t = Some (x\<lparr>cursorCount := i\<rparr>)" using count_cursor_tx [OF j, of c] by auto
    ultimately show ?thesis
      using get c(1) ys(5) found_child_rest [OF c(2) b(1)] by (auto simp: lookup_fn_def act_simps found_in_def)
  qed
qed

lemma view_lookup:
  assumes "idle w" and "leaf_db w m xs" and "room n w m" and "db_ok xs" and "leaf_bytes xs < 4096" and "key_ok name" and "key_ok k"
  shows "\<exists>w'. DB_view (lookup_fn (Suc fuel) name k obs) w = Inr (if obs (found_in (db_map xs) name k) = 0 then 0 else - 1, w') \<and>
    idle w' \<and> leaf_db w' m xs \<and> room n w' m"
proof (rule DB_view_leaf [OF assms(1-3)])
  fix w1 t x b
  assume a: "begun w1 t x b m" "\<not> writable x" "leaf_db w1 m xs"
  have len: "length xs < 2 ^ 32" using leaf_bytes_bounds(1) [of xs] assms(5) by simp
  show "\<exists>w2 x2. lookup_fn (Suc fuel) name k obs t w1 = Inr (obs (found_in (db_map xs) name k), w2) \<and> db_rest w2 = db_rest w1 \<and>
      freelist w2 = freelist w1 \<and> txHeap w2 t = Some x2 \<and> tx_db x2 \<and> \<not> writable x2"
    using lookup_fn_spec [OF a(1,3) assms(4) len assms(5-7), of fuel obs] a(1,2) by (auto simp: begun_def)
qed

end
