(* ===== verification/Bucket_Update.thy ===== *)
theory Bucket_Update
  imports Bucket_Db
begin

unbundle bit_operations_syntax

text \<open>
  Update transactions on a database of inline buckets: creating a bucket and editing the entries of one,
  from the beginning of the transaction to the committed file.
\<close>

section \<open>Writing an entry of the root\<close>

lemma put_child_ok:
  assumes "leaf_bucket w b xs" and "length xs < 2 ^ 32" and "key_ok name" and "entry_at xs name = Some e" and "inode_flag e = bucketLeafFlag"
  shows "\<exists>w'. put_child (Suc fuel) b (Item_string name) v w = Inr (True, w') \<and> leaf_bucket w' b (put_entry name bucketLeafFlag v xs) \<and>
    edits b w w' \<and> (solo w b \<longrightarrow> loaded w' b)"
proof -
  have inv: "leaf_inv xs" using assms(1) by (rule leaf_bucket_inv)
  let ?i = "lower_bound (keys_of xs) name"
  obtain x t s c n c' w' x' tp where r: "bucketHeap w b = Some x" "txHeap w (bucket_tx x) = Some t" "tx_db t" "writable t"
      "createCursor b w = Inr (Cursor_new b, count_cursor b w)"
      "seek (Suc fuel) (Item_string name) (Cursor_new b) (count_cursor b w) = Inr ((s, c), count_cursor b w)"
      "if ?i < length xs then sh_key s = inode_key (xs ! ?i) \<and> sh_flag s = inode_flag (xs ! ?i) else s = shown_reset"
      "Cursor_getNode c (count_cursor b w) = Inr ((n, c'), w')" "holds_root w' b x' n xs" "in_write_tx w' (bucket_tx x') tp" "edits b w w'"
    by (rule edit_root [OF assms(1,2), where key = "Item_string name" and fuel = fuel, unfolded Item_string_simps(1)]) (rule that)
  have "ascending (keys_of xs)" using inv by (simp add: leaf_inv_def)
  from entry_at_search [OF this, of name] assms(4) have "?i < length xs" "xs ! ?i = e" "item_data (inode_key e) = name"
    by (auto split: if_splits)
  then have s: "\<not> Item_neq (sh_key s) (Item_string name)" "sh_flag s AND bucketLeafFlag \<noteq> 0"
    using r(7) assms(5) by (simp_all add: Item_neq_def)
  from put_held [OF r(9,10) inv assms(3), of v bucketLeafFlag] obtain w'' where
    put: "put_in_node n (Item_string name) (Item_string name) v 0 bucketLeafFlag w' = Inr (True, w'')"
      "leaf_bucket w'' b (put_entry name bucketLeafFlag v xs)" "holds_root w'' b x' n (put_entry name bucketLeafFlag v xs)" "edits b w' w''" by blast
  have "put_child (Suc fuel) b (Item_string name) v w = Inr (True, w'')"
    unfolding put_child_def using r(5,6,8) s put(1) by (simp add: act_simps)
  moreover have e: "edits b w w''" by (rule edits_trans [OF r(11) put(4)])
  moreover have "loaded w'' b" if "solo w b" using held_loaded [OF put(3)] e that by (simp add: edits_def)
  ultimately show ?thesis using put(2) by blast
qed

section \<open>Ready to commit\<close>

lemma started_in_write:
  assumes "started w t x b m xs" and "txHeap w' t = Some (x\<lparr>cursorCount := k, managed := g\<rparr>)"
  shows "\<exists>tp. in_write_tx w' t tp"
proof -
  have m: "metaData x = Some (m\<lparr>meta_txid := meta_txid m + 1\<rparr>)" "tx_db x" "writable x" using assms(1) by (simp_all add: started_def begun_def)
  have db: "leaf_db w m xs" using assms(1) by (simp add: started_def)
  then have "bh_root (meta_root m) < totalPageNumber m" "unat (totalPageNumber m) * 4096 \<le> nat (datasz w)" "datasz w < 2 ^ 31"
    by (simp_all add: leaf_db_def)
  then have "0 < unat (totalPageNumber m)" "unat (totalPageNumber m) < 2 ^ 32" by (auto simp: word_less_nat_alt)
  then have "(ucast (totalPageNumber m) :: u32) \<noteq> 0"
    by (auto simp: word_unat_eq_iff unsigned_ucast_eq take_bit_eq_mod)
  then show ?thesis using assms(2) m by (auto simp: in_write_tx_def)
qed

text \<open>
  The transaction that began in \<open>w\<close> has come to \<open>w'\<close> without touching the file, the freelist or the mapping, and its
  root is a node with the entries \<open>xs\<close>.
\<close>

definition root_edited :: "world \<Rightarrow> world \<Rightarrow> tx_ptr \<Rightarrow> tx \<Rightarrow> bucket_ptr \<Rightarrow> meta \<Rightarrow> inode list \<Rightarrow> bool" where
  "root_edited w w' t x b m xs \<longleftrightarrow> db_rest w' = db_rest w \<and> freelist w' = freelist w \<and>
     (\<exists>k g. txHeap w' t = Some (x\<lparr>cursorCount := k, managed := g\<rparr>)) \<and> leaf_bucket w' b xs \<and> solo w' b \<and> loaded w' b \<and>
     (\<exists>bk. bucketHeap w' b = Some bk \<and> bucketHeader bk = meta_root m \<and> bucket_tx bk = t)"

lemma root_editedI:
  assumes "db_rest v = db_rest w" and "freelist v = freelist w" and "txHeap v t = Some (x\<lparr>cursorCount := k, managed := g\<rparr>)"
    and "bucketHeap v b = Some bk" and "bucketHeader bk = meta_root m" and "bucket_tx bk = t" and "edits b v w'" and "leaf_bucket w' b xs"
    and "solo v b" and "loaded w' b"
  shows "root_edited w w' t x b m xs"
proof -
  obtain j where "txHeap w' t = Some (x\<lparr>cursorCount := k, managed := g\<rparr>\<lparr>cursorCount := j\<rparr>)" using editsD(8) [OF assms(7,3)] by blast
  then have "txHeap w' t = Some (x\<lparr>cursorCount := j, managed := g\<rparr>)" by simp
  then show ?thesis
    using assms(1,2,5,6,8-10) editsD(1,2,4) [OF assms(7)] editsD(7) [OF assms(7,4)] unfolding root_edited_def by auto
qed

lemma root_edited_node:
  assumes "started w t x b m xs0" and "root_edited w w' t x b m xs"
  obtains bk n y where "bucketHeap w' b = Some bk" and "bucketHeader bk = meta_root m" and "bucket_tx bk = t" and "rootNode bk = Some n"
    and "nodes bk = [(root_page bk, n)]" and "root_cached bk = Some n" and "nodeHeap w' n = Some y" and "lone_leaf b (root_page bk) y" and "inodeList y = xs"
proof -
  obtain bk where e: "leaf_bucket w' b xs" "solo w' b" "loaded w' b" "bucketHeap w' b = Some bk" "bucketHeader bk = meta_root m" "bucket_tx bk = t"
    using assms(2) by (auto simp: root_edited_def)
  have "2 \<le> root_page bk" using assms(1) e(5) by (simp add: started_def leaf_db_def)
  then have nz: "root_page bk \<noteq> 0" by auto
  obtain n y where n: "rootNode bk = Some n" "nodes bk = [(root_page bk, n)]" "nodeHeap w' n = Some y" "lone_leaf b (root_page bk) y"
    using e(2-4) nz by (auto simp: solo_def loaded_def)
  have rc: "root_cached bk = Some n" using n(2) nz by (simp add: root_cached_def)
  from content_cached [OF e(4) rc n(3)] e(1,4) have "inodeList y = xs" by (auto simp: leaf_bucket_def)
  then show thesis using e(4-6) n rc by (intro that)
qed

text \<open>Rebalancing and the end of the user function do not change this.\<close>

lemma root_edited_settled:
  assumes "started w t x b m xs0" and "root_edited w w' t x b m xs" and "txHeap w' t = Some y" and "cleared (nodeHeap w') h"
  shows "root_edited w (w'\<lparr>txHeap := (txHeap w')(t \<mapsto> y\<lparr>managed := False\<rparr>), nodeHeap := h\<rparr>) t x b m xs" (is "root_edited w ?w t x b m xs")
proof -
  obtain bk n nd where r: "bucketHeap w' b = Some bk" "bucketHeader bk = meta_root m" "bucket_tx bk = t" "rootNode bk = Some n"
      "nodes bk = [(root_page bk, n)]" "root_cached bk = Some n" "nodeHeap w' n = Some nd" "lone_leaf b (root_page bk) nd" "inodeList nd = xs"
    by (rule root_edited_node [OF assms(1,2)]) (rule that)
  obtain nd' where nd': "h n = Some nd'" "nd' = nd \<or> nd' = nd\<lparr>unbalanced := False\<rparr>" by (rule clearedD [OF assms(4) r(7)])
  then have lone: "lone_leaf b (root_page bk) nd'" "inodeList nd' = xs" using r(8,9) by (auto simp: lone_leaf_def)
  obtain k g where "y = x\<lparr>cursorCount := k, managed := g\<rparr>" using assms(2,3) by (auto simp: root_edited_def)
  then have tx: "txHeap ?w t = Some (x\<lparr>cursorCount := k, managed := False\<rparr>)" by simp
  then obtain tp where tp: "in_write_tx ?w t tp" using started_in_write [OF assms(1)] by blast
  have h: "holds_root ?w b bk n xs" using r(1,6) nd'(1) lone by (simp add: holds_root_def lone_leaf_def)
  have "leaf_inv xs" using assms(2) leaf_bucket_inv by (auto simp: root_edited_def)
  moreover have "in_write_tx ?w (bucket_tx bk) tp" using tp r(3) by simp
  ultimately have "leaf_bucket ?w b xs" by (intro leaf_bucketI [OF h])
  moreover have "solo ?w b" "loaded ?w b" using r(1,4,5) nd'(1) lone by (auto simp: solo_def loaded_def)
  ultimately show ?thesis using assms(2) r(1-3) tx unfolding root_edited_def by auto
qed

lemma root_edited_commit:
  assumes "started w t x b m xs0" and "root_edited w w' t x b m xs" and "storable xs" and "leaf_bytes xs < 4096"
  shows "\<exists>x' y. leaf_commit w' t x' b m y \<and> inodeList y = xs \<and> session w' = session w"
proof -
  have st: "begun w t x b (m\<lparr>meta_txid := meta_txid m + 1\<rparr>)" "rwtx w = Some t" "leaf_db w m xs0" "room 1 w m" "env_ok (env w)"
    using assms(1) by (simp_all add: started_def)
  obtain k g where e: "db_rest w' = db_rest w" "freelist w' = freelist w" "txHeap w' t = Some (x\<lparr>cursorCount := k, managed := g\<rparr>)"
    using assms(2) by (auto simp: root_edited_def)
  obtain bk n y where n: "bucketHeap w' b = Some bk" "bucketHeader bk = meta_root m" "bucket_tx bk = t" "rootNode bk = Some n"
      "nodeHeap w' n = Some y" "lone_leaf b (root_page bk) y" "inodeList y = xs"
    by (rule root_edited_node [OF assms(1,2)]) (rule that)
  note rest = db_restD [OF e(1)]
  have ok: "leaf_ok y \<and> node_bytes y = leaf_bytes xs" using leaf_okI [of y] assms(3,4) n(6,7) by (simp add: lone_leaf_def)
  have "leaf_root w' t b bk n y" using n ok assms(4) by (simp add: leaf_root_def lone_leaf_def)
  moreover have "leaf_db w' m xs0" by (rule leaf_db_cong [OF st(3)]) (use rest e(2) in simp_all)
  moreover have "writer w' t (x\<lparr>cursorCount := k, managed := g\<rparr>) (m\<lparr>meta_txid := meta_txid m + 1\<rparr>)"
    using e(3) st(1,2) rest by (simp add: writer_def begun_def)
  moreover have "node_pageId y = bh_root (meta_root m)" using n(2,6) by (simp add: lone_leaf_def)
  moreover have "meta_txid m \<noteq> - 1" using st(4) by (auto simp: room_def unsigned_minus_1_eq_mask mask_eq_exp_minus_1)
  ultimately have "leaf_commit w' t (x\<lparr>cursorCount := k, managed := g\<rparr>) b m y"
    using st rest e(2) by (auto simp: leaf_commit_def begun_def room_def)
  then show ?thesis using n(7) db_rest_session [OF e(1)] by blast
qed

section \<open>Spilling the sub-buckets\<close>

lemma Item_buf_header: "\<exists>v. Item_buf (bucketHeader_bytes h) 0 (of_nat BUCKETHEADERSIZE) = Inr v"
  by (simp add: Item_buf_def read_bytes_def bucketHeader_bytes_def BUCKETHEADERSIZE_def)

text \<open>A sub-bucket that was only opened is left alone.\<close>

lemma Bucket_spill_untouched:
  assumes "bucketHeap w b = Some x" and "buckets x = [(name, c)]" and "bucketHeap w c = Some y" and "rootNode y = None" and "buckets y = []"
  shows "Bucket_spill (Suc (Suc fuel)) b w = spill_root (Suc fuel) b w"
proof -
  obtain v where "Item_buf (bucketHeader_bytes (bucketHeader y)) 0 (of_nat BUCKETHEADERSIZE) = Inr v" using Item_buf_header by blast
  moreover have "spill_root fuel c w = Inr (True, w)" using assms(3,4) by (simp add: spill_root_def act_simps)
  ultimately show ?thesis using assms by (simp add: act_simps isInlineable_def)
qed

text \<open>A small sub-bucket with changes becomes the new value of its entry.\<close>

lemma Bucket_spill_inline:
  assumes "bucketHeap w b = Some x" and "buckets x = [(name, c)]" and "bucketHeap w c = Some y" and "rootNode y = Some r" and "nodeHeap w r = Some n"
    and "root_page y = 0" and "isLeaf n" and "Node_isinlineable maxInlineBucketSize n" and "Bucket_write c w = Inr (v, w)"
    and "put_child fuel b name v w = Inr (True, w')"
  shows "Bucket_spill (Suc fuel) b w = spill_root fuel b w'"
  using assms by (simp add: act_simps isInlineable_def Bucket_free_def)

lemma small_inlineable:
  assumes "storable (inodeList n)" and "plain (inodeList n)" and "leaf_bytes (inodeList n) \<le> 1024"
  shows "Node_isinlineable maxInlineBucketSize n"
proof (cases "inodeList n")
  case (Cons j js)
  have b: "node_bytes n = leaf_bytes (inodeList n)" using node_bytes_leaf(1) [of n] assms(1) by (simp add: storable_def)
  then have "unat (Node_size n) \<le> 1024" using unat_Node_size [of n] assms(3) by simp
  then show ?thesis
    using isinlineable_loop_eq [of "of_nat PAGEHEADERSIZE" n "inodeList n" maxInlineBucketSize] assms(2,3) b Cons
    by (auto simp: Node_isinlineable_def word_le_nat_alt unat_Node_size node_bytes_def plain_def maxInlineBucketSize_def)
qed (simp add: Node_isinlineable_def)

section \<open>Editing a bucket\<close>

text \<open>What an operation adds to the size of the leaf at most, and the operations that can be stored.\<close>

fun op_bytes :: "item map_op \<Rightarrow> nat" where
  "op_bytes (Put k v) = 16 + length k + length (item_data v)"
| "op_bytes (Del k) = 1"

fun small_op :: "item map_op \<Rightarrow> bool" where
  "small_op (Put k v) \<longleftrightarrow> key_ok k \<and> item_wf v"
| "small_op (Del k) \<longleftrightarrow> key_ok k"

text \<open>
  A leaf bucket that may still grow by \<open>n\<close> bytes, up to \<open>L\<close>, and whose root is a node once anything was done
  (\<open>N\<close> is what it could grow by at first).
\<close>

definition may_grow :: "nat \<Rightarrow> nat \<Rightarrow> bucket_ptr \<Rightarrow> world \<Rightarrow> nat \<Rightarrow> world \<Rightarrow> bool" where
  "may_grow L N b w0 n w \<longleftrightarrow> (\<exists>xs. leaf_bucket w b xs \<and> plain xs \<and> storable xs \<and> leaf_bytes xs + n \<le> L) \<and> L \<le> 1024 \<and>
     solo w b \<and> edits b w0 w \<and> (n < N \<longrightarrow> loaded w b)"

lemma may_grow_step:
  assumes "may_grow L N b w0 (n + Suc c) w" and "leaf_bucket w' b xs" and "plain xs" and "storable xs" and "leaf_bytes xs + n \<le> L"
    and "edits b w w'" and "solo w b \<longrightarrow> loaded w' b"
  shows "may_grow L N b w0 n w'"
proof -
  have "solo w b" "edits b w0 w" "L \<le> 1024" using assms(1) by (simp_all add: may_grow_def)
  then have "solo w' b" "edits b w0 w'" "loaded w' b" using assms(6,7) edits_trans by (auto simp: edits_def)
  then show ?thesis using assms(2-5) \<open>L \<le> 1024\<close> by (auto simp: may_grow_def)
qed

interpretation sized_store: kv_store op_bytes "may_grow L N b w0" small_op "bucket_map b"
  "\<lambda>k. Bucket_put (Suc fuel) b (Item_string k)" "\<lambda>k. Bucket_remove (Suc fuel) b (Item_string k)"
  "\<lambda>k. Bucket_get (Suc fuel) b (Item_string k)" for L N w0 b fuel
proof (unfold_locales, goal_cases)
  case (1 n k v w)
  then obtain xs where xs: "leaf_bucket w b xs" "plain xs" "storable xs" "leaf_bytes xs + (n + op_bytes (Put k v)) \<le> L" "L \<le> 1024"
    by (auto simp: may_grow_def)
  have k: "key_ok k" "item_wf v" "length k \<le> 32768" "item_length v \<le> MAXVALUESIZE"
    using 1(2) xs(4,5) by (auto simp: item_wf_def word_le_nat_alt MAXVALUESIZE_def)
  note inv = leaf_bucket_inv [OF xs(1)]
  have len: "length xs < 2 ^ 32" using leaf_bytes_bounds(1) [of xs] xs(4,5) by simp
  obtain w' where w': "Bucket_put (Suc fuel) b (Item_string k) v w = Inr (0, w')" "leaf_bucket w' b (put_entry k 0 v xs)" "edits b w w'"
      "solo w b \<longrightarrow> loaded w' b"
    using put_leaf [OF xs(1) len k(1,3,4)] xs(2) unfolding plain_def by blast
  have "may_grow L N b w0 n w'"
    by (rule may_grow_step [OF _ w'(2) plain_edit(1) [OF inv xs(2) k(1)] storable_edit(2) [OF xs(3) k(1,2)] _ w'(3,4), where c = "15 + length k + length (item_data v)"])
      (use 1(1) edit_sizes(2) [OF inv k(1), of 0 v] xs(4) in \<open>simp_all add: ac_simps\<close>)
  then show ?case using w'(1,2) xs(1) entry_map_edit(1) [OF inv k(1), of v] by (auto simp: bucket_map_leaf)
next
  case (2 n k w)
  then obtain xs where xs: "leaf_bucket w b xs" "plain xs" "storable xs" "leaf_bytes xs + (n + op_bytes (Del k)) \<le> L" "L \<le> 1024"
    by (auto simp: may_grow_def)
  note inv = leaf_bucket_inv [OF xs(1)]
  have k: "key_ok k" using 2(2) by simp
  have len: "length xs < 2 ^ 32" using leaf_bytes_bounds(1) [of xs] xs(4,5) by simp
  obtain w' where w': "Bucket_remove (Suc fuel) b (Item_string k) w = Inr (0, w')" "leaf_bucket w' b (del_entry k xs)" "edits b w w'"
      "solo w b \<longrightarrow> loaded w' b"
    using remove_leaf [OF xs(1) len k xs(2)] by blast
  have "may_grow L N b w0 n w'"
    by (rule may_grow_step [OF _ w'(2) plain_edit(2) [OF inv xs(2)] storable_edit(1) [OF xs(3)] _ w'(3,4), where c = 0])
      (use 2(1) edit_sizes(1) [OF inv, of k] xs(4) in simp_all)
  then show ?case using w'(1,2) xs(1) entry_map_edit(2) [OF inv, of k] by (auto simp: bucket_map_leaf)
next
  case (3 n w k)
  then obtain xs where xs: "leaf_bucket w b xs" "plain xs" "storable xs" "leaf_bytes xs + n \<le> L" "L \<le> 1024" by (auto simp: may_grow_def)
  have len: "length xs < 2 ^ 32" using leaf_bytes_bounds(1) [of xs] xs(4,5) by simp
  have "may_grow L N b w0 n (count_cursor b w)"
    using 3(1) xs get_leaf(2) [OF xs(1) len 3(2) xs(2)] edits_trans [of b w0 w "count_cursor b w"]
    by (auto simp: may_grow_def solo_def loaded_def)
  then show ?case using get_leaf [OF xs(1) len 3(2) xs(2)] xs(1) by (auto simp: bucket_map_leaf)
qed

lemma bucket_run_sized:
  assumes "leaf_bucket w b xs" and "plain xs" and "storable xs" and "solo w b" and "ops \<noteq> []" and "\<forall>a \<in> set ops. small_op a"
    and "leaf_bytes xs + sum_list (map op_bytes ops) \<le> 1024"
  obtains w' xs' where "bucket_run (Suc fuel) b ops w = Inr (0, w')" and "leaf_bucket w' b xs'" and "plain xs'" and "storable xs'"
    and "leaf_bytes xs' \<le> leaf_bytes xs + sum_list (map op_bytes ops)" and "entry_map xs' = fold apply_op ops (entry_map xs)"
    and "edits b w w'" and "solo w' b" and "loaded w' b"
proof -
  let ?c = "sum_list (map op_bytes ops)" and ?L = "leaf_bytes xs + sum_list (map op_bytes ops)"
  obtain a as where ops: "ops = a # as" using assms(5) by (cases ops) auto
  have "0 < op_bytes a" by (cases a) simp_all
  then have "0 < ?c" using ops by simp
  moreover have "may_grow ?L ?c b w (0 + ?c) w" using assms by (auto simp: may_grow_def)
  ultimately obtain w' where w': "bucket_run (Suc fuel) b ops w = Inr (0, w')" "may_grow ?L ?c b w 0 w'" "bucket_map b w' = fold apply_op ops (bucket_map b w)"
    using sized_store.run_spec [of ?L ?c b w 0 ops w fuel] assms(6) by (auto simp: bucket_run_eq)
  then obtain xs' where "leaf_bucket w' b xs'" "plain xs'" "storable xs'" "leaf_bytes xs' \<le> ?L" "edits b w w'" "solo w' b" "loaded w' b"
    using \<open>0 < ?c\<close> by (auto simp: may_grow_def)
  then show thesis using w' assms(1) by (intro that [of w' xs']) (simp_all add: bucket_map_leaf)
qed

section \<open>A transaction that edits a bucket\<close>

text \<open>
  The transaction that began in \<open>w\<close> has come to \<open>w'\<close>, where the sub-bucket \<open>c\<close> with the name \<open>name\<close> has the entries \<open>ys\<close>
  in a node and nothing else has changed.
\<close>

definition child_edited :: "world \<Rightarrow> world \<Rightarrow> tx_ptr \<Rightarrow> tx \<Rightarrow> bucket_ptr \<Rightarrow> meta \<Rightarrow> byte list \<Rightarrow> bucket_ptr \<Rightarrow> inode list \<Rightarrow> bool" where
  "child_edited w w' t x b m name c ys \<longleftrightarrow> db_rest w' = db_rest w \<and> freelist w' = freelist w \<and>
     (\<exists>k g. txHeap w' t = Some (x\<lparr>cursorCount := k, managed := g\<rparr>)) \<and> c \<noteq> b \<and>
     bucketHeap w' b = Some ((Bucket_new t)\<lparr>bucketHeader := meta_root m, buckets := [(Item_string name, c)]\<rparr>) \<and>
     (\<exists>y r n pid. bucketHeap w' c = Some y \<and> root_page y = 0 \<and> buckets y = [] \<and> rootNode y = Some r \<and> nodes y = [(pid, r)] \<and>
        nodeHeap w' r = Some n \<and> lone_leaf c pid n \<and> inodeList n = ys)"

lemma child_edited_cleared:
  assumes "child_edited w w' t x b m name c ys" and "cleared (nodeHeap w') h"
  shows "child_edited w (w'\<lparr>nodeHeap := h\<rparr>) t x b m name c ys"
proof -
  obtain y r n pid where c: "bucketHeap w' c = Some y" "root_page y = 0" "buckets y = []" "rootNode y = Some r" "nodes y = [(pid, r)]"
      "nodeHeap w' r = Some n" "lone_leaf c pid n" "inodeList n = ys" using assms(1) by (auto simp: child_edited_def)
  obtain n' where "h r = Some n'" "n' = n \<or> n' = n\<lparr>unbalanced := False\<rparr>" by (rule clearedD [OF assms(2) c(6)])
  then have "h r = Some n' \<and> lone_leaf c pid n' \<and> inodeList n' = ys" using c(7,8) by (auto simp: lone_leaf_def)
  then show ?thesis using assms(1) c(1-5) by (auto simp: child_edited_def db_rest_def)
qed

lemma child_edited_managed:
  assumes "child_edited w w' t x b m name c ys" and "txHeap w' t = Some y"
  shows "child_edited w (w'\<lparr>txHeap := (txHeap w')(t \<mapsto> y\<lparr>managed := False\<rparr>)\<rparr>) t x b m name c ys"
proof -
  obtain k g where "y = x\<lparr>cursorCount := k, managed := g\<rparr>" using assms by (auto simp: child_edited_def)
  then have "y\<lparr>managed := False\<rparr> = x\<lparr>cursorCount := k, managed := False\<rparr>" by simp
  then show ?thesis using assms(1) unfolding child_edited_def by fastforce
qed

text \<open>The user function.\<close>

definition edit_fn :: "nat \<Rightarrow> byte list \<Rightarrow> item map_op list \<Rightarrow> tx_ptr \<Rightarrow> int act" where
  "edit_fn fuel name ops t =
     bnd (Tx_getBucket fuel t (Item_string name)) (\<lambda>c.
     case c of None \<Rightarrow> ret (- 1) | Some c \<Rightarrow> bucket_run fuel c ops)"

lemma edit_fn_ok:
  assumes "started w t x b m xs" and "storable xs" and "length xs < 2 ^ 32" and "key_ok name" and "entry_at xs name = Some e"
    and "inode_flag e = bucketLeafFlag" and "inline_value (inode_value e) ys" and "storable ys" and "plain ys"
    and "ops \<noteq> []" and "\<forall>a \<in> set ops. small_op a" and "leaf_bytes ys + sum_list (map op_bytes ops) \<le> 1024"
  obtains w' c ys' where "edit_fn (Suc fuel) name ops t w = Inr (0, w')" and "child_edited w w' t x b m name c ys'"
    and "storable ys'" and "plain ys'" and "leaf_bytes ys' \<le> leaf_bytes ys + sum_list (map op_bytes ops)"
    and "entry_map ys' = fold apply_op ops (entry_map ys)"
proof -
  have st: "begun w t x b (m\<lparr>meta_txid := meta_txid m + 1\<rparr>)" "leaf_db w m xs" using assms(1) by (simp_all add: started_def)
  then have b: "txHeap w t = Some x" "rootBucket x = Some b" "bucketHeap w b = Some ((Bucket_new t)\<lparr>bucketHeader := meta_root m\<rparr>)"
      "b \<noteq> BucketPtr (nextPtr w)" by (auto simp: begun_def)
  have root: "on_root_page w b t [] xs" by (rule begun_root_page [OF st]) simp_all
  have inv: "leaf_inv xs" "leaf_inv ys" using assms(2,8) by (simp_all add: storable_def)
  obtain c w1 where c: "getBucketByName (Suc fuel) b (Item_string name) w = Inr (Some c, w1)" "found_child w b name c w1"
      "opened_inline w1 c t (inode_value e)"
    using getBucketByName_page(2) [OF root inv(1) assms(3,4) b(4) assms(5) _ assms(7), of fuel] assms(6) by auto
  obtain k where k: "txHeap w1 t = Some (x\<lparr>cursorCount := k\<rparr>)" using found_child_rest(3) [OF c(2) b(1)] by blast
  then have "txHeap w1 t = Some (x\<lparr>cursorCount := k, managed := managed x\<rparr>)" by simp
  then obtain tp where tp: "in_write_tx w1 t tp" using started_in_write [OF assms(1)] by blast
  note leaf = opened_leaf_bucket [OF c(3) assms(7) inv(2) tp]
  obtain w2 ys' where r: "bucket_run (Suc fuel) c ops w1 = Inr (0, w2)" "leaf_bucket w2 c ys'" "plain ys'" "storable ys'"
      "leaf_bytes ys' \<le> leaf_bytes ys + sum_list (map op_bytes ops)" "entry_map ys' = fold apply_op ops (entry_map ys)"
      "edits c w1 w2" "solo w2 c" "loaded w2 c"
    by (rule bucket_run_sized [OF leaf(1) assms(9,8) leaf(2) assms(10-12), of fuel]) (rule that)
  have "edit_fn (Suc fuel) name ops t w = Inr (0, w2)"
    using b(1,2) c(1) r(1) by (simp add: edit_fn_def Tx_getBucket_def tx_root_def act_simps)
  moreover have "child_edited w w2 t x b m name c ys'"
  proof -
    have cb: "c \<noteq> b" "bucketHeap w1 b = Some ((Bucket_new t)\<lparr>bucketHeader := meta_root m, buckets := [(Item_string name, c)]\<rparr>)"
      using c(2) b(3,4) by (auto simp: found_child_def)
    obtain z where z: "bucketHeap w1 c = Some z" "root_page z = 0" "buckets z = []" by (rule opened_content [OF c(3) assms(7)]) (rule that)
    from editsD(7) [OF r(7) z(1)] obtain y where y: "bucketHeap w2 c = Some y" "root_page y = 0" "buckets y = []" using z by auto
    obtain q n pid where n: "rootNode y = Some q" "nodes y = [(pid, q)]" "nodeHeap w2 q = Some n" "lone_leaf c pid n"
      using r(8,9) y(1) by (auto simp: solo_def loaded_def)
    then have "inodeList n = ys'" using r(2) content_cached [OF y(1), of q n] y by (auto simp: leaf_bucket_def root_cached_def)
    moreover obtain j where "txHeap w2 t = Some (x\<lparr>cursorCount := j\<rparr>)" using editsD(8) [OF r(7) k] by auto
    then have "\<exists>k g. txHeap w2 t = Some (x\<lparr>cursorCount := k, managed := g\<rparr>)" by (intro exI [of _ j] exI [of _ "managed x"]) simp
    ultimately show ?thesis
      using cb y n editsD(1,2) [OF r(7)] editsD(6) [OF r(7), of b] found_child_rest(1,2) [OF c(2) b(1)] unfolding child_edited_def by auto
  qed
  ultimately show thesis using r(4,3,5,6) by (rule that)
qed

text \<open>The commit of the edited bucket, up to the spilling of the root.\<close>

lemma child_edited_spill:
  assumes "started w t x b m xs" and "db_ok xs" and "leaf_bytes xs < 4096" and "key_ok name" and "entry_at xs name = Some e"
    and "child_edited w w' t x b m name c ys" and "storable ys" and "plain ys" and "leaf_bytes ys \<le> 1024"
  shows "\<exists>h v w''. Bucket_rebalance (Suc (Suc (Suc fuel))) b w' = Inr ((), w'\<lparr>nodeHeap := h\<rparr>) \<and>
    Bucket_spill (Suc (Suc (Suc fuel))) b (w'\<lparr>nodeHeap := h\<rparr>) = spill_root (Suc (Suc fuel)) b w'' \<and> inline_value v ys \<and>
    root_edited w w'' t x b m (put_entry name bucketLeafFlag v xs)"
proof -
  let ?bk = "(Bucket_new t)\<lparr>bucketHeader := meta_root m, buckets := [(Item_string name, c)]\<rparr>"
  have "leaf_tree 1 w' b"
    using assms(6) by (fastforce simp: child_edited_def leaf_nodes_def lone_leaf_def Bucket_new_def)
  from Bucket_rebalance_leaf [OF this, of "Suc (Suc (Suc fuel))"] obtain h where
    h: "Bucket_rebalance (Suc (Suc (Suc fuel))) b w' = Inr ((), w'\<lparr>nodeHeap := h\<rparr>)" "cleared (nodeHeap w') h" by auto
  let ?w = "w'\<lparr>nodeHeap := h\<rparr>"
  obtain k g y r n pid where c: "db_rest ?w = db_rest w" "freelist ?w = freelist w" "txHeap ?w t = Some (x\<lparr>cursorCount := k, managed := g\<rparr>)" "c \<noteq> b"
      "bucketHeap ?w b = Some ?bk" "bucketHeap ?w c = Some y" "root_page y = 0" "rootNode y = Some r" "nodeHeap ?w r = Some n" "lone_leaf c pid n" "inodeList n = ys"
    using child_edited_cleared [OF assms(6) h(2)] unfolding child_edited_def by (elim exE conjE) (rule that)
  have st: "begun w t x b (m\<lparr>meta_txid := meta_txid m + 1\<rparr>)" "leaf_db w m xs" using assms(1) by (simp_all add: started_def)
  then have b: "txHeap w t = Some x" "bucketHeap w b = Some ((Bucket_new t)\<lparr>bucketHeader := meta_root m\<rparr>)" by (auto simp: begun_def)
  have "on_root_page ?w b t [(Item_string name, c)] xs"
    by (rule on_root_page_cong [OF begun_root_page [OF st] c(1) b(2) c(5) b(1) c(3)]) simp_all
  moreover obtain tp where "in_write_tx ?w t tp" using started_in_write [OF assms(1) c(3)] by blast
  moreover have inv: "leaf_inv xs" using assms(2) by (simp add: db_ok_def storable_def)
  ultimately have leaf: "leaf_bucket ?w b xs" "solo ?w b" using on_root_page_leaf by blast+
  have leafn: "isLeaf n" using c(10) by (simp add: lone_leaf_def)
  have ok: "leaf_ok n \<and> node_bytes n = leaf_bytes ys" using leaf_okI [of n] assms(7,9) c(11) leafn by simp
  then obtain v where v: "Bucket_write c ?w = Inr (v, ?w)" "inline_value v ys"
    using Bucket_write_inline [OF c(6,8,9)] c(7,11) assms(7,9) stored_inodes_id [of n] by auto
  have inl: "Node_isinlineable maxInlineBucketSize n" using small_inlineable [of n] assms(7-9) c(11) by simp
  have len: "length xs < 2 ^ 32" using leaf_bytes_bounds(1) [of xs] assms(3) by simp
  have "inode_flag e = bucketLeafFlag" by (rule db_okD [OF assms(2,5)])
  from put_child_ok [OF leaf(1) len assms(4,5) this, of "Suc fuel" v] obtain w'' where
    p: "put_child (Suc (Suc fuel)) b (Item_string name) v ?w = Inr (True, w'')" "leaf_bucket w'' b (put_entry name bucketLeafFlag v xs)"
      "edits b ?w w''" "solo ?w b \<longrightarrow> loaded w'' b" by blast
  have "Bucket_spill (Suc (Suc (Suc fuel))) b ?w = spill_root (Suc (Suc fuel)) b w''"
    by (rule Bucket_spill_inline [OF c(5) _ c(6,8,9,7) leafn inl v(1) p(1)]) simp
  moreover have "root_edited w w'' t x b m (put_entry name bucketLeafFlag v xs)"
    by (rule root_editedI [OF c(1-3,5) _ _ p(3,2) leaf(2)]) (use p(4) leaf(2) in \<open>simp_all add: Bucket_new_def\<close>)
  ultimately show ?thesis using h(1) v(2) by blast
qed

section \<open>The state between transactions\<close>

lemma db_ok_put:
  assumes "db_ok xs" and "key_ok name" and "inline_value v ys" and "storable ys" and "plain ys"
  shows "db_ok (put_entry name bucketLeafFlag v xs)" and "db_map (put_entry name bucketLeafFlag v xs) = (db_map xs)(name \<mapsto> entry_map ys)"
proof -
  have st: "storable xs" and inv: "leaf_inv xs" using assms(1) by (simp_all add: db_ok_def storable_def)
  let ?e = "put_inode (Item_string name) v 0 bucketLeafFlag"
  have "item_wf v" using assms(3) by (simp add: inline_value_def)
  moreover have "bucket_entry ?e" using assms(3-5) by (auto simp: bucket_entry_def put_inode_def)
  ultimately show "db_ok (put_entry name bucketLeafFlag v xs)"
    using assms(1) storable_edit(2) [OF st assms(2)] edit_set(2) [OF inv assms(2), of bucketLeafFlag v] by (auto simp: db_ok_def)
  show "db_map (put_entry name bucketLeafFlag v xs) = (db_map xs)(name \<mapsto> entry_map ys)"
    using entry_at_put [OF inv assms(2)] inline_entries_eq [OF assms(3)] by (auto simp: db_map_def fun_eq_iff put_inode_def)
qed

text \<open>
  The database between transactions, as its user sees it: the nested map \<open>M\<close>, with room for \<open>n\<close> more commits and \<open>s\<close> more
  bytes of entries.
\<close>

definition db_state :: "nat \<Rightarrow> nat \<Rightarrow> world \<Rightarrow> (byte list \<Rightarrow> (byte list \<Rightarrow> item option) option) \<Rightarrow> bool" where
  "db_state n s w M \<longleftrightarrow> (\<exists>m xs. idle w \<and> leaf_db w m xs \<and> room n w m \<and> db_ok xs \<and> leaf_bytes xs + s \<le> 1024 \<and> db_map xs = M)"

text \<open>What the user function of an update has to lead to.\<close>

definition leads_to_map :: "nat \<Rightarrow> (tx_ptr \<Rightarrow> int act) \<Rightarrow> nat \<Rightarrow> (byte list \<Rightarrow> (byte list \<Rightarrow> item option) option) \<Rightarrow> tx_ptr \<Rightarrow> bucket_ptr \<Rightarrow> meta \<Rightarrow> world \<Rightarrow> bool" where
  "leads_to_map fuel fn s M t b m w \<longleftrightarrow> (\<exists>y. leads_to fuel fn t b m w y \<and> db_ok (inodeList y) \<and> leaf_bytes (inodeList y) + s \<le> 1024 \<and> db_map (inodeList y) = M)"

lemma update_step:
  assumes "db_state (Suc n) s w M"
    and "\<And>w1 t x b m xs. started w1 t x b m xs \<Longrightarrow> db_ok xs \<Longrightarrow> leaf_bytes xs + s \<le> 1024 \<Longrightarrow> db_map xs = M \<Longrightarrow> leads_to_map fuel fn s' M' t b m w1"
  shows "\<exists>w'. DB_update fuel [] fn w = Inr (0, w') \<and> db_state n s' w' M'"
proof -
  obtain m xs where d: "idle w" "leaf_db w m xs" "room (Suc n) w m" "db_ok xs" "leaf_bytes xs + s \<le> 1024" "db_map xs = M"
    using assms(1) by (auto simp: db_state_def)
  let ?P = "\<lambda>y. db_ok (inodeList y) \<and> leaf_bytes (inodeList y) + s' \<le> 1024 \<and> db_map (inodeList y) = M'"
  have "\<exists>w' m' y. DB_update fuel [] fn w = Inr (0, w') \<and> idle w' \<and> leaf_db w' m' (stored_inodes y) \<and> room n w' m' \<and> ?P y"
    by (rule DB_update_leaf [OF d(1-3)]) (use assms(2) [OF _ d(4-6)] in \<open>simp add: leads_to_map_def\<close>)
  then obtain w' m' y where w': "DB_update fuel [] fn w = Inr (0, w')" "idle w'" "leaf_db w' m' (stored_inodes y)" "room n w' m'" "?P y"
    by (elim exE conjE) (rule that, simp_all)
  have "stored_inodes y = inodeList y" using w'(5) stored_inodes_id by (simp add: db_ok_def)
  then show ?thesis using w' by (auto simp: db_state_def)
qed

text \<open>Both updates end with a new entry of the root.\<close>

lemma leads_to_mapI:
  assumes "started w t x b m xs" and "db_ok xs" and "key_ok name" and "inline_value v ys" and "storable ys" and "plain ys"
    and "root_edited w w4 t x b m (put_entry name bucketLeafFlag v xs)" and "leaf_bytes (put_entry name bucketLeafFlag v xs) + s \<le> 1024"
    and "\<And>x4 y. leaf_commit w4 t x4 b m y \<Longrightarrow> session w4 = session w \<Longrightarrow> freelist w4 = freelist w \<Longrightarrow> leads_to fuel fn t b m w y"
  shows "leads_to_map fuel fn s ((db_map xs)(name \<mapsto> entry_map ys)) t b m w"
proof -
  let ?xs = "put_entry name bucketLeafFlag v xs"
  note put = db_ok_put [OF assms(2-6)]
  have "storable ?xs" "leaf_bytes ?xs < 4096" using put(1) assms(8) by (simp_all add: db_ok_def)
  from root_edited_commit [OF assms(1,7) this] obtain x4 y where y: "leaf_commit w4 t x4 b m y" "inodeList y = ?xs" "session w4 = session w" by blast
  moreover have "freelist w4 = freelist w" using assms(7) by (simp add: root_edited_def)
  ultimately have "leads_to fuel fn t b m w y" using assms(9) by blast
  then show ?thesis using y(2) put assms(8) by (auto simp: leads_to_map_def)
qed

lemma edit_leads:
  assumes "started w t x b m xs" and "db_ok xs" and "leaf_bytes xs + (s + sum_list (map op_bytes ops)) \<le> 1024" and "db_map xs name = Some f"
    and "key_ok name" and "ops \<noteq> []" and "\<forall>a \<in> set ops. small_op a"
  shows "leads_to_map (Suc (Suc (Suc fuel))) (edit_fn (Suc fuel') name ops) s ((db_map xs)(name \<mapsto> fold apply_op ops f)) t b m w"
proof -
  let ?c = "sum_list (map op_bytes ops)"
  obtain e where e: "entry_at xs name = Some e" using assms(4) by (auto simp: db_map_def)
  obtain ys where ys: "inode_flag e = bucketLeafFlag" "inline_value (inode_value e) ys" "storable ys" "plain ys" "db_map xs name = Some (entry_map ys)" "e \<in> set xs"
    by (rule db_okD [OF assms(2) e])
  have st: "storable xs" and inv: "leaf_inv xs" using assms(2) by (simp_all add: db_ok_def storable_def)
  have vlen: "length (item_data (inode_value e)) = 16 + leaf_bytes ys" using ys(2) by (simp add: inline_value_def BUCKETHEADERSIZE_def)
  have "leaf_bytes ys \<le> leaf_bytes xs" using leaf_bytes_bounds(2) [OF ys(6)] vlen by (simp add: content_bytes_def)
  then have fits: "leaf_bytes ys + ?c \<le> 1024" "leaf_bytes xs < 4096" "length xs < 2 ^ 32" using assms(3) leaf_bytes_bounds(1) [of xs] by simp_all
  obtain w2 c ys' where u: "edit_fn (Suc fuel') name ops t w = Inr (0, w2)" "child_edited w w2 t x b m name c ys'" "storable ys'" "plain ys'"
      "leaf_bytes ys' \<le> leaf_bytes ys + ?c" "entry_map ys' = fold apply_op ops (entry_map ys)"
    by (rule edit_fn_ok [OF assms(1) st fits(3) assms(5) e ys(1-4) assms(6,7) fits(1), of fuel']) (rule that)
  obtain y2 where y2: "txHeap w2 t = Some y2" using u(2) by (auto simp: child_edited_def)
  then have f2: "writable y2" "tx_db y2" "rootBucket y2 = Some b" using u(2) assms(1) by (auto simp: child_edited_def started_def begun_def)
  let ?w2 = "w2\<lparr>txHeap := (txHeap w2)(t \<mapsto> y2\<lparr>managed := False\<rparr>)\<rparr>"
  have "leaf_bytes ys' \<le> 1024" using u(5) fits(1) by simp
  from child_edited_spill [OF assms(1,2) fits(2) assms(5) e child_edited_managed [OF u(2) y2] u(3,4) this, of fuel] obtain h v w4 where
    c: "Bucket_rebalance (Suc (Suc (Suc fuel))) b ?w2 = Inr ((), ?w2\<lparr>nodeHeap := h\<rparr>)"
      "Bucket_spill (Suc (Suc (Suc fuel))) b (?w2\<lparr>nodeHeap := h\<rparr>) = spill_root (Suc (Suc fuel)) b w4" "inline_value v ys'"
      "root_edited w w4 t x b m (put_entry name bucketLeafFlag v xs)" by blast
  have "leaf_bytes (put_entry name bucketLeafFlag v xs) + s \<le> 1024"
    using edit_sizes(3) [OF inv assms(5) e, of bucketLeafFlag v] vlen c(3) u(5) assms(3) by (simp add: inline_value_def BUCKETHEADERSIZE_def)
  from leads_to_mapI [OF assms(1,2,5) c(3) u(3,4) c(4) this] have
    "leads_to_map (Suc (Suc (Suc fuel))) (edit_fn (Suc fuel') name ops) s ((db_map xs)(name \<mapsto> entry_map ys')) t b m w"
    using leads_toI [where fn = "edit_fn (Suc fuel') name ops" and t = t and w = w, OF u(1) y2 f2 c(1,2)] by blast
  then show ?thesis using u(6) ys(5) assms(4) by simp
qed

lemma update_edit:
  assumes "db_state (Suc n) (s + sum_list (map op_bytes ops)) w M" and "M name = Some f" and "key_ok name" and "ops \<noteq> []" and "\<forall>a \<in> set ops. small_op a"
  shows "\<exists>w'. DB_update (Suc (Suc (Suc fuel))) [] (edit_fn (Suc fuel') name ops) w = Inr (0, w') \<and>
    db_state n s w' (M(name \<mapsto> fold apply_op ops f))"
  by (rule update_step [OF assms(1)]) (use edit_leads [OF _ _ _ _ assms(3-5)] assms(2) in blast)

end
