(* ===== verification/Bucket_Create.thy ===== *)
theory Bucket_Create
  imports Bucket_Update
begin

unbundle bit_operations_syntax

text \<open>
  Creating a bucket: \<open>Bucket::createBucket\<close> on the root page of a transaction, step by step, and the
  update transaction around it.
\<close>

section \<open>Finding a bucket that is not on a page yet\<close>

lemma openBucket_node:
  assumes "bucketHeap w b = Some x" and "inline_value v ys"
  shows "\<exists>h. bh_root h = 0 \<and> openBucket b v None w = Inr (BucketPtr (nextPtr w), w\<lparr>nextPtr := Suc (nextPtr w), bucketHeap := (bucketHeap w)(BucketPtr (nextPtr w) \<mapsto>
    (Bucket_new (bucket_tx x))\<lparr>bucketHeader := h, bucket_page := Some DeadItem\<rparr>)\<rparr>)"
proof -
  obtain h where "read_bucketHeader (item_data v @ [0]) 0 = Inr h" "bh_root h = 0" using assms(2) by (auto simp: inline_value_def)
  then show ?thesis
    using assms(1) by (auto simp: openBucket_def act_simps newBucket_def new_bucket_def Let_def setBucketHeader_def upd_bucket_def)
qed

lemma getBucketByName_node:
  assumes "holds_root w b x n xs" and "txHeap w (bucket_tx x) = Some y" and "buckets x = []" and "leaf_inv xs" and "length xs < 2 ^ 32"
    and "entry_at xs name = Some e" and "inode_flag e AND bucketLeafFlag \<noteq> 0" and "inline_value (inode_value e) ys" and "b \<noteq> BucketPtr (nextPtr w)"
  shows "\<exists>c w' h. getBucketByName (Suc fuel) b (Item_string name) w = Inr (Some c, w') \<and> found_child w b name c w' \<and> bh_root h = 0 \<and>
    bucketHeap w' c = Some ((Bucket_new (bucket_tx x))\<lparr>bucketHeader := h, bucket_page := Some DeadItem\<rparr>)"
proof -
  obtain nd where h: "bucketHeap w b = Some x" "root_cached x = Some n" "nodeHeap w n = Some nd" "isLeaf nd" "inodeList nd = xs"
    using assms(1) by (auto simp: holds_root_def)
  let ?w = "count_cursor b w" and ?i = "lower_bound (keys_of xs) name" and ?c = "BucketPtr (nextPtr w)"
  have asc: "ascending (keys_of xs)" using assms(4) by (simp add: leaf_inv_def)
  have bw: "bucketHeap ?w b = Some x" using h(1) by simp
  have "content ?w b (root_page x) = Inr (True, xs)" using content_cached [OF bw h(2), of nd] h(3-5) by simp
  from seek_leaf [OF bw this asc assms(5), of fuel "Item_string name"] obtain s c r where
    s: "seek (Suc fuel) (Item_string name) (Cursor_new b) ?w = Inr ((s, c), ?w)" "getPageNode b (root_page x) ?w = Inr ((er_node r, er_page r), ?w)"
      "s = (if ?i < length xs then shown_at r ?i (xs ! ?i) else shown_reset)" unfolding Item_string_simps(1) by (elim exE conjE) (rule that)
  have "getPageNode b (root_page x) ?w = Inr ((Some n, None), ?w)" using getPageNode_cached [OF bw, of n None] h(2) by simp
  then have r: "er_node r = Some n" using s(2) by simp
  have i: "?i < length xs" "xs ! ?i = e" "item_data (inode_key e) = name" using entry_at_search [OF asc, of name] assms(6) by (auto split: if_splits)
  obtain hd where h0: "bh_root hd = 0" and o: "openBucket b (inode_value e) None ?w = Inr (?c, ?w\<lparr>nextPtr := Suc (nextPtr w), bucketHeap := (bucketHeap w)(?c \<mapsto>
      (Bucket_new (bucket_tx x))\<lparr>bucketHeader := hd, bucket_page := Some DeadItem\<rparr>)\<rparr>)" using openBucket_node [OF bw assms(8)] by auto
  let ?w' = "?w\<lparr>nextPtr := Suc (nextPtr w), bucketHeap := (bucketHeap w)(?c \<mapsto> (Bucket_new (bucket_tx x))\<lparr>bucketHeader := hd, bucket_page := Some DeadItem\<rparr>,
      b \<mapsto> x\<lparr>buckets := [(Item_string name, ?c)]\<rparr>)\<rparr>"
  have "createCursor b w = Inr (Cursor_new b, ?w)" using createCursor_apply h(1) assms(2) by simp
  then have "getBucketByName (Suc fuel) b (Item_string name) w = Inr (Some ?c, ?w')"
    using s(1,3) h(1) assms(3,7,9) i r o
    by (simp add: getBucketByName_def act_simps find_bucket_def shown_at_def upd_bucket_def)
  moreover have "found_child w b name ?c ?w'" using h(1) by (auto simp: found_child_def)
  ultimately show ?thesis using assms(9) h0 by (intro exI [of _ ?c] exI [of _ ?w'] exI [of _ hd]) simp
qed

section \<open>Creating\<close>

text \<open>Before the new entry is put: the temporary bucket with its empty root, and the value it is written to.\<close>

definition with_empty :: "tx_ptr \<Rightarrow> world \<Rightarrow> world" where
  "with_empty t w = w\<lparr>nextPtr := Suc (Suc (nextPtr w)), nodeHeap := (nodeHeap w)(NodePtr (Suc (nextPtr w)) \<mapsto> markLeaf (Node_new (BucketPtr (nextPtr w)) None)),
     bucketHeap := (bucketHeap w)(BucketPtr (nextPtr w) \<mapsto> (Bucket_new t)\<lparr>rootNode := Some (NodePtr (Suc (nextPtr w)))\<rparr>)\<rparr>"

lemma empty_value:
  obtains v where "Bucket_write (BucketPtr (nextPtr w)) (with_empty t w) = Inr (v, with_empty t w)" and "inline_value v []"
proof -
  let ?n = "markLeaf (Node_new (BucketPtr (nextPtr w)) None)"
  have n: "inodeList ?n = []" "isLeaf ?n" by (simp_all add: markLeaf_def Node_new_def)
  then have "leaf_ok ?n" "node_bytes ?n < 2 ^ 31" "stored_inodes ?n = []" by (simp_all add: leaf_ok_def node_bytes_def stored_inodes_def PAGEHEADERSIZE_def)
  then show thesis
    using Bucket_write_inline [of "with_empty t w" "BucketPtr (nextPtr w)" "(Bucket_new t)\<lparr>rootNode := Some (NodePtr (Suc (nextPtr w)))\<rparr>" "NodePtr (Suc (nextPtr w))" ?n] that
    by (auto simp: with_empty_def Bucket_new_def)
qed

text \<open>The root keeps its shape when something else changes.\<close>

lemma root_frame:
  assumes "bucketHeap w b = Some x" and "bucketHeap w' b = Some x'" and "bucketHeader x' = bucketHeader x" and "rootNode x' = rootNode x"
    and "nodes x' = nodes x" and "rootNode x = Some n" and "nodeHeap w' n = nodeHeap w n"
  shows "solo w b \<Longrightarrow> solo w' b" and "holds_root w b x n xs \<Longrightarrow> holds_root w' b x' n xs"
  using assms by (auto simp: solo_def holds_root_def root_cached_def)

text \<open>The steps up to the new entry.\<close>

lemma create_entry:
  assumes "started w t x b m xs" and "leaf_inv xs" and "length xs < 2 ^ 31" and "key_ok name" and "entry_at xs name = None" and "inline_value v []"
  obtains s c n c' w2 w3 x3 tp where "seek (Suc fuel) (Item_string name) (Cursor_new b) w = Inr ((s, c), w)" and "\<not> Item_eq (sh_key s) (Item_string name)"
    and "Cursor_getNode c (with_empty t w) = Inr ((n, c'), w2)"
    and "put_in_node n (Item_string name) (Item_string name) v 0 bucketLeafFlag w2 = Inr (True, w3)"
    and "holds_root w3 b x3 n (put_entry name bucketLeafFlag v xs)" and "edits b (with_empty t w) w3" and "solo w3 b"
    and "n = NodePtr (Suc (Suc (nextPtr w)))" and "nextPtr w3 = Suc (Suc (Suc (nextPtr w)))" and "in_write_tx w3 t tp"
proof -
  have st: "begun w t x b (m\<lparr>meta_txid := meta_txid m + 1\<rparr>)" "leaf_db w m xs" using assms(1) by (simp_all add: started_def)
  then have b: "txHeap w t = Some x" "bucketHeap w b = Some ((Bucket_new t)\<lparr>bucketHeader := meta_root m\<rparr>)" "\<forall>k \<ge> nextPtr w. b \<noteq> BucketPtr k"
    by (auto simp: begun_def)
  let ?w1 = "with_empty t w" and ?bk = "(Bucket_new t)\<lparr>bucketHeader := meta_root m\<rparr>" and ?i = "lower_bound (keys_of xs) name"
  have root: "on_root_page w b t [] xs" by (rule begun_root_page [OF st]) simp_all
  have w1: "db_rest ?w1 = db_rest w" "bucketHeap ?w1 b = Some ?bk" "txHeap ?w1 = txHeap w" "mapGen ?w1 = mapGen w" "nextPtr ?w1 = Suc (Suc (nextPtr w))"
    using b(2,3) by (simp_all add: with_empty_def db_rest_def)
  have root1: "on_root_page ?w1 b t [] xs"
    by (rule on_root_page_cong [OF root w1(1) b(2) _ b(1), where bs' = "[]" and k = "cursorCount x" and g = "managed x"])
      (use w1(2,3) b(1) in \<open>simp_all add: Bucket_new_def\<close>)
  have "txHeap ?w1 t = Some (x\<lparr>cursorCount := cursorCount x, managed := managed x\<rparr>)" using w1(3) b(1) by simp
  then obtain tp where tp: "in_write_tx ?w1 t tp" using started_in_write [OF assms(1)] by blast
  have leaf: "leaf_bucket ?w1 b xs" "solo ?w1 b" using on_root_page_leaf [OF root1 tp assms(2)] by blast+
  then have load: "loadable ?w1 b ?bk" using w1(2) by (auto simp: leaf_bucket_def)
  obtain p where g: "getPageNode b (root_page ?bk) w = Inr ((None, Some p), w)" "p = MapPage (mapGen w) (root_page ?bk)" "content w b (root_page ?bk) = Inr (True, xs)"
    by (rule on_root_pageD [OF root]) (use b(2) in \<open>simp add: that\<close>)
  obtain bytes where g1: "getPageNode b (root_page ?bk) ?w1 = Inr ((None, Some p), ?w1)" "page_bytes ?w1 p = Inr bytes" "page_inodes bytes = Inr (True, xs)"
    by (rule on_root_pageD [OF root1]) (use w1(2,4) g(2) in \<open>simp add: that\<close>)
  have asc: "ascending (keys_of xs)" using assms(2) by (simp add: leaf_inv_def)
  have len: "length xs < 2 ^ 32" using assms(3) by simp
  from seek_leaf [OF b(2) g(3) asc len, of fuel "Item_string name"] obtain s c r where
    s: "seek (Suc fuel) (Item_string name) (Cursor_new b) w = Inr ((s, c), w)" "elements c = [r]" "cur_bucket c = b"
      "getPageNode b (root_page ?bk) w = Inr ((er_node r, er_page r), w)" "s = (if ?i < length xs then shown_at r ?i (xs ! ?i) else shown_reset)"
    unfolding Item_string_simps(1) by (elim exE conjE) (rule that)
  have miss: "\<not> Item_eq (sh_key s) (Item_string name)"
    using s(5) entry_at_search [OF asc, of name] assms(4,5) by (auto simp: Item_eq_def shown_reset_def Item_default_def key_ok_def split: if_splits)
  have r: "er_node r = None" "er_page r = Some p" using s(4) g(1) by simp_all
  then have "ref_content ?w1 r = Inr (True, xs)" using g1(2,3) by (simp add: ref_content_def)
  from getNode_page [OF s(2,3) w1(2) load g1(1) r this assms(2)] obtain n c' w2 x2 where
    n: "Cursor_getNode c ?w1 = Inr ((n, c'), w2)" "holds_root w2 b x2 n xs" "bucket_tx x2 = t" "txHeap w2 = txHeap ?w1" "edits b ?w1 w2"
      "n = NodePtr (nextPtr ?w1)" "nextPtr w2 = Suc (nextPtr ?w1)" by (auto simp: Bucket_new_def)
  have tp2: "in_write_tx w2 (bucket_tx x2) tp" using tp n(3,4) by (simp add: in_write_tx_def)
  from put_held [OF n(2) tp2 assms(2,4), of v bucketLeafFlag] obtain w3 where
    w3: "put_in_node n (Item_string name) (Item_string name) v 0 bucketLeafFlag w2 = Inr (True, w3)" "holds_root w3 b x2 n (put_entry name bucketLeafFlag v xs)"
      "edits b w2 w3" "\<exists>y. w3 = w2\<lparr>nodeHeap := (nodeHeap w2)(n \<mapsto> y)\<rparr>" by blast
  have e: "edits b ?w1 w3" by (rule edits_trans [OF n(5) w3(3)])
  have "nextPtr w3 = Suc (Suc (Suc (nextPtr w)))" "in_write_tx w3 t tp" using w3(4) n(3,7) w1(5) tp2 by (auto simp: in_write_tx_def)
  then show thesis
    using that [OF s(1) miss n(1) w3(1,2) e editsD(4) [OF e leaf(2)]] n(6) w1(5) by simp
qed

text \<open>After the entry was put, the new bucket was opened and the temporary one deleted.\<close>

lemma create_root_edited:
  assumes "started w t x b m xs0" and "edits b (with_empty t w) w3" and "holds_root w3 b x3 n xs" and "solo w3 b" and "in_write_tx w3 t tp" and "leaf_inv xs"
    and "n = NodePtr (Suc (Suc (nextPtr w)))" and "found_child (w3\<lparr>bucketHeap := (bucketHeap w3)(b \<mapsto> x3\<lparr>bucket_page := None\<rparr>)\<rparr>) b name c w5"
  defines "w6 \<equiv> w5\<lparr>bucketHeap := (bucketHeap w5)(BucketPtr (nextPtr w) := None), nodeHeap := (nodeHeap w5)(NodePtr (Suc (nextPtr w)) := None)\<rparr>"
  shows "root_edited w w6 t x b m xs" and "bucketHeap w6 b = Some (x3\<lparr>bucket_page := None, buckets := [(Item_string name, c)]\<rparr>)"
proof -
  let ?x6 = "x3\<lparr>bucket_page := None, buckets := [(Item_string name, c)]\<rparr>"
  have b: "txHeap w t = Some x" "bucketHeap w b = Some ((Bucket_new t)\<lparr>bucketHeader := meta_root m\<rparr>)" "b \<noteq> BucketPtr (nextPtr w)"
    using assms(1) by (auto simp: started_def begun_def)
  then have w1: "bucketHeap (with_empty t w) b = Some ((Bucket_new t)\<lparr>bucketHeader := meta_root m\<rparr>)" "txHeap (with_empty t w) t = Some x"
      "db_rest (with_empty t w) = db_rest w" "freelist (with_empty t w) = freelist w" by (simp_all add: with_empty_def db_rest_def)
  have x3: "bucketHeap w3 b = Some x3" "root_cached x3 = Some n" using assms(3) by (simp_all add: holds_root_def)
  have f3: "bucketHeader x3 = meta_root m" "bucket_tx x3 = t" using editsD(7) [OF assms(2) w1(1)] x3(1) by (auto simp: Bucket_new_def)
  have rn: "rootNode x3 = Some n" by (rule solo_loaded [OF assms(4) x3])
  let ?w4 = "w3\<lparr>bucketHeap := (bucketHeap w3)(b \<mapsto> x3\<lparr>bucket_page := None\<rparr>)\<rparr>"
  show b6: "bucketHeap w6 b = Some ?x6" using assms(8) b(3) by (auto simp: w6_def found_child_def)
  have n6: "nodeHeap w6 n = nodeHeap w3 n" using assms(7,8) by (auto simp: w6_def found_child_def)
  obtain k where "txHeap w3 t = Some (x\<lparr>cursorCount := k\<rparr>)" using editsD(8) [OF assms(2) w1(2)] by blast
  then have "txHeap ?w4 t = Some (x\<lparr>cursorCount := k\<rparr>)" by simp
  from found_child_rest [OF assms(8) this] obtain j where w5: "db_rest w5 = db_rest w3" "freelist w5 = freelist w3" "txHeap w5 t = Some (x\<lparr>cursorCount := j\<rparr>)"
    by auto
  then have tx6: "\<exists>k g. txHeap w6 t = Some (x\<lparr>cursorCount := k, managed := g\<rparr>)" by (intro exI [of _ j] exI [of _ "managed x"]) (simp add: w6_def)
  then obtain tp' where tp': "in_write_tx w6 t tp'" using started_in_write [OF assms(1)] by blast
  have h6: "holds_root w6 b ?x6 n xs" by (rule root_frame(2) [OF x3(1) b6 _ _ _ rn n6 assms(3)]) simp_all
  have s6: "solo w6 b" by (rule root_frame(1) [OF x3(1) b6 _ _ _ rn n6 assms(4)]) simp_all
  have "leaf_bucket w6 b xs" by (rule leaf_bucketI [OF h6 _ assms(6)]) (use tp' f3(2) in simp)
  moreover have "loaded w6 b" by (rule held_loaded [OF h6 s6])
  moreover have "db_rest w6 = db_rest w" "freelist w6 = freelist w"
    using w5(1,2) editsD(1,2) [OF assms(2)] w1(3,4) by (simp_all add: w6_def)
  ultimately show "root_edited w w6 t x b m xs" using s6 b6 f3 tx6 by (simp add: root_edited_def)
qed

text \<open>The whole of \<open>createBucket\<close>, for a name that is not in use.\<close>

lemma createBucket_ok:
  assumes "started w t x b m xs" and "leaf_inv xs" and "length xs < 2 ^ 31" and "key_ok name" and "entry_at xs name = None"
  shows "\<exists>c w' v x' y. createBucket (Suc fuel) b (Item_string name) w = Inr (Some c, w') \<and> inline_value v [] \<and>
    root_edited w w' t x b m (put_entry name bucketLeafFlag v xs) \<and> bucketHeap w' b = Some x' \<and> buckets x' = [(Item_string name, c)] \<and>
    bucketHeap w' c = Some y \<and> rootNode y = None \<and> nodes y = [] \<and> buckets y = [] \<and>
    bucket_tx y = t \<and> bh_root (bucketHeader y) = 0 \<and> bucket_page y = Some DeadItem"
proof -
  have st: "begun w t x b (m\<lparr>meta_txid := meta_txid m + 1\<rparr>)" "writable x" using assms(1) by (simp_all add: started_def)
  then have b: "txHeap w t = Some x" "tx_db x" "bucketHeap w b = Some ((Bucket_new t)\<lparr>bucketHeader := meta_root m\<rparr>)" "\<forall>k \<ge> nextPtr w. b \<noteq> BucketPtr k"
    by (auto simp: begun_def)
  let ?w1 = "with_empty t w" and ?tmp = "BucketPtr (nextPtr w)" and ?r = "NodePtr (Suc (nextPtr w))"
  obtain v where v: "Bucket_write ?tmp ?w1 = Inr (v, ?w1)" "inline_value v []" by (rule empty_value [of w t])
  let ?xs = "put_entry name bucketLeafFlag v xs"
  obtain s c n c' w2 w3 x3 tp where e: "seek (Suc fuel) (Item_string name) (Cursor_new b) w = Inr ((s, c), w)" "\<not> Item_eq (sh_key s) (Item_string name)"
      "Cursor_getNode c ?w1 = Inr ((n, c'), w2)" "put_in_node n (Item_string name) (Item_string name) v 0 bucketLeafFlag w2 = Inr (True, w3)"
      "holds_root w3 b x3 n ?xs" "edits b ?w1 w3" "solo w3 b" "n = NodePtr (Suc (Suc (nextPtr w)))" "nextPtr w3 = Suc (Suc (Suc (nextPtr w)))" "in_write_tx w3 t tp"
    by (rule create_entry [OF assms v(2), of fuel]) (rule that)
  have w1: "bucketHeap ?w1 b = Some ((Bucket_new t)\<lparr>bucketHeader := meta_root m\<rparr>)" "txHeap ?w1 t = Some x" "db_rest ?w1 = db_rest w" "freelist ?w1 = freelist w"
    using b by (simp_all add: with_empty_def db_rest_def)
  have x3: "bucketHeap w3 b = Some x3" "root_cached x3 = Some n" using e(5) by (simp_all add: holds_root_def)
  have f3: "bucketHeader x3 = meta_root m" "bucket_tx x3 = t" "buckets x3 = []" using editsD(7) [OF e(6) w1(1)] x3(1) by (auto simp: Bucket_new_def)
  obtain k where k: "txHeap w3 t = Some (x\<lparr>cursorCount := k\<rparr>)" using editsD(8) [OF e(6) w1(2)] by blast
  let ?x4 = "x3\<lparr>bucket_page := None\<rparr>"
  let ?w4 = "w3\<lparr>bucketHeap := (bucketHeap w3)(b \<mapsto> ?x4)\<rparr>"
  have rn: "rootNode x3 = Some n" by (rule solo_loaded [OF e(7) x3])
  have h4: "holds_root ?w4 b ?x4 n ?xs" by (rule root_frame(2) [OF x3(1) _ _ _ _ rn _ e(5)]) simp_all
  have inv: "leaf_inv ?xs" by (rule leaf_inv_edit(1) [OF assms(2,4)])
  have len: "length ?xs < 2 ^ 32" using length_edit(1) [OF assms(2,4), of bucketLeafFlag v] assms(3) by simp
  have at: "entry_at ?xs name = Some (put_inode (Item_string name) v 0 bucketLeafFlag)" using entry_at_put [OF assms(2,4)] by simp
  from getBucketByName_node [OF h4 _ _ inv len at, of "x\<lparr>cursorCount := k\<rparr>" "[]" fuel] obtain ch w5 hd where
    g: "getBucketByName (Suc fuel) b (Item_string name) ?w4 = Inr (Some ch, w5)" "found_child ?w4 b name ch w5"
      "bucketHeap w5 ch = Some ((Bucket_new t)\<lparr>bucketHeader := hd, bucket_page := Some DeadItem\<rparr>)" "bh_root hd = 0"
    using f3 k v(2) e(9) b(4) by (auto simp: put_inode_def)
  let ?w6 = "w5\<lparr>bucketHeap := (bucketHeap w5)(?tmp := None), nodeHeap := (nodeHeap w5)(?r := None)\<rparr>"
  have "createBucket (Suc fuel) b (Item_string name) w = Inr (Some ch, ?w6)"
    unfolding createBucket_def
    using b st(2) e(1-4) v(1) g(1) x3(1) key_ok_length [OF assms(4)]
    by (simp add: act_simps newBucket_def new_bucket_def new_node_def Let_def upd_bucket_def with_empty_def Bucket_new_def)
  moreover note create_root_edited [OF assms(1) e(6,5,7,10) inv e(8) g(2)]
  moreover have "ch \<noteq> ?tmp" using g(2) e(9) by (auto simp: found_child_def)
  ultimately show ?thesis
    using v(2) g(3,4)
    by (intro exI [of _ ch] exI [of _ ?w6] exI [of _ v] exI [of _ "x3\<lparr>bucket_page := None, buckets := [(Item_string name, ch)]\<rparr>"]
        exI [of _ "(Bucket_new t)\<lparr>bucketHeader := hd, bucket_page := Some DeadItem\<rparr>"]) (simp add: Bucket_new_def)
qed

section \<open>The transaction\<close>

text \<open>A user function for \<open>DB::update\<close>: create a bucket.\<close>

definition create_fn :: "nat \<Rightarrow> byte list \<Rightarrow> tx_ptr \<Rightarrow> int act" where
  "create_fn fuel name t = bnd (Tx_createBucket fuel t (Item_string name)) (\<lambda>c. ret (if c = None then - 1 else 0))"

lemma create_leads:
  assumes "started w t x b m xs" and "db_ok xs" and "leaf_bytes xs + (s + (48 + length name)) \<le> 1024" and "db_map xs name = None" and "key_ok name"
  shows "leads_to_map (Suc (Suc (Suc fuel))) (create_fn (Suc fuel') name) s ((db_map xs)(name \<mapsto> Map.empty)) t b m w"
proof -
  have inv: "leaf_inv xs" using assms(2) by (simp add: db_ok_def storable_def)
  have len: "length xs < 2 ^ 31" using leaf_bytes_bounds(1) [of xs] assms(3) by simp
  have "entry_at xs name = None" using assms(4) by (simp add: db_map_def)
  from createBucket_ok [OF assms(1) inv len assms(5) this, of fuel'] obtain c w2 v x' y where
    c: "createBucket (Suc fuel') b (Item_string name) w = Inr (Some c, w2)" "inline_value v []"
      "root_edited w w2 t x b m (put_entry name bucketLeafFlag v xs)" "bucketHeap w2 b = Some x'" "buckets x' = [(Item_string name, c)]"
      "bucketHeap w2 c = Some y" "rootNode y = None" "nodes y = []" "buckets y = []" by blast
  have "txHeap w t = Some x" "rootBucket x = Some b" using assms(1) by (simp_all add: started_def begun_def)
  then have fn: "create_fn (Suc fuel') name t w = Inr (0, w2)" using c(1) by (simp add: create_fn_def Tx_createBucket_def tx_root_def act_simps)
  obtain y2 where y2: "txHeap w2 t = Some y2" "writable y2" "tx_db y2" "rootBucket y2 = Some b"
    using c(3) assms(1) by (auto simp: root_edited_def started_def begun_def)
  let ?w2 = "w2\<lparr>txHeap := (txHeap w2)(t \<mapsto> y2\<lparr>managed := False\<rparr>)\<rparr>"
  have "solo w2 b" using c(3) by (simp add: root_edited_def)
  then have "leaf_tree 1 ?w2 b" using c(4-6,8,9) by (auto simp: solo_def leaf_nodes_def lone_leaf_def)
  from Bucket_rebalance_leaf [OF this, of "Suc (Suc (Suc fuel))"] obtain h where
    h: "Bucket_rebalance (Suc (Suc (Suc fuel))) b ?w2 = Inr ((), ?w2\<lparr>nodeHeap := h\<rparr>)" "cleared (nodeHeap ?w2) h" by auto
  have sp: "Bucket_spill (Suc (Suc (Suc fuel))) b (?w2\<lparr>nodeHeap := h\<rparr>) = spill_root (Suc (Suc fuel)) b (?w2\<lparr>nodeHeap := h\<rparr>)"
    by (rule Bucket_spill_untouched [of _ _ x' _ c y]) (use c in simp_all)
  have "root_edited w (?w2\<lparr>nodeHeap := h\<rparr>) t x b m (put_entry name bucketLeafFlag v xs)"
    by (rule root_edited_settled [OF assms(1) c(3) y2(1)]) (use h(2) in simp)
  moreover have "leaf_bytes (put_entry name bucketLeafFlag v xs) + s \<le> 1024"
    using edit_sizes(2) [OF inv assms(5), of bucketLeafFlag v] c(2) assms(3) by (simp add: inline_value_def BUCKETHEADERSIZE_def leaf_bytes_def)
  moreover have "storable []" "plain []" "entry_map [] = Map.empty" by (simp_all add: storable_def leaf_inv_def plain_def entry_map_def fun_eq_iff)
  ultimately show ?thesis
    using leads_to_mapI [OF assms(1,2,5) c(2)] leads_toI [where fn = "create_fn (Suc fuel') name" and t = t and w = w, OF fn y2 h(1) sp] by metis
qed

lemma update_create:
  assumes "db_state (Suc n) (s + (48 + length name)) w M" and "M name = None" and "key_ok name"
  shows "\<exists>w'. DB_update (Suc (Suc (Suc fuel))) [] (create_fn (Suc fuel') name) w = Inr (0, w') \<and> db_state n s w' (M(name \<mapsto> Map.empty))"
  by (rule update_step [OF assms(1)]) (use create_leads [OF _ _ _ _ assms(3)] assms(2) in blast)

section \<open>Using the new bucket at once\<close>

text \<open>
  A bucket that was just created shows an inline page that lies in the argument of \<open>openBucket\<close>, which is gone. Its
  first search reads it.
\<close>

lemma dangling_bucket:
  assumes "bucketHeap w c = Some y" and "txHeap w (bucket_tx y) = Some x" and "tx_db x" and "writable x" and "rootNode y = None"
    and "bh_root (bucketHeader y) = 0" and "bucket_page y = Some DeadItem" and "bucket_op_ok a"
  shows "bucket_run (Suc fuel) c (a # ops) w = Inl UseAfterFree"
proof -
  let ?w = "count_cursor c w"
  have w': "bucketHeap ?w c = Some y" using assms(1) by simp
  have "createCursor c w = Inr (Cursor_new c, ?w)" using createCursor_apply assms(1,2) by simp
  moreover have "getPageNode c 0 ?w = Inr ((None, Some DeadItem), ?w)"
    using w' assms(5-7) by (simp add: getPageNode_def act_simps)
  then have "seek (Suc fuel) k (Cursor_new c) ?w = Inl UseAfterFree" for k
    using w' assms(6) by (simp add: seek_def do_seek_def getRootPage_def act_simps Cursor_new_def clearElements_def)
  moreover have "(of_nat (length k) :: u32) \<noteq> 0" "\<not> MAXKEYSIZE < of_nat (length k)" if "key_ok k" "length k \<le> 32768" for k
    using that key_ok_length by (auto simp: MAXKEYSIZE_def word_less_nat_alt unat_of_nat)
  ultimately show ?thesis
    using assms(1-4,8) key_ok_length by (cases a) (simp_all add: Bucket_put_def Bucket_remove_def act_simps not_less [symmetric])
qed

text \<open>A user function for \<open>DB::update\<close>: create a bucket and put and remove entries, as \<open>bolt_test.cc\<close> does.\<close>

definition create_edit_fn :: "nat \<Rightarrow> byte list \<Rightarrow> item map_op list \<Rightarrow> tx_ptr \<Rightarrow> int act" where
  "create_edit_fn fuel name ops t =
     bnd (Tx_createBucket fuel t (Item_string name)) (\<lambda>c. case c of None \<Rightarrow> ret (- 1) | Some c \<Rightarrow> bucket_run fuel c ops)"

lemma create_edit_fails:
  assumes "started w t x b m xs" and "leaf_inv xs" and "length xs < 2 ^ 31" and "key_ok name" and "entry_at xs name = None" and "bucket_op_ok a"
  shows "create_edit_fn (Suc fuel) name (a # ops) t w = Inl UseAfterFree"
proof -
  obtain c w2 y v where c: "createBucket (Suc fuel) b (Item_string name) w = Inr (Some c, w2)" "root_edited w w2 t x b m (put_entry name bucketLeafFlag v xs)"
      "bucketHeap w2 c = Some y" "rootNode y = None" "bucket_tx y = t" "bh_root (bucketHeader y) = 0" "bucket_page y = Some DeadItem"
    using createBucket_ok [OF assms(1-5), of fuel] by blast
  have x: "txHeap w t = Some x" "rootBucket x = Some b" "tx_db x" "writable x" using assms(1) by (simp_all add: started_def begun_def)
  obtain x2 where x2: "txHeap w2 t = Some x2" "tx_db x2" "writable x2" using c(2) x(3,4) by (auto simp: root_edited_def)
  have "bucket_run (Suc fuel) c (a # ops) w2 = Inl UseAfterFree"
    by (rule dangling_bucket [OF c(3)]) (use c x2 assms(6) in simp_all)
  then show ?thesis using c(1) x(1,2) by (simp add: create_edit_fn_def Tx_createBucket_def tx_root_def act_simps del: bucket_run.simps)
qed

lemma update_fails:
  assumes "db_state (Suc n) s w M"
    and "\<And>w1 t x b m xs. started w1 t x b m xs \<Longrightarrow> db_ok xs \<Longrightarrow> leaf_bytes xs + s \<le> 1024 \<Longrightarrow> db_map xs = M \<Longrightarrow> fn t w1 = Inl e"
  shows "DB_update fuel hs fn w = Inl e"
proof -
  obtain m xs where d: "idle w" "leaf_db w m xs" "room (Suc n) w m" "db_ok xs" "leaf_bytes xs + s \<le> 1024" "db_map xs = M"
    using assms(1) by (auto simp: db_state_def)
  obtain w1 t x b where b: "beginRWTx w = Inr (Some t, w1)" "set_managed t True w1 = Inr ((), w1\<lparr>txHeap := (txHeap w1)(t \<mapsto> x\<lparr>managed := True\<rparr>)\<rparr>)"
      "started (w1\<lparr>txHeap := (txHeap w1)(t \<mapsto> x\<lparr>managed := True\<rparr>)\<rparr>) t (x\<lparr>managed := True\<rparr>) b m xs"
    by (rule update_starts [OF d(1-3)]) (rule that)
  from assms(2) [OF b(3) d(4-6)] show ?thesis using b(1,2) by (simp add: DB_update_def act_simps)
qed

lemma update_create_edit:
  assumes "db_state (Suc n) s w M" and "M name = None" and "key_ok name" and "bucket_op_ok a"
  shows "DB_update fuel' hs (create_edit_fn (Suc fuel) name (a # ops)) w = Inl UseAfterFree"
proof (rule update_fails [OF assms(1)])
  fix w1 t x b m xs
  assume a: "started w1 t x b m xs" "db_ok xs" "leaf_bytes xs + s \<le> 1024" "db_map xs = M"
  have "leaf_inv xs" "length xs < 2 ^ 31" "entry_at xs name = None"
    using a leaf_bytes_bounds(1) [of xs] assms(2) by (auto simp: db_ok_def storable_def db_map_def)
  then show "create_edit_fn (Suc fuel) name (a # ops) t w1 = Inl UseAfterFree"
    using create_edit_fails [OF a(1)] assms(3,4) by blast
qed

section \<open>Viewing\<close>

lemma view_state:
  assumes "db_state n s w M" and "key_ok name" and "key_ok k"
  shows "\<exists>w'. DB_view (lookup_fn (Suc fuel) name k obs) w = Inr (if obs (found_in M name k) = 0 then 0 else - 1, w') \<and> db_state n s w' M"
proof -
  obtain m xs where d: "idle w" "leaf_db w m xs" "room n w m" "db_ok xs" "leaf_bytes xs + s \<le> 1024" "db_map xs = M"
    using assms(1) by (auto simp: db_state_def)
  have "leaf_bytes xs < 4096" using d(5) by simp
  from view_lookup [OF d(1-4) this assms(2,3), of fuel obs] show ?thesis using d(4-6) unfolding db_state_def by blast
qed

end
