(* ===== verification/Database.thy ===== *)
theory Database
  imports Bucket_Create Reopen
begin

unbundle bit_operations_syntax

text \<open>
  The database as its users see it: a map of buckets, each a map of values, changed by update
  transactions and read by view transactions. The locale \<open>nested_store\<close> states what the two calls promise
  of one transaction; every sequence of transactions then answers as the nested map does.
\<close>

section \<open>The specification\<close>

type_synonym nested = "byte list \<Rightarrow> (byte list \<Rightarrow> item option) option"

datatype db_call =
    Create_bucket "byte list"
  | Edit_bucket "byte list" "item map_op list"
  | Look_up "byte list" "byte list" "item option \<Rightarrow> int"
  | Open_again

text \<open>What a call makes of the map, the status it returns, when it is allowed, and the commits and bytes it may use up.\<close>

fun call_step :: "db_call \<Rightarrow> nested \<Rightarrow> nested" where
  "call_step (Create_bucket name) M = M(name \<mapsto> Map.empty)"
| "call_step (Edit_bucket name ops) M = M(name := map_option (fold apply_op ops) (M name))"
| "call_step (Look_up name k obs) M = M"
| "call_step Open_again M = M"

fun call_status :: "db_call \<Rightarrow> nested \<Rightarrow> int" where
  "call_status (Look_up name k obs) M = (if obs (found_in M name k) = 0 then 0 else - 1)"
| "call_status _ M = 0"

fun call_enabled :: "db_call \<Rightarrow> nested \<Rightarrow> bool" where
  "call_enabled (Create_bucket name) M \<longleftrightarrow> key_ok name \<and> M name = None"
| "call_enabled (Edit_bucket name ops) M \<longleftrightarrow> key_ok name \<and> M name \<noteq> None \<and> ops \<noteq> [] \<and> list_all small_op ops"
| "call_enabled (Look_up name k obs) M \<longleftrightarrow> key_ok name \<and> key_ok k"
| "call_enabled Open_again M \<longleftrightarrow> True"

fun call_commits :: "db_call \<Rightarrow> nat" where
  "call_commits (Create_bucket name) = 1"
| "call_commits (Edit_bucket name ops) = 1"
| "call_commits _ = 0"

fun call_bytes :: "db_call \<Rightarrow> nat" where
  "call_bytes (Create_bucket name) = 48 + length name"
| "call_bytes (Edit_bucket name ops) = sum_list (map op_bytes ops)"
| "call_bytes _ = 0"

fun spec_run :: "db_call list \<Rightarrow> nested \<Rightarrow> int list \<times> nested" where
  "spec_run [] M = ([], M)"
| "spec_run (c # cs) M = (let (rs, M') = spec_run cs (call_step c M) in (call_status c M # rs, M'))"

fun spec_enabled :: "db_call list \<Rightarrow> nested \<Rightarrow> bool" where
  "spec_enabled [] M \<longleftrightarrow> True"
| "spec_enabled (c # cs) M \<longleftrightarrow> call_enabled c M \<and> spec_enabled cs (call_step c M)"

section \<open>The interface\<close>

fun run_calls :: "(db_call \<Rightarrow> 's \<Rightarrow> 'e + int \<times> 's) \<Rightarrow> db_call list \<Rightarrow> 's \<Rightarrow> 'e + int list \<times> 's" where
  "run_calls call [] w = Inr ([], w)"
| "run_calls call (c # cs) w =
     (case call c w of Inl e \<Rightarrow> Inl e | Inr (r, w') \<Rightarrow>
      (case run_calls call cs w' of Inl e \<Rightarrow> Inl e | Inr (rs, w'') \<Rightarrow> Inr (r # rs, w'')))"

locale nested_store =
  fixes state :: "nat \<Rightarrow> nat \<Rightarrow> 's \<Rightarrow> nested \<Rightarrow> bool" and call :: "db_call \<Rightarrow> 's \<Rightarrow> 'e + int \<times> 's"
  assumes call_ok: "state (n + call_commits c) (s + call_bytes c) w M \<Longrightarrow> call_enabled c M \<Longrightarrow>
    \<exists>w'. call c w = Inr (call_status c M, w') \<and> state n s w' (call_step c M)"
begin

lemma calls_refine:
  "state (n + sum_list (map call_commits cs)) (s + sum_list (map call_bytes cs)) w M \<Longrightarrow> spec_enabled cs M \<Longrightarrow>
    \<exists>w'. run_calls call cs w = Inr (fst (spec_run cs M), w') \<and> state n s w' (snd (spec_run cs M))"
proof (induction cs arbitrary: w M)
  case (Cons c cs)
  let ?n = "n + sum_list (map call_commits cs)" and ?s = "s + sum_list (map call_bytes cs)"
  have "state (?n + call_commits c) (?s + call_bytes c) w M" using Cons.prems(1) by (simp add: ac_simps)
  from call_ok [OF this] Cons.prems(2) obtain w1 where
    w1: "call c w = Inr (call_status c M, w1)" "state ?n ?s w1 (call_step c M)" by auto
  from Cons.IH [OF w1(2)] Cons.prems(2) obtain w' where
    "run_calls call cs w1 = Inr (fst (spec_run cs (call_step c M)), w')" "state n s w' (snd (spec_run cs (call_step c M)))" by auto
  then show ?case using w1(1) by (auto simp: Let_def split: prod.split)
qed simp

end

section \<open>Opening\<close>

lemma reopen_state:
  assumes "db_state n s w M" and "disk g = disk w" and "env_ok (env g)"
  shows "\<exists>w'. DB_Open session_options (DB_new g) = Inr (0, w') \<and> db_state n s w' M"
proof -
  obtain m xs where d: "leaf_db w m xs" "room n w m" "db_ok xs" "leaf_bytes xs + s \<le> 1024" "db_map xs = M"
    using assms(1) by (auto simp: db_state_def)
  have re: "datasz w \<le> 2 ^ 24" "length (disk w) \<le> nat (datasz w)" "unat (totalPageNumber m) * 4096 \<le> nat (datasz w)"
    using d(1) by (simp_all add: leaf_db_def reopenable_def DEFAULTALLOCSIZE_def)
  then have sz: "length (disk g) \<le> 2 ^ 24" "unat (totalPageNumber m) * 4096 \<le> 2 ^ 24" "nat (datasz w) \<le> 2 ^ 24" using assms(2) by simp_all
  let ?fs = "sort (ids (freelist w) @ pending_ids (freelist w))"
  have "db_file (disk g) m xs ?fs" using leaf_db_file [OF d(1)] assms(2) by simp
  from open_file [OF this assms(3) sz(1), of session_options] sz(2) obtain w' where
    w': "DB_Open session_options (DB_new g) = Inr (0, w')" "idle w'" "leaf_db w' m xs" "2 ^ 24 \<le> nat (datasz w')" "ids (freelist w') = ?fs"
      "pending_ids (freelist w') = []" by (auto simp: session_options_def)
  have "fl_fits (freelist w') k = fl_fits (freelist w) k" for k using w'(5,6) by (simp add: fl_fits_def)
  then have "room n w' m" using d(2) w'(4) sz(3) by (simp add: room_def)
  then show ?thesis using w' d(3-5) unfolding db_state_def by blast
qed

text \<open>\<open>DB::DbClose\<close> of an object without open transactions.\<close>

lemma close_idle:
  assumes "idle w"
  shows "\<exists>v. DbClose w = Inr ((), v) \<and> disk v = disk w \<and> env v = env w \<and> \<not> opened v \<and> fd v \<in> {- 1, 0}"
  using assms
  by (auto simp: DbClose_def act_simps idle_def lock_rwLock_def lock_metaLock_def getMmapRLock_def unlockMmapLock_def unlock_metaLock_def writerLeave_def)

lemma open_new_state:
  assumes "disk g = []" and "env_ok (env g)" and "getpagesize (env g) = 4096" and "n \<le> 254" and "s \<le> 1008"
  shows "\<exists>w'. DB_Open session_options (DB_new g) = Inr (0, w') \<and> db_state n s w' Map.empty"
proof -
  from open_new_file [OF assms(1-3)] obtain w' where
    w': "DB_Open session_options (DB_new g) = Inr (0, w')" "idle w'" "leaf_db w' (init_meta_of 4096 1) []" "2 ^ 24 \<le> nat (datasz w')"
      "ids (freelist w') = []" "pending_ids (freelist w') = []" by blast
  have "room n w' (init_meta_of 4096 1)" using w'(4-6) assms(4) by (simp add: room_def fl_fits_def init_meta_of_def)
  moreover have "db_ok []" "db_map [] = Map.empty" "leaf_bytes [] + s \<le> 1024"
    using assms(5) by (simp_all add: db_ok_def storable_def leaf_inv_def db_map_def entry_at_def leaf_bytes_def fun_eq_iff)
  ultimately show ?thesis using w'(1-3) unfolding db_state_def by blast
qed

section \<open>The database implements it\<close>

text \<open>
  The calls of the program. Opening again is \<open>DbClose\<close> of the object, the constructor on whatever memory there is, and
  \<open>Open\<close> on the file.
\<close>

fun do_call :: "nat \<Rightarrow> db_call \<Rightarrow> int act" where
  "do_call fuel (Create_bucket name) = DB_update (Suc (Suc fuel)) [] (create_fn fuel name)"
| "do_call fuel (Edit_bucket name ops) = DB_update (Suc (Suc fuel)) [] (edit_fn fuel name ops)"
| "do_call fuel (Look_up name k obs) = DB_view (lookup_fn fuel name k obs)"
| "do_call fuel Open_again = thn DbClose (\<lambda>w. DB_Open session_options (DB_new w))"

interpretation db: nested_store db_state "do_call (Suc fuel)" for fuel
proof (unfold_locales, goal_cases)
  case (1 n c s w M)
  show ?case
  proof (cases c)
    case (Create_bucket name)
    then show ?thesis using update_create [of n s name w M fuel fuel] 1 by simp
  next
    case (Edit_bucket name ops)
    then obtain f where "M name = Some f" using 1(2) by auto
    then show ?thesis using update_edit [of n s ops w M name f fuel fuel] 1 Edit_bucket by (simp add: list_all_iff)
  next
    case (Look_up name k obs)
    then show ?thesis using view_state [of n s w M name k fuel obs] 1 by simp
  next
    case Open_again
    have i: "idle w" using 1(1) by (auto simp: db_state_def)
    obtain v where v: "DbClose w = Inr ((), v)" "disk v = disk w" "env v = env w" using close_idle [OF i] by blast
    moreover have "env_ok (env v)" using v(3) i by (simp add: idle_def)
    ultimately show ?thesis using reopen_state [of n s w M v] 1(1) Open_again by (simp add: act_simps)
  qed
qed

text \<open>C1: The database is a map of maps, within these bounds: system calls succeed, pages have 4096 bytes, each update
  transaction either creates one new bucket or runs a list of puts and removals on one bucket that an earlier transaction
  created, each view transaction looks one key of one bucket up, at most 254 transactions commit, and the bytes they add are at most
  1008 (so the buckets stay inline on one root page, and the freelist on one page). Starting from an empty file, \<open>DB::Open\<close>
  and then every sequence of such transactions, with the database closed by \<open>DbClose\<close> and opened by a new object
  anywhere between them, runs to its end and answers exactly as the map of maps does: each update returns 0 and is
  committed, each view sees what the commits before it left, through the pages in the file and nothing else.\<close>

theorem database_session:
  assumes "disk g = []" and "env_ok (env g)" and "getpagesize (env g) = 4096" and "spec_enabled cs Map.empty"
    and "sum_list (map call_commits cs) \<le> 254" and "sum_list (map call_bytes cs) \<le> 1008"
  shows "\<exists>w w'. DB_Open session_options (DB_new g) = Inr (0, w) \<and>
    run_calls (do_call (Suc fuel)) cs w = Inr (fst (spec_run cs Map.empty), w')"
proof -
  obtain w where w: "DB_Open session_options (DB_new g) = Inr (0, w)" "db_state (sum_list (map call_commits cs)) (sum_list (map call_bytes cs)) w Map.empty"
    using open_new_state [OF assms(1-3,5,6)] by blast
  then show ?thesis using db.calls_refine [of 0 cs 0 w Map.empty fuel] assms(4) by auto
qed

definition session_example :: "db_call list" where
  "session_example = [Create_bucket [98], Edit_bucket [98] [Put [107] (Item_string [118]), Put [108] (Item_string [119]), Del [108]],
     Look_up [98] [107] (\<lambda>r. if r = Some (Item_string [118]) then 0 else 1), Open_again,
     Look_up [98] [107] (\<lambda>r. if r = Some (Item_string [118]) then 0 else 1), Look_up [98] [108] (\<lambda>r. if r = Some Item_default then 0 else 1),
     Look_up [99] [108] (\<lambda>r. if r = None then 7 else 0)]"

theorem database_session_witness:
  "\<exists>w w'. DB_Open session_options (DB_new world_example) = Inr (0, w) \<and> run_calls (do_call 1) session_example w = Inr ([0, 0, 0, 0, 0, 0, - 1], w')"
proof -
  have "disk world_example = []" "env_ok (env world_example)" "getpagesize (env world_example) = 4096"
    by (simp_all add: world_example_def env_example_ok) (simp add: env_example_def)
  moreover have "spec_enabled session_example Map.empty" "sum_list (map call_commits session_example) \<le> 254"
      "sum_list (map call_bytes session_example) \<le> 1008"
    by (simp_all add: session_example_def key_ok_def Item_string_def item_wf_def)
  moreover have "fst (spec_run session_example Map.empty) = [0, 0, 0, 0, 0, 0, - 1]"
    by (simp add: session_example_def found_in_def Let_def)
  ultimately show ?thesis using database_session [of world_example session_example 0] by simp
qed

section \<open>A bucket used in the transaction that creates it\<close>

text \<open>C35: After any session of the database (as in the map-of-maps theorem), an update whose function creates a new bucket
  and then puts or removes an entry in it, as the tests do, does not get past the first put or removal: the new bucket's inline page
  lies in a temporary of \<open>openBucket\<close>, and the search reads it after it was freed.\<close>

theorem new_bucket_reads_freed_page:
  assumes "disk g = []" and "env_ok (env g)" and "getpagesize (env g) = 4096" and "spec_enabled cs Map.empty"
    and "sum_list (map call_commits cs) \<le> 253" and "sum_list (map call_bytes cs) \<le> 1008"
    and "snd (spec_run cs Map.empty) name = None" and "key_ok name" and "bucket_op_ok a"
  shows "\<exists>w rs w'. DB_Open session_options (DB_new g) = Inr (0, w) \<and> run_calls (do_call (Suc fuel)) cs w = Inr (rs, w') \<and>
    DB_update fuel' hs (create_edit_fn (Suc fuel) name (a # ops)) w' = Inl UseAfterFree"
proof -
  obtain w where w: "DB_Open session_options (DB_new g) = Inr (0, w)"
      "db_state (1 + sum_list (map call_commits cs)) (0 + sum_list (map call_bytes cs)) w Map.empty"
    using open_new_state [OF assms(1-3), of "1 + sum_list (map call_commits cs)" "0 + sum_list (map call_bytes cs)"] assms(5,6) by auto
  from db.calls_refine [OF w(2) assms(4), of fuel] obtain w' where
    r: "run_calls (do_call (Suc fuel)) cs w = Inr (fst (spec_run cs Map.empty), w')" "db_state (Suc 0) 0 w' (snd (spec_run cs Map.empty))" by auto
  from update_create_edit [OF r(2) assms(7-9)] show ?thesis using w(1) r(1) by blast
qed

theorem new_bucket_reads_freed_page_witness:
  "\<exists>w rs w'. DB_Open session_options (DB_new world_example) = Inr (0, w) \<and> run_calls (do_call 1) [Create_bucket [98]] w = Inr (rs, w') \<and>
     DB_update 9 [] (create_edit_fn 1 [99] [Put [102] (Item_string [102]), Del [102]]) w' = Inl UseAfterFree"
proof -
  have "disk world_example = []" "env_ok (env world_example)" "getpagesize (env world_example) = 4096"
    by (simp_all add: world_example_def env_example_ok) (simp add: env_example_def)
  then show ?thesis
    using new_bucket_reads_freed_page [of world_example "[Create_bucket [98]]" "[99]" "Put [102] (Item_string [102])" 0 9 "[]" "[Del [102]]"]
    by (simp add: key_ok_def Item_string_def MAXVALUESIZE_def)
qed

end
