(* ===== verification/Obj_Pool.thy ===== *)
theory Obj_Pool
  imports Prelude
begin

text \<open>
  The object pool of \<open>src/src/Bolt/obj_pool.h\<close>: a block of memory cut into slots, a stack of free
  slots and a bitmap that catches double frees. The pool's bookkeeping sits inside \<open>assert\<close>, so
  it exists only in builds without \<open>NDEBUG\<close>; \<open>ndebug\<close> is the parameter of the operations that
  says which build it is. The constructors and destructors of the pooled objects are not part of
  the pool. The lemmas show that with assertions the pool is a correct allocator (an interface
  stated as the locale \<open>block_pool\<close>) and what is lost without them.
\<close>

section \<open>State\<close>

record objPool =
  free_list :: "u64 list"
  free_list_size :: nat
  mem_ptr :: u64
  obj_cnt :: nat
  real_size :: u64
  malloc_succeed_cnt :: u64
  malloc_failed_cnt :: u64
  free_cnt :: u64
  lowest_free_cnt :: int
  bitmap :: "bool list"
  account_malloc_cnt :: "u64 list"
  account_free_cnt :: "u64 list"
  obj_size :: u64

text \<open>
  The constructor; \<open>mem\<close> is what \<open>posix_memalign\<close> returns. Without memory the array of free slots
  is not created either.
\<close>

definition ObjPool_new :: "nat \<Rightarrow> u64 \<Rightarrow> u64 \<Rightarrow> u64 option \<Rightarrow> objPool" where
  "ObjPool_new cnt osz alignment mem =
     (let p = \<lparr>free_list = [], free_list_size = 0, mem_ptr = 0, obj_cnt = cnt,
                real_size = ((osz * of_nat cnt - 1) div alignment + 1) * alignment,
                malloc_succeed_cnt = 0, malloc_failed_cnt = 0, free_cnt = 0,
                lowest_free_cnt = 2 ^ 31 - 1, bitmap = replicate cnt False,
                account_malloc_cnt = replicate cnt 0, account_free_cnt = replicate cnt 0, obj_size = osz\<rparr>
      in case mem of
           None \<Rightarrow> p
         | Some a \<Rightarrow> p\<lparr>mem_ptr := a, free_list := map (\<lambda>i. a + of_nat i * osz) [0..<cnt],
                       free_list_size := cnt\<rparr>)"

section \<open>Operations\<close>

text \<open>\<open>GetIndex\<close>; -1 is \<open>None\<close>.\<close>

definition GetIndex :: "u64 \<Rightarrow> objPool \<Rightarrow> nat option" where
  "GetIndex a p =
     (let offset = a - mem_ptr p in
      if obj_size p * of_nat (obj_cnt p) \<le> offset then None
      else if offset mod obj_size p \<noteq> 0 then None
      else Some (unat (offset div obj_size p)))"

definition MallocCheckAndSet :: "u64 \<Rightarrow> objPool \<Rightarrow> bool \<times> objPool" where
  "MallocCheckAndSet a p =
     (let p = p\<lparr>malloc_succeed_cnt := malloc_succeed_cnt p + 1\<rparr>;
          p = (if int (free_list_size p) < lowest_free_cnt p
               then p\<lparr>lowest_free_cnt := int (free_list_size p)\<rparr> else p)
      in case GetIndex a p of
           None \<Rightarrow> (False, p)
         | Some idx \<Rightarrow>
             if bitmap p ! idx then (False, p)
             else (True, p\<lparr>bitmap := (bitmap p)[idx := True],
               account_malloc_cnt := (account_malloc_cnt p)[idx := account_malloc_cnt p ! idx + 1]\<rparr>))"

definition FreeCheckAndSet :: "u64 \<Rightarrow> objPool \<Rightarrow> bool \<times> objPool" where
  "FreeCheckAndSet a p =
     (let p = p\<lparr>free_cnt := free_cnt p + 1\<rparr>
      in case GetIndex a p of
           None \<Rightarrow> (False, p)
         | Some idx \<Rightarrow>
             if \<not> bitmap p ! idx then (False, p)
             else (True, p\<lparr>bitmap := (bitmap p)[idx := False],
               account_free_cnt := (account_free_cnt p)[idx := account_free_cnt p ! idx + 1]\<rparr>))"

text \<open>\<open>assert(call)\<close>: with \<open>NDEBUG\<close> the call is not made at all.\<close>

definition assert_call :: "bool \<Rightarrow> (objPool \<Rightarrow> bool \<times> objPool) \<Rightarrow> objPool \<Rightarrow> objPool result" where
  "assert_call ndebug f p =
     (if ndebug then Inr p
      else let (ok, p') = f p in if ok then Inr p' else Inl AssertFail)"

definition Malloc :: "bool \<Rightarrow> objPool \<Rightarrow> (u64 option \<times> objPool) result" where
  "Malloc ndebug p =
     (if free_list_size p = 0 then Inr (None, p\<lparr>malloc_failed_cnt := malloc_failed_cnt p + 1\<rparr>)
      else
        let p = p\<lparr>free_list_size := free_list_size p - 1\<rparr>;
            ele = free_list p ! free_list_size p
        in and_then (assert_call ndebug (MallocCheckAndSet ele) p) (\<lambda>p. Inr (Some ele, p)))"

text \<open>The array of free slots has \<open>obj_cnt\<close> places; storing behind it leaves the allocation.\<close>

definition Free :: "bool \<Rightarrow> u64 \<Rightarrow> objPool \<Rightarrow> objPool result" where
  "Free ndebug a p =
     and_then (assert_call ndebug (FreeCheckAndSet a) p) (\<lambda>p.
     and_then (check (free_list_size p < length (free_list p)) OutOfBounds) (\<lambda>_.
     Inr (p\<lparr>free_list := (free_list p)[free_list_size p := a], free_list_size := Suc (free_list_size p)\<rparr>)))"

section \<open>Interface\<close>

text \<open>
  What a client relies on: a fixed set of slots, some of them in use; allocation takes a slot that
  is not in use or reports that there is none; release accepts exactly the slots in use.
\<close>

locale block_pool =
  fixes inv :: "'p \<Rightarrow> bool" and slots used :: "'p \<Rightarrow> 'a set"
    and alloc :: "'p \<Rightarrow> ('a option \<times> 'p) result" and release :: "'a \<Rightarrow> 'p \<Rightarrow> 'p result"
  assumes used_slots: "inv p \<Longrightarrow> used p \<subseteq> slots p \<and> finite (slots p)"
    and alloc_law: "inv p \<Longrightarrow> \<exists>r p'. alloc p = Inr (r, p') \<and> inv p' \<and> slots p' = slots p \<and>
      (case r of
         None \<Rightarrow> used p = slots p \<and> used p' = used p
       | Some a \<Rightarrow> a \<in> slots p - used p \<and> used p' = insert a (used p))"
    and release_law: "inv p \<Longrightarrow> a \<in> used p \<Longrightarrow>
      \<exists>p'. release a p = Inr p' \<and> inv p' \<and> slots p' = slots p \<and> used p' = used p - {a}"
    and release_bad: "inv p \<Longrightarrow> a \<notin> used p \<Longrightarrow> \<exists>e. release a p = Inl e"
begin

text \<open>\<open>k\<close> allocations in a row.\<close>

fun alloc_many :: "nat \<Rightarrow> 'p \<Rightarrow> ('a list \<times> 'p) result" where
  "alloc_many 0 p = Inr ([], p)"
| "alloc_many (Suc k) p =
     and_then (alloc p) (\<lambda>(r, p').
     case r of
       None \<Rightarrow> Inr ([], p')
     | Some a \<Rightarrow> and_then (alloc_many k p') (\<lambda>(as, q). Inr (a # as, q)))"

lemma alloc_many_spec:
  "inv p \<Longrightarrow> \<exists>as q. alloc_many k p = Inr (as, q) \<and> inv q \<and> slots q = slots p \<and> distinct as \<and>
     set as \<subseteq> slots p - used p \<and> used q = used p \<union> set as \<and>
     length as = min k (card (slots p - used p))"
proof (induction k arbitrary: p)
  case 0
  then show ?case by simp
next
  case (Suc k)
  from alloc_law [OF Suc.prems] obtain r p' where a: "alloc p = Inr (r, p')" "inv p'" "slots p' = slots p"
    and r: "case r of None \<Rightarrow> used p = slots p \<and> used p' = used p
      | Some a \<Rightarrow> a \<in> slots p - used p \<and> used p' = insert a (used p)" by blast
  show ?case
  proof (cases r)
    case None
    then show ?thesis using a r by auto
  next
    case (Some x)
    then have x: "x \<in> slots p - used p" "used p' = insert x (used p)" using r by auto
    from Suc.IH [OF a(2)] obtain as q where q: "alloc_many k p' = Inr (as, q)" "inv q" "slots q = slots p'"
      "distinct as" "set as \<subseteq> slots p' - used p'" "used q = used p' \<union> set as"
      "length as = min k (card (slots p' - used p'))" by blast
    have "slots p - used p = insert x (slots p' - used p')" using x a(3) by auto
    moreover have "finite (slots p' - used p')" using used_slots [OF Suc.prems] a(3) by simp
    ultimately have "card (slots p - used p) = Suc (card (slots p' - used p'))" using x(2) by simp
    then show ?thesis using a q x Some by auto
  qed
qed

lemma alloc_release:
  assumes "inv p" and "alloc p = Inr (Some a, p')"
  shows "\<exists>q. release a p' = Inr q \<and> inv q \<and> used q = used p \<and> slots q = slots p"
proof -
  from alloc_law [OF assms(1)] assms(2) have "inv p'" "slots p' = slots p" "a \<notin> used p" "used p' = insert a (used p)"
    by auto
  then show ?thesis using release_law [of p' a] by auto
qed

end

section \<open>The pool as a block pool\<close>

definition slot :: "objPool \<Rightarrow> nat \<Rightarrow> u64" where
  "slot p i = mem_ptr p + of_nat i * obj_size p"

definition pool_slots :: "objPool \<Rightarrow> u64 set" where
  "pool_slots p = slot p ` {..<obj_cnt p}"

definition pool_used :: "objPool \<Rightarrow> u64 set" where
  "pool_used p = slot p ` {i \<in> {..<obj_cnt p}. bitmap p ! i}"

definition pool_inv :: "objPool \<Rightarrow> bool" where
  "pool_inv p \<longleftrightarrow>
     obj_size p \<noteq> 0 \<and> unat (mem_ptr p) + obj_cnt p * unat (obj_size p) < 2 ^ 64 \<and>
     length (free_list p) = obj_cnt p \<and> length (bitmap p) = obj_cnt p \<and>
     free_list_size p \<le> obj_cnt p \<and> distinct (take (free_list_size p) (free_list p)) \<and>
     set (take (free_list_size p) (free_list p)) = pool_slots p - pool_used p"

lemma slot_offset:
  assumes "unat (mem_ptr p) + obj_cnt p * unat (obj_size p) < 2 ^ 64" and "i \<le> obj_cnt p"
  shows "unat (of_nat i * obj_size p) = i * unat (obj_size p)"
proof -
  have "i * unat (obj_size p) \<le> obj_cnt p * unat (obj_size p)" using assms(2) by simp
  then have lt: "i * unat (obj_size p) < 2 ^ 64" using assms(1) by linarith
  have "of_nat i * obj_size p = of_nat (i * unat (obj_size p))" by simp
  then show ?thesis using lt by (simp only: unat_of_nat) simp
qed

lemma GetIndex_slot:
  assumes "pool_inv p" and "i < obj_cnt p"
  shows "GetIndex (slot p i) p = Some i"
proof -
  have inv: "obj_size p \<noteq> 0" "unat (mem_ptr p) + obj_cnt p * unat (obj_size p) < 2 ^ 64"
    using assms(1) by (simp_all add: pool_inv_def)
  have off: "slot p i - mem_ptr p = of_nat i * obj_size p" by (simp add: slot_def)
  have pos: "0 < unat (obj_size p)" using inv(1) by (simp add: unat_gt_0)
  have u: "unat (of_nat i * obj_size p) = i * unat (obj_size p)"
    "unat (of_nat (obj_cnt p) * obj_size p) = obj_cnt p * unat (obj_size p)"
    using slot_offset [OF inv(2)] assms(2) by simp_all
  have "\<not> obj_size p * of_nat (obj_cnt p) \<le> of_nat i * obj_size p"
    using u pos assms(2) by (simp add: word_le_nat_alt mult.commute [of "obj_size p"])
  moreover have "of_nat i * obj_size p mod obj_size p = 0"
    using u(1) by (simp add: word_arith_nat_mod)
  moreover have "unat (of_nat i * obj_size p div obj_size p) = i"
    using u(1) pos by (simp add: unat_div)
  ultimately show ?thesis by (simp add: GetIndex_def off)
qed

lemma GetIndex_Some:
  assumes "pool_inv p" and "GetIndex a p = Some i"
  shows "i < obj_cnt p \<and> a = slot p i"
proof -
  have inv: "obj_size p \<noteq> 0" "unat (mem_ptr p) + obj_cnt p * unat (obj_size p) < 2 ^ 64"
    using assms(1) by (simp_all add: pool_inv_def)
  let ?o = "a - mem_ptr p"
  have g: "\<not> obj_size p * of_nat (obj_cnt p) \<le> ?o" "?o mod obj_size p = 0" "i = unat (?o div obj_size p)"
    using assms(2) by (auto simp: GetIndex_def Let_def split: if_splits)
  have "unat ?o < obj_cnt p * unat (obj_size p)"
    using g(1) slot_offset [OF inv(2), of "obj_cnt p"] by (simp add: word_le_nat_alt mult.commute [of "obj_size p"])
  moreover have "i = unat ?o div unat (obj_size p)" using g(3) by (simp add: unat_div)
  ultimately have i: "i < obj_cnt p" by (simp add: less_mult_imp_div_less)
  have "of_nat i = ?o div obj_size p" using g(3) by simp
  then have "of_nat i * obj_size p = ?o" using g(2) div_mult_mod_eq [of ?o "obj_size p"] by simp
  then show ?thesis using i by (simp add: slot_def)
qed

lemma slot_inj: "pool_inv p \<Longrightarrow> i < obj_cnt p \<Longrightarrow> j < obj_cnt p \<Longrightarrow> slot p i = slot p j \<longleftrightarrow> i = j"
  using GetIndex_slot by (metis option.inject)

lemma slot_used: "pool_inv p \<Longrightarrow> i < obj_cnt p \<Longrightarrow> slot p i \<in> pool_used p \<longleftrightarrow> bitmap p ! i"
  using slot_inj by (auto simp: pool_used_def)

text \<open>Counters and the number of free slots play no role for the layout.\<close>

lemma GetIndex_cong:
  "mem_ptr q = mem_ptr p \<Longrightarrow> obj_size q = obj_size p \<Longrightarrow> obj_cnt q = obj_cnt p \<Longrightarrow> GetIndex a q = GetIndex a p"
  by (simp add: GetIndex_def Let_def)

lemma layout_cong:
  assumes "mem_ptr q = mem_ptr p" and "obj_size q = obj_size p" and "obj_cnt q = obj_cnt p"
  shows "slot q = slot p" and "pool_slots q = pool_slots p"
    and "bitmap q = bitmap p \<Longrightarrow> pool_used q = pool_used p"
  using assms by (auto simp: slot_def fun_eq_iff pool_slots_def pool_used_def)

lemma used_after_set:
  assumes "pool_inv p" and "i < obj_cnt p" and "mem_ptr q = mem_ptr p" and "obj_size q = obj_size p"
    and "obj_cnt q = obj_cnt p" and "bitmap q = (bitmap p)[i := v]"
  shows "pool_used q = (if v then insert (slot p i) (pool_used p) else pool_used p - {slot p i})"
proof -
  have len: "length (bitmap p) = obj_cnt p" using assms(1) by (simp add: pool_inv_def)
  have "pool_used q = slot p ` {j \<in> {..<obj_cnt p}. (bitmap p)[i := v] ! j}"
    using assms(5,6) layout_cong(1) [OF assms(3-5)] by (simp add: pool_used_def)
  also have "\<dots> = (if v then insert (slot p i) (pool_used p) else pool_used p - {slot p i})"
    using assms(2) len slot_inj [OF assms(1,2)] slot_inj [OF assms(1) _ assms(2)]
    by (auto simp: pool_used_def nth_list_update split: if_splits)
  finally show ?thesis .
qed

lemma pool_used_slots: "pool_used p \<subseteq> pool_slots p"
  by (auto simp: pool_used_def pool_slots_def)

lemma MallocCheckAndSet_free:
  assumes "GetIndex a p = Some i" and "\<not> bitmap p ! i"
  shows "\<exists>p'. MallocCheckAndSet a p = (True, p') \<and> mem_ptr p' = mem_ptr p \<and> obj_size p' = obj_size p \<and>
    obj_cnt p' = obj_cnt p \<and> bitmap p' = (bitmap p)[i := True] \<and> free_list p' = free_list p \<and>
    free_list_size p' = free_list_size p"
proof -
  have gi: "GetIndex a q = Some i" if "mem_ptr q = mem_ptr p" "obj_size q = obj_size p" "obj_cnt q = obj_cnt p" for q
    using GetIndex_cong [OF that] assms(1) by simp
  show ?thesis
    using assms(2) by (cases "int (free_list_size p) < lowest_free_cnt p") (simp_all add: MallocCheckAndSet_def Let_def gi)
qed

lemma Malloc_law:
  assumes "pool_inv p"
  shows "\<exists>r p'. Malloc False p = Inr (r, p') \<and> pool_inv p' \<and> pool_slots p' = pool_slots p \<and>
    (case r of
       None \<Rightarrow> pool_used p = pool_slots p \<and> pool_used p' = pool_used p
     | Some a \<Rightarrow> a \<in> pool_slots p - pool_used p \<and> pool_used p' = insert a (pool_used p))"
proof (cases "free_list_size p")
  case 0
  let ?p' = "p\<lparr>malloc_failed_cnt := malloc_failed_cnt p + 1\<rparr>"
  have "pool_slots ?p' = pool_slots p" "pool_used ?p' = pool_used p" by (rule layout_cong; simp)+
  moreover have "pool_slots p - pool_used p = {}" using assms 0 by (simp add: pool_inv_def)
  ultimately show ?thesis using 0 assms pool_used_slots [of p] by (auto simp: Malloc_def pool_inv_def)
next
  case (Suc s)
  let ?a = "free_list p ! s"
  have fl: "s < length (free_list p)" "length (bitmap p) = obj_cnt p" "s < obj_cnt p"
    "distinct (take (Suc s) (free_list p))" "set (take (Suc s) (free_list p)) = pool_slots p - pool_used p"
    using assms Suc by (auto simp: pool_inv_def)
  have tk: "take (Suc s) (free_list p) = take s (free_list p) @ [?a]" by (rule take_Suc_conv_app_nth [OF fl(1)])
  then have mem: "?a \<in> pool_slots p - pool_used p" using fl(5) by auto
  then obtain i where i: "i < obj_cnt p" "?a = slot p i" by (auto simp: pool_slots_def)
  then have nb: "\<not> bitmap p ! i" using mem slot_used [OF assms i(1)] by simp
  have gi: "GetIndex ?a (p\<lparr>free_list_size := s\<rparr>) = Some i"
    using GetIndex_cong [of "p\<lparr>free_list_size := s\<rparr>" p] GetIndex_slot [OF assms i(1)] i(2) by simp
  obtain p' where p': "Malloc False p = Inr (Some ?a, p')" "mem_ptr p' = mem_ptr p" "obj_size p' = obj_size p"
    "obj_cnt p' = obj_cnt p" "bitmap p' = (bitmap p)[i := True]" "free_list p' = free_list p" "free_list_size p' = s"
    using Suc nb MallocCheckAndSet_free [OF gi] by (auto simp: Malloc_def assert_call_def Let_def)
  have u: "pool_used p' = insert ?a (pool_used p)" using used_after_set [OF assms i(1) p'(2-5)] i(2) by simp
  moreover have sl: "pool_slots p' = pool_slots p" using layout_cong(2) [OF p'(2-4)] .
  moreover have "set (take s (free_list p)) = pool_slots p' - pool_used p'"
    using fl(4,5) u sl unfolding tk by auto
  then have "pool_inv p'" using assms p'(2-7) fl tk by (simp add: pool_inv_def)
  ultimately show ?thesis using p'(1) mem by auto
qed

lemma Free_law:
  assumes "pool_inv p" and "a \<in> pool_used p"
  shows "\<exists>p'. Free False a p = Inr p' \<and> pool_inv p' \<and> pool_slots p' = pool_slots p \<and> pool_used p' = pool_used p - {a}"
proof -
  let ?s = "free_list_size p"
  obtain i where i: "i < obj_cnt p" "a = slot p i" "bitmap p ! i" using assms(2) by (auto simp: pool_used_def)
  have fl: "length (free_list p) = obj_cnt p" "length (bitmap p) = obj_cnt p" "?s \<le> obj_cnt p"
    "distinct (take ?s (free_list p))" "set (take ?s (free_list p)) = pool_slots p - pool_used p"
    using assms(1) by (simp_all add: pool_inv_def)
  have "?s = card (pool_slots p - pool_used p)" using distinct_card [OF fl(4)] fl(1,3,5) by simp
  also have "\<dots> < card (pool_slots p)"
    using assms(2) pool_used_slots [of p] by (intro psubset_card_mono) (auto simp: pool_slots_def)
  also have "\<dots> \<le> obj_cnt p" using card_image_le [of "{..<obj_cnt p}" "slot p"] by (simp add: pool_slots_def)
  finally have lt: "?s < obj_cnt p" .
  have gi: "GetIndex a q = Some i" if "mem_ptr q = mem_ptr p" "obj_size q = obj_size p" "obj_cnt q = obj_cnt p" for q
    using GetIndex_cong [OF that] GetIndex_slot [OF assms(1) i(1)] i(2) by simp
  obtain p' where p': "Free False a p = Inr p'" "mem_ptr p' = mem_ptr p" "obj_size p' = obj_size p"
    "obj_cnt p' = obj_cnt p" "bitmap p' = (bitmap p)[i := False]" "free_list p' = (free_list p)[?s := a]"
    "free_list_size p' = Suc ?s"
    using i(3) lt fl(1) by (simp add: Free_def assert_call_def FreeCheckAndSet_def Let_def gi)
  have u: "pool_used p' = pool_used p - {a}" using used_after_set [OF assms(1) i(1) p'(2-5)] i(2) by simp
  have sl: "pool_slots p' = pool_slots p" using layout_cong(2) [OF p'(2-4)] .
  have tk: "take (Suc ?s) ((free_list p)[?s := a]) = take ?s (free_list p) @ [a]"
    using lt fl(1) by (simp add: take_Suc_conv_app_nth)
  have "distinct (take (Suc ?s) ((free_list p)[?s := a]))"
    "set (take (Suc ?s) ((free_list p)[?s := a])) = pool_slots p' - pool_used p'"
    using fl(4,5) assms(2) pool_used_slots [of p] u sl unfolding tk by auto
  then have "pool_inv p'" using assms(1) p'(2-7) fl lt by (simp add: pool_inv_def)
  then show ?thesis using p'(1) u sl by blast
qed

lemma Free_bad:
  assumes "pool_inv p" and "a \<notin> pool_used p"
  shows "Free False a p = Inl AssertFail"
proof -
  have gi: "GetIndex a (p\<lparr>free_cnt := c\<rparr>) = GetIndex a p" for c by (rule GetIndex_cong) simp_all
  show ?thesis
  proof (cases "GetIndex a p")
    case (Some i)
    then have "\<not> bitmap p ! i" using GetIndex_Some [OF assms(1) Some] assms(2) slot_used [OF assms(1)] by simp
    then show ?thesis using Some by (simp add: Free_def assert_call_def FreeCheckAndSet_def Let_def gi)
  qed (simp add: Free_def assert_call_def FreeCheckAndSet_def Let_def gi)
qed

interpretation pool: block_pool pool_inv pool_slots pool_used "Malloc False" "Free False"
proof unfold_locales
  show "pool_used p \<subseteq> pool_slots p \<and> finite (pool_slots p)" for p
    using pool_used_slots by (simp add: pool_slots_def)
qed (use Malloc_law Free_law Free_bad in blast)+

section \<open>Properties\<close>

fun Malloc_many :: "nat \<Rightarrow> objPool \<Rightarrow> (u64 list \<times> objPool) result" where
  "Malloc_many 0 p = Inr ([], p)"
| "Malloc_many (Suc k) p =
     and_then (Malloc False p) (\<lambda>(r, p').
     case r of
       None \<Rightarrow> Inr ([], p')
     | Some a \<Rightarrow> and_then (Malloc_many k p') (\<lambda>(as, q). Inr (a # as, q)))"

lemma Malloc_many_eq: "Malloc_many k p = pool.alloc_many k p"
  by (induction k arbitrary: p) (simp_all only: Malloc_many.simps pool.alloc_many.simps)

lemma ObjPool_new_inv:
  fixes al :: u64
  assumes "osz \<noteq> 0" and "unat a + cnt * unat osz < 2 ^ 64"
  defines "p \<equiv> ObjPool_new cnt osz al (Some a)"
  shows "pool_inv p" "pool_used p = {}" "pool_slots p = (\<lambda>i. a + of_nat i * osz) ` {..<cnt}" "card (pool_slots p) = cnt"
proof -
  have f: "mem_ptr p = a" "obj_size p = osz" "obj_cnt p = cnt" "bitmap p = replicate cnt False"
    "free_list p = map (slot p) [0..<cnt]" "free_list_size p = cnt"
    by (simp_all add: p_def ObjPool_new_def slot_def)
  show u: "pool_used p = {}" by (auto simp: pool_used_def f)
  show "pool_slots p = (\<lambda>i. a + of_nat i * osz) ` {..<cnt}" by (simp add: pool_slots_def slot_def f)
  have "inj_on (slot p) {..<cnt}"
  proof (rule inj_onI)
    fix i j assume ij: "i \<in> {..<cnt}" "j \<in> {..<cnt}" "slot p i = slot p j"
    then have "of_nat i * osz = of_nat j * osz" by (simp add: slot_def f)
    then have "i * unat osz = j * unat osz"
      using slot_offset [of p i] slot_offset [of p j] ij assms(2) f by auto
    then show "i = j" using assms(1) unat_gt_0 [of osz] by auto
  qed
  then have "distinct (map (slot p) [0..<cnt])" and c: "card (pool_slots p) = cnt"
    by (simp_all add: distinct_map atLeast0LessThan pool_slots_def f card_image)
  then show "pool_inv p" using assms(1,2) u by (simp add: pool_inv_def f atLeast0LessThan pool_slots_def)
  show "card (pool_slots p) = cnt" by (rule c)
qed

lemma pool_slots_apart:
  assumes "pool_inv p" and "x \<in> pool_slots p" and "y \<in> pool_slots p" and "x \<noteq> y"
  shows "unat x + unat (obj_size p) \<le> unat y \<or> unat y + unat (obj_size p) \<le> unat x"
proof -
  obtain i j where ij: "i < obj_cnt p" "j < obj_cnt p" "x = slot p i" "y = slot p j" using assms(2,3) by (auto simp: pool_slots_def)
  have b: "unat (mem_ptr p) + obj_cnt p * unat (obj_size p) < 2 ^ 64" using assms(1) by (simp add: pool_inv_def)
  have u: "unat (slot p n) = unat (mem_ptr p) + n * unat (obj_size p)" if "n < obj_cnt p" for n
  proof -
    have "n * unat (obj_size p) \<le> obj_cnt p * unat (obj_size p)" using that by simp
    then have "unat (mem_ptr p) + n * unat (obj_size p) < 2 ^ 64" using b by linarith
    then show ?thesis using slot_offset [OF b, of n] that unfolding slot_def by (subst unat_plus_if') simp
  qed
  have "Suc i \<le> j \<or> Suc j \<le> i" using ij assms(4) by (metis Suc_leI linorder_neqE_nat)
  then have "Suc i * unat (obj_size p) \<le> j * unat (obj_size p) \<or> Suc j * unat (obj_size p) \<le> i * unat (obj_size p)"
    using mult_le_mono1 by blast
  then show ?thesis using u ij by auto
qed

text \<open>
  C31: A pool for \<open>cnt\<close> objects, built with assertions, hands out exactly \<open>cnt\<close> objects: \<open>k\<close> calls of
  \<open>Malloc\<close> on a new pool succeed \<open>min k cnt\<close> times (then they return null), and no two of the objects
  they return overlap.
\<close>

theorem pool_objects_disjoint:
  assumes "osz \<noteq> 0" and "unat a + cnt * unat osz < 2 ^ 64"
  shows "\<exists>as q. Malloc_many k (ObjPool_new cnt osz al (Some a)) = Inr (as, q) \<and> length as = min k cnt \<and>
    distinct as \<and> (\<forall>x \<in> set as. \<forall>y \<in> set as. x \<noteq> y \<longrightarrow>
      unat x + unat osz \<le> unat y \<or> unat y + unat osz \<le> unat x)"
proof -
  let ?p = "ObjPool_new cnt osz al (Some a)"
  note new = ObjPool_new_inv [OF assms, of al]
  from pool.alloc_many_spec [OF new(1), of k] obtain as q where q: "Malloc_many k ?p = Inr (as, q)" "distinct as"
    "set as \<subseteq> pool_slots ?p" "length as = min k cnt" using new(2,4) by (auto simp: Malloc_many_eq)
  moreover have "obj_size ?p = osz" by (simp add: ObjPool_new_def)
  ultimately show ?thesis using pool_slots_apart [OF new(1)] by (intro exI [of _ as] exI [of _ q]) auto
qed

theorem pool_objects_disjoint_witness:
  "\<exists>as q. Malloc_many 3 (ObjPool_new 2 24 8 (Some 4096)) = Inr (as, q) \<and> length as = 2"
  using pool_objects_disjoint [of 24 4096 2 3 8] by auto

lemma double_free_detected:
  assumes "pool_inv p" and "Malloc False p = Inr (Some a, p1)"
  shows "\<exists>p2. Free False a p1 = Inr p2 \<and> pool_used p2 = pool_used p \<and> Free False a p2 = Inl AssertFail"
proof -
  from pool.alloc_release [OF assms] obtain p2 where p2: "Free False a p1 = Inr p2" "pool_inv p2" "pool_used p2 = pool_used p"
    by blast
  moreover have "a \<notin> pool_used p" using Malloc_law [OF assms(1)] assms(2) by auto
  ultimately show ?thesis using Free_bad by metis
qed

lemma double_free_release_build:
  assumes "Malloc True p = Inr (Some a, p1)" and "Suc (free_list_size p1) < length (free_list p1)"
  shows "\<exists>p2 p3 p4 p5. Free True a p1 = Inr p2 \<and> Free True a p2 = Inr p3 \<and>
    Malloc True p3 = Inr (Some a, p4) \<and> Malloc True p4 = Inr (Some a, p5)"
  using assms(2) by (simp add: Free_def Malloc_def assert_call_def Let_def nth_list_update)

text \<open>
  C40: A double free is caught only with assertions. An object of the pool that is freed twice stops a
  build with assertions at the second \<open>Free\<close>; in a release build, where \<open>assert\<close> drops the
  bookkeeping along with the test, both calls succeed and the next two \<open>Malloc\<close> calls return the same
  object.
\<close>

theorem double_free_only_caught_by_assert:
  assumes "pool_inv p" and "Malloc False p = Inr (Some a, p1)"
    and "Malloc True r = Inr (Some c, r1)" and "Suc (free_list_size r1) < length (free_list r1)"
  shows "(\<exists>p2. Free False a p1 = Inr p2 \<and> Free False a p2 = Inl AssertFail) \<and>
    (\<exists>r2 r3 r4 r5. Free True c r1 = Inr r2 \<and> Free True c r2 = Inr r3 \<and>
       Malloc True r3 = Inr (Some c, r4) \<and> Malloc True r4 = Inr (Some c, r5))"
  using double_free_detected [OF assms(1,2)] double_free_release_build [OF assms(3,4)] by blast

theorem double_free_only_caught_by_assert_witness:
  "\<exists>p1 p2 r1 r2 r3 r4 r5.
     Malloc False (ObjPool_new 2 24 8 (Some 4096)) = Inr (Some 4120, p1) \<and> Free False 4120 p1 = Inr p2 \<and>
     Free False 4120 p2 = Inl AssertFail \<and> Malloc True (ObjPool_new 3 24 8 (Some 4096)) = Inr (Some 4144, r1) \<and>
     Malloc True r1 = Inr (Some 4120, r2) \<and> Free True 4120 r2 = Inr r3 \<and> Free True 4120 r3 = Inr r4 \<and>
     (\<exists>r6. Malloc True r4 = Inr (Some 4120, r5) \<and> Malloc True r5 = Inr (Some 4120, r6))"
proof -
  have inv: "pool_inv (ObjPool_new 2 24 8 (Some 4096))" by (rule ObjPool_new_inv) simp_all
  have up: "[0..<2] = [0, Suc 0]" "[0..<3] = [0, Suc 0, 2]" by (simp_all add: upt_rec)
  obtain p1 where p1: "Malloc False (ObjPool_new 2 24 8 (Some 4096)) = Inr (Some 4120, p1)"
    using Malloc_law [OF inv] by (auto simp: Malloc_def ObjPool_new_def up Let_def and_then_Inr_iff split: option.splits)
  obtain r1 where r1: "Malloc True (ObjPool_new 3 24 8 (Some 4096)) = Inr (Some 4144, r1)"
    "free_list_size r1 = 2" "free_list r1 = [4096, 4120, 4144]"
    by (simp add: Malloc_def assert_call_def ObjPool_new_def up Let_def)
  obtain r2 where r2: "Malloc True r1 = Inr (Some 4120, r2)" "free_list_size r2 = 1" "free_list r2 = [4096, 4120, 4144]"
    using r1 by (simp add: Malloc_def assert_call_def Let_def)
  from double_free_only_caught_by_assert [OF inv p1 r2(1)] r2(2,3) p1 r1(1) r2(1) show ?thesis by fastforce
qed

end
