(* ===== verification/File_Util.thy ===== *)
theory File_Util
  imports Prelude
begin

text \<open>
  The file helpers of \<open>src/src/Bolt/file_util.h\<close>, \<open>file_util.cc\<close> and the lock file of \<open>util.h\<close>. What
  the C library and the kernel answer is a parameter: \<open>fwrite k n\<close> and \<open>read k n\<close> are the results of
  the \<open>k\<close>-th call for \<open>n\<close> bytes. They never transfer more than they were asked for, which is cut off
  here, so every function is a parameter without further hypotheses.
\<close>

section \<open>Space\<close>

text \<open>\<open>GetAvailableSpace\<close>: the block size times the available blocks, -1 when \<open>statvfs\<close> fails.\<close>

definition GetAvailableSpace :: "(u64 \<times> u64) option \<Rightarrow> int" where
  "GetAvailableSpace st = (case st of None \<Rightarrow> - 1 | Some (f_bsize, f_bavail) \<Rightarrow> sint (f_bsize * f_bavail))"

section \<open>Appending\<close>

record appendFile =
  fp :: "byte list"
  calls :: nat
  writtenBytes :: u64

definition AppendFile :: appendFile where
  "AppendFile = \<lparr>fp = [], calls = 0, writtenBytes = 0\<rparr>"

definition DummyIncWrittenBytes :: "u64 \<Rightarrow> appendFile \<Rightarrow> appendFile" where
  "DummyIncWrittenBytes len f = f\<lparr>writtenBytes := writtenBytes f + len\<rparr>"

text \<open>\<open>AppendFile::write\<close>: \<open>fwrite_unlocked\<close> adds a prefix of the bytes to the stream.\<close>

definition AppendFile_write :: "(nat \<Rightarrow> nat \<Rightarrow> nat) \<Rightarrow> byte list \<Rightarrow> appendFile \<Rightarrow> nat \<times> appendFile" where
  "AppendFile_write fwrite bs f =
     (let x = min (fwrite (calls f) (length bs)) (length bs)
      in (x, f\<lparr>fp := fp f @ take x bs, calls := Suc (calls f)\<rparr>))"

text \<open>The loop of \<open>append\<close> on the bytes that remain.\<close>

function append_loop :: "(nat \<Rightarrow> nat \<Rightarrow> nat) \<Rightarrow> byte list \<Rightarrow> appendFile \<Rightarrow> appendFile" where
  "append_loop fwrite bs f =
     (if bs = [] then f
      else let (x, f') = AppendFile_write fwrite bs f in
           if x = 0 then f' else append_loop fwrite (drop x bs) f')"
  by pat_completeness auto
termination
  by (relation "measure (\<lambda>(fwrite, bs, f). length bs)") (auto simp: AppendFile_write_def Let_def)

declare append_loop.simps [simp del]

definition AppendFile_append :: "(nat \<Rightarrow> nat \<Rightarrow> nat) \<Rightarrow> byte list \<Rightarrow> appendFile \<Rightarrow> appendFile" where
  "AppendFile_append fwrite logline f =
     (let (n, f) = AppendFile_write fwrite logline f;
          f = append_loop fwrite (drop n logline) f
      in f\<lparr>writtenBytes := writtenBytes f + of_nat (length logline)\<rparr>)"

section \<open>Reading small files\<close>

definition kBufferSize :: nat where "kBufferSize = 64 * 1024"

record smallFile =
  sf_open :: bool
  sf_err :: int
  sf_buf :: "byte list"

definition ReadSmallFile :: "int \<Rightarrow> int \<Rightarrow> smallFile" where
  "ReadSmallFile fd errno = \<lparr>sf_open = (0 \<le> fd), sf_err = (if fd < 0 then errno else 0), sf_buf = [0]\<rparr>"

text \<open>What \<open>fstat\<close> says about a file.\<close>

record stat_result =
  st_reg :: bool
  st_dir :: bool
  st_size :: int
  st_mtime :: int
  st_ctime :: int

text \<open>The out parameters of \<open>readToString\<close>; \<open>None\<close> is a null pointer.\<close>

record file_times =
  fileSize :: "int option"
  modifyTime :: "int option"
  createTime :: "int option"

text \<open>
  The loop of \<open>readToString\<close>. \<open>rest\<close> is what the file holds behind the read position; \<open>read k n\<close> is the
  number of bytes the \<open>k\<close>-th call transfers, negative for an error.
\<close>

function read_loop :: "(nat \<Rightarrow> nat \<Rightarrow> int) \<Rightarrow> int \<Rightarrow> nat \<Rightarrow> nat \<Rightarrow> byte list \<Rightarrow> byte list \<Rightarrow> int \<Rightarrow> byte list \<times> int" where
  "read_loop read errno maxSize k rest content err =
     (if length content < maxSize then
        let toRead = min (maxSize - length content) kBufferSize;
            n = read k toRead
        in if n < 0 then (content, errno)
           else let bs = take (min (nat n) toRead) rest in
                if bs = [] then (content, err)
                else read_loop read errno maxSize (Suc k) (drop (length bs) rest) (content @ bs) err
      else (content, err))"
  by pat_completeness auto
termination
proof (relation "measure (\<lambda>(read, errno, maxSize, k, rest, content, err). maxSize - length content)", goal_cases)
  case (2 read errno maxSize k rest content err toRead n bs)
  have "0 < length bs" using 2(6) by blast
  then show ?case using 2(1) by (simp only: in_measure split length_append)
qed simp

declare read_loop.simps [simp del]

text \<open>\<open>st\<close> is what \<open>fstat\<close> answers, \<open>None\<close> with the error \<open>stat_errno\<close>.\<close>

definition stat_file :: "stat_result option \<Rightarrow> int \<Rightarrow> int \<Rightarrow> file_times \<Rightarrow> int \<Rightarrow> file_times \<times> int" where
  "stat_file st stat_errno EISDIR out err =
     (if fileSize out = None then (out, err)
      else case st of
        None \<Rightarrow> (out, stat_errno)
      | Some s \<Rightarrow>
          let (out, err) = (if st_reg s then (out\<lparr>fileSize := Some (st_size s)\<rparr>, err)
                            else if st_dir s then (out, EISDIR) else (out, err))
          in (out\<lparr>modifyTime := map_option (\<lambda>_. st_mtime s) (modifyTime out),
                  createTime := map_option (\<lambda>_. st_ctime s) (createTime out)\<rparr>, err))"

definition readToString :: "(nat \<Rightarrow> nat \<Rightarrow> int) \<Rightarrow> int \<Rightarrow> stat_result option \<Rightarrow> int \<Rightarrow> int \<Rightarrow> int \<Rightarrow> byte list \<Rightarrow>
    smallFile \<Rightarrow> byte list \<Rightarrow> file_times \<Rightarrow> byte list \<times> file_times \<times> int" where
  "readToString read errno st stat_errno EISDIR maxSize file_content f content out =
     (if \<not> sf_open f then (content, out, sf_err f)
      else
        let (out, err) = stat_file st stat_errno EISDIR out (sf_err f);
            (content, err) = read_loop read errno (nat (maxSize mod 2 ^ 64)) 0 file_content [] err
        in (content, out, err))"

text \<open>\<open>readToBuffer\<close>: one \<open>pread\<close> of at most \<open>kBufferSize - 1\<close> bytes, then a terminating zero.\<close>

definition readToBuffer :: "int \<Rightarrow> int \<Rightarrow> byte list \<Rightarrow> smallFile \<Rightarrow> (int option \<times> int \<times> smallFile)" where
  "readToBuffer n errno file_content f =
     (if \<not> sf_open f then (None, sf_err f, f)
      else if n < 0 then (None, errno, f)
      else let bs = take (min (nat n) (kBufferSize - 1)) file_content in
           (Some (int (length bs)), sf_err f, f\<lparr>sf_buf := bs @ [0]\<rparr>))"

section \<open>Lock file\<close>

text \<open>
  \<open>FlockUtil\<close>: \<open>open_fd\<close> is the result of \<open>open\<close>, \<open>flock_rc\<close> that of \<open>flock\<close>. A failed \<open>open\<close> is only
  logged.
\<close>

definition FlockUtil_lock :: "int \<Rightarrow> (int \<Rightarrow> int) \<Rightarrow> bool \<times> int" where
  "FlockUtil_lock open_fd flock_rc = (if flock_rc open_fd = 0 then (True, open_fd) else (False, - 1))"

definition FlockUtil_unlock :: "int \<Rightarrow> int" where
  "FlockUtil_unlock fd = - 1"

section \<open>Correctness\<close>

lemma append_loop_spec:
  "\<exists>k. fp (append_loop fwrite bs f) = fp f @ take k bs \<and>
     writtenBytes (append_loop fwrite bs f) = writtenBytes f \<and>
     ((\<forall>c n. 0 < n \<longrightarrow> 0 < fwrite c n) \<longrightarrow> length bs \<le> k)"
proof (induction fwrite bs f rule: append_loop.induct)
  case (1 fwrite bs f)
  let ?x = "min (fwrite (calls f) (length bs)) (length bs)"
  let ?f = "f\<lparr>fp := fp f @ take ?x bs, calls := Suc (calls f)\<rparr>"
  have w: "AppendFile_write fwrite bs f = (?x, ?f)" by (simp add: AppendFile_write_def Let_def)
  consider "bs = []" | "bs \<noteq> []" "?x = 0" | "bs \<noteq> []" "?x \<noteq> 0" by blast
  then show ?case
  proof cases
    case 1
    then show ?thesis by (subst (1 2) append_loop.simps) simp
  next
    case 2
    then have "append_loop fwrite bs f = ?f" by (subst append_loop.simps) (simp add: w)
    moreover have "\<not> (\<forall>c n. 0 < n \<longrightarrow> 0 < fwrite c n)" using 2 by (metis length_greater_0_conv min_0R min_def neq0_conv)
    ultimately show ?thesis using 2 by (intro exI [of _ 0]) simp
  next
    case 3
    then have e: "append_loop fwrite bs f = append_loop fwrite (drop ?x bs) ?f"
      by (subst append_loop.simps) (simp only: w split if_False Let_def)
    from "1.IH" [OF 3(1) w [symmetric]] 3(2) obtain k where
      k: "fp (append_loop fwrite (drop ?x bs) ?f) = fp ?f @ take k (drop ?x bs)"
        "writtenBytes (append_loop fwrite (drop ?x bs) ?f) = writtenBytes ?f"
        "(\<forall>c n. 0 < n \<longrightarrow> 0 < fwrite c n) \<longrightarrow> length (drop ?x bs) \<le> k" by auto
    show ?thesis unfolding e k(2)
      by (intro exI [of _ "?x + k"] conjI impI) (use k in \<open>auto simp: take_add\<close>)
  qed
qed

text \<open>
  C33: \<open>AppendFile::append\<close> always returns. What it adds to the stream is a prefix of the line, the whole
  line when every \<open>fwrite\<close> transfers at least one byte; the byte counter is raised by the length of the
  line in any case, also when \<open>fwrite\<close> gave up earlier.
\<close>

theorem append_writes_line:
  "\<exists>k. fp (AppendFile_append fwrite line f) = fp f @ take k line \<and>
     ((\<forall>c n. 0 < n \<longrightarrow> 0 < fwrite c n) \<longrightarrow> length line \<le> k) \<and>
     writtenBytes (AppendFile_append fwrite line f) = writtenBytes f + of_nat (length line)"
proof -
  let ?x = "min (fwrite (calls f) (length line)) (length line)"
  let ?f = "f\<lparr>fp := fp f @ take ?x line, calls := Suc (calls f)\<rparr>"
  from append_loop_spec [of fwrite "drop ?x line" ?f] obtain k where
    k: "fp (append_loop fwrite (drop ?x line) ?f) = fp ?f @ take k (drop ?x line)"
      "writtenBytes (append_loop fwrite (drop ?x line) ?f) = writtenBytes ?f"
      "(\<forall>c n. 0 < n \<longrightarrow> 0 < fwrite c n) \<longrightarrow> length (drop ?x line) \<le> k" by blast
  show ?thesis
    by (intro exI [of _ "?x + k"]) (use k in \<open>auto simp: AppendFile_append_def AppendFile_write_def Let_def take_add\<close>)
qed

theorem append_writes_line_witness:
  "fp (AppendFile_append (\<lambda>c n. 1) [1, 2, 3] AppendFile) = [1, 2, 3]"
  using append_writes_line [of "\<lambda>c n. 1" "[1, 2, 3]" AppendFile] by (auto simp: AppendFile_def)

lemma read_loop_spec:
  "(\<forall>c n. 0 < n \<longrightarrow> 0 < read c n) \<Longrightarrow> length content \<le> maxSize \<Longrightarrow>
     read_loop read errno maxSize k rest content err = (content @ take (maxSize - length content) rest, err)"
proof (induction read errno maxSize k rest content err rule: read_loop.induct)
  case (1 read errno maxSize k rest content err)
  show ?case
  proof (cases "length content < maxSize")
    case lt: True
    define t where "t = min (maxSize - length content) kBufferSize"
    define bs where "bs = take (min (nat (read k t)) t) rest"
    have t: "0 < t" "t \<le> maxSize - length content" using lt by (simp_all add: t_def kBufferSize_def)
    have pos: "0 < read k t" using "1.prems"(1) t(1) by blast
    have unf: "read_loop read errno maxSize k rest content err =
        (if bs = [] then (content, err)
         else read_loop read errno maxSize (Suc k) (drop (length bs) rest) (content @ bs) err)"
      by (subst read_loop.simps)
        (simp only: Let_def if_P [OF lt] if_not_P [OF less_not_sym [OF pos]] flip: t_def bs_def)
    show ?thesis
    proof (cases "bs = []")
      case True
      then have "rest = []" using pos t(1) by (auto simp: bs_def)
      then show ?thesis using unf True by simp
    next
      case False
      have "length bs \<le> t" by (simp add: bs_def)
      then have len: "length (content @ bs) \<le> maxSize" using t(2) lt by simp
      have "\<not> read k t < 0" using pos by simp
      from "1.IH" [OF lt t_def refl this bs_def False "1.prems"(1) len]
      have "read_loop read errno maxSize k rest content err =
          ((content @ bs) @ take (maxSize - length (content @ bs)) (drop (length bs) rest), err)"
        using unf False by simp
      moreover have "bs @ take (maxSize - length (content @ bs)) (drop (length bs) rest) = take (maxSize - length content) rest"
      proof -
        have "bs = take (length bs) rest" by (simp add: bs_def min_def)
        moreover have "length bs + (maxSize - length (content @ bs)) = maxSize - length content" using len by simp
        ultimately show ?thesis by (metis take_add)
      qed
      ultimately show ?thesis by simp
    qed
  next
    case False
    then show ?thesis using "1.prems"(2) by (subst read_loop.simps) simp
  qed
qed

text \<open>
  C32: \<open>readFile\<close>, on a regular file it can open and read without errors, ends and returns the first
  \<open>maxSize\<close> bytes of the file, its size and error 0, however the kernel cuts the reads.
\<close>

theorem read_small_file:
  assumes "0 \<le> fd" and "st_reg s" and "0 \<le> maxSize" and "maxSize < 2 ^ 31" and "fileSize out \<noteq> None"
    and "\<forall>c n. 0 < n \<longrightarrow> 0 < read c n"
  shows "readToString read errno (Some s) stat_errno EISDIR maxSize file_content (ReadSmallFile fd errno0) content out =
    (take (nat maxSize) file_content, out\<lparr>fileSize := Some (st_size s),
       modifyTime := map_option (\<lambda>_. st_mtime s) (modifyTime out),
       createTime := map_option (\<lambda>_. st_ctime s) (createTime out)\<rparr>, 0)"
proof -
  have "maxSize mod 2 ^ 64 = maxSize" using assms(3,4) by simp
  then show ?thesis using assms(1,2,5) read_loop_spec [OF assms(6), of "[]" "nat maxSize" errno 0 file_content 0]
    by (auto simp: readToString_def stat_file_def ReadSmallFile_def)
qed

theorem read_small_file_witness:
  "readToString (\<lambda>c n. 2) 5 (Some \<lparr>st_reg = True, st_dir = False, st_size = 5, st_mtime = 7, st_ctime = 8\<rparr>) 0 21 4
     [1, 2, 3, 4, 5] (ReadSmallFile 3 0) [9] \<lparr>fileSize = Some 0, modifyTime = None, createTime = Some 0\<rparr> =
   ([1, 2, 3, 4], \<lparr>fileSize = Some 5, modifyTime = None, createTime = Some 8\<rparr>, 0)"
  using read_small_file [of 3 "\<lparr>st_reg = True, st_dir = False, st_size = 5, st_mtime = 7, st_ctime = 8\<rparr>" 4
      "\<lparr>fileSize = Some 0, modifyTime = None, createTime = Some 0\<rparr>" "\<lambda>c n. 2" 5 0 21 "[1, 2, 3, 4, 5]" 0 "[9]"]
  by simp

end
