(* ===== verification/Spec2Isabelle.thy ===== *)
theory Spec2Isabelle
  imports Commit_Atomic Database Obj_Pool File_Util
begin

text \<open>
  \<^bold>\<open>CBTree: an embedded key-value store (a C++ port of BoltDB)\<close>

  \<^bold>\<open>The program.\<close> A database is one file of fixed-size pages. Two meta pages (0 and 1) name the current
  root page, the page of the freelist and the number of pages; the meta with the higher transaction id that
  validates is the current one. Data is a B+ tree of leaf and branch pages whose leaf entries are values or
  nested buckets, a small bucket being stored inline in its entry. The file is read through a memory mapping.
  A transaction works on a private copy of the meta record and a tree of buckets. A write transaction turns
  the pages it edits into nodes, and when it commits it rebalances and splits the nodes, writes them to newly
  allocated pages, gives the old pages to the freelist as pending, writes the freelist to a new page, writes
  all dirty pages and finally the meta page. Pages stay pending until no reader can see them.

  \<^bold>\<open>How it is modelled.\<close> The sources are under \<open>src/src/Bolt\<close>. Pure code is a HOL function; code that
  follows pointers, takes locks or calls the system is a function from a record \<open>world\<close> to a result and a new
  \<open>world\<close> (\<open>World\<close>: heaps of nodes, buckets, transactions and page buffers, the fields of \<open>DB\<close>, and the file).
  A failed \<open>assert\<close>, \<open>LOG(FATAL)\<close>, an access outside a buffer, a null or dangling pointer and waiting for a
  lock that nobody can release are values of the type \<open>error\<close>. Integers have their C++ widths. Pages are byte
  lists read and written at the offsets of the packed structs.

  \<^item> \<open>Prelude\<close>: integers, errors, results, bounds-checked little-endian access to buffers.
  \<^item> \<open>Page_Layout\<close> (\<open>type.h\<close>, \<open>page.h\<close>): \<open>Item\<close>, page header, leaf and branch elements.
  \<^item> \<open>Free_List\<close> (\<open>freeList.cc\<close>) with \<open>Free_List_Alloc\<close>, \<open>Free_List_Correct\<close>, \<open>Free_List_Machine\<close>: the
    allocator, its invariant over all reachable states (a step relation, rule induction), exactness of
    \<open>allocate\<close>, \<open>free\<close>, \<open>release\<close>, \<open>rollback\<close>, the round trip through a page, and the locale
    \<open>page_allocator\<close>: no page is handed out while it is pending.
  \<^item> \<open>Key_Search\<close>: one locale for the three binary searches of the program.
  \<^item> \<open>Node\<close> (\<open>node.cc\<close>, one node) with \<open>Node_Map\<close> (a node refines a map, also when \<open>put\<close> replaces a key, through the locale \<open>ordered_map\<close>)
    and \<open>Node_Store\<close> (sizes, split position, round trip of leaves through pages, and why branches fail).
  \<^item> \<open>Meta\<close> (\<open>meta.cc\<close>, \<open>db.cc\<close>): layout, validation, choice of the current meta.
  \<^item> \<open>World\<close>, \<open>Db\<close> (\<open>db.cc\<close>, \<open>db.h\<close>) with \<open>Db_Correct\<close>: creation, opening, mapping, allocation, growth.
  \<^item> \<open>Tx\<close> (\<open>tx.cc\<close>, pages of a transaction), \<open>Bucket_Node\<close> (\<open>bucket.cc\<close>, node cache), \<open>Cursor\<close>
    (\<open>cursor.cc\<close>) with \<open>Cursor_Correct\<close> (\<open>seek\<close> on a well-formed tree of pages and nodes), \<open>Bucket\<close>
    (\<open>bucket.cc\<close>) with \<open>Bucket_Correct\<close> (\<open>get\<close> is a lookup in the tree) and \<open>Bucket_Edit\<close> (\<open>put\<close> and \<open>remove\<close> on
    a bucket of one leaf refine a map, through the locale \<open>kv_store\<close>).
  \<^item> \<open>Node_Heap\<close> (\<open>node.cc\<close>, several nodes) with \<open>Node_Heap_Correct\<close>: splitting loses nothing and ends.
  \<^item> \<open>Tx_Commit\<close> (\<open>bucket.cc\<close>, \<open>tx.cc\<close>) and \<open>Db_Tx\<close> (\<open>db.cc\<close>): rebalance, spill, commit, rollback, update and
    view. \<open>Frame\<close> shows what operations leave alone (the locales \<open>frame\<close>, \<open>op_frame\<close>, \<open>map_frame\<close> and
    \<open>heap_frame\<close>, interpreted for the file, the locks, the heaps); \<open>Db_Tx_Correct\<close> shows what happens to locks,
    readers and pending pages.
  \<^item> \<open>Spare_Pages\<close>, \<open>Commit_Safety\<close>, \<open>Torn_Meta\<close>, \<open>Commit_Atomic\<close>: a commit, on any tree and however it ends, writes only to
    pages that are free or beyond the page count and to one meta page, so the committed state survives and the
    file's current meta is the old or the new one. No write is assumed to be atomic: \<open>Torn_Meta\<close> shows that a write of
    the meta page may stop at any byte, because the transaction number is stored little-endian and nearly last.
  \<^item> \<open>Stored_Pages\<close>, \<open>Commit_Durable\<close>, \<open>Leaf_Commit\<close>, \<open>Leaf_Tx\<close>: a commit that succeeds, step by step from the
    root leaf in memory to the bytes in the file, and \<open>DB::update\<close> and \<open>DB::view\<close> around it; \<open>Reopen\<close>: \<open>DB::Open\<close>
    finds in a file what the commits left there.
  \<^item> \<open>Inline_Bucket\<close>, \<open>Bucket_Db\<close>, \<open>Bucket_Update\<close>, \<open>Bucket_Create\<close>: buckets stored inline in the root page, their
    creation, editing and lookup by transactions; \<open>Database\<close>: the locale \<open>nested_store\<close>, implemented by \<open>DB::Open\<close>,
    \<open>DB::update\<close>, \<open>DB::view\<close> and \<open>DbClose\<close>: the whole database, over sequences of transactions within the bounds
    below, is a map of maps; and why a bucket cannot be used in the transaction that creates it.
  \<^item> \<open>Obj_Pool\<close> (\<open>obj_pool.h\<close>) and \<open>File_Util\<close> (\<open>file_util.cc\<close>, \<open>util.h\<close>): the helpers.

  \<^bold>\<open>Parameters and bounds.\<close> What the operating system decides (success of a call, bytes transferred, content
  of fresh memory, addresses) is the record \<open>environ\<close>, arbitrary in every theorem that does not name a
  hypothesis about it; user functions and commit handlers are arguments. Recursion through pages, parents and
  sub-buckets, which a damaged file or heap can make endless, takes a number \<open>fuel\<close>; running out is the error
  \<open>Diverges\<close>. \<open>seek\<close> is shown to need no more fuel than the height of the tree, \<open>split\<close> no more than the number
  of inodes; the sessions of \<open>Database\<close> run with fuel 1 for the user functions and 3 for the commits. All
  other loops are structural or have a termination proof. The theorem on whole sessions assumes that system
  calls succeed and pages have 4096 bytes; each of its updates creates one bucket or edits one that an earlier
  update created (creating and editing in one transaction reads freed memory, as is shown beside it), and each of
  its views looks one key up. It has buckets of at most 1008 bytes together, which stay inline on the one root
  page (a page is split, and a bucket leaves its entry, only above a quarter page; a written branch page does not
  lead to its keys, so larger trees do not survive a commit), and at most 254 commits, as each commit can add two
  ids to the one page of the freelist; 16 MB are mapped, so that no commit maps the file again.

  \<^bold>\<open>Not modelled.\<close> Interleaving of threads inside a call (a call sees other threads through the locks it finds
  taken), short reads by the \<open>pread\<close> of \<open>DB::Open\<close> (one page at the start of the file), the field \<open>path_\<close> of
  \<open>DB\<close>, log output, statistics that no code reads, \<open>std::hash\<close>, \<open>struct batch\<close>, the empty \<open>dereference\<close> functions, destructors, \<open>type.cc\<close> (comments only), tests and third-party code. Iteration order of hash
  tables is the order of the association list that stands for the table.
\<close>

end
